(* ===== verification/Abf_Prelude.thy ===== *)
theory Abf_Prelude
  imports
    Main
    "HOL-Library.AList"
    "HOL-Library.Multiset"
    "HOL-Library.Signed_Division"
begin

text \<open>
  Shared vocabulary of the development: the fact collections the component theories fill and
  their proofs use, the shape of a Go result, Go's integer arithmetic where it differs from
  HOL's, and the generic lemmas on lists that several components need.
\<close>

section \<open>Fact collections\<close>

text \<open>
  \<open>port_simps\<close> unfolds the selection of a method from a port record; \<open>wiring_simps\<close> the
  records that \<open>main\<close> assembles.
\<close>

named_theorems port_simps
named_theorems wiring_simps

section \<open>Integers\<close>

text \<open>
  A Go \<open>int64\<close> (and \<open>time.Duration\<close>, and \<open>int\<close> on the supported platforms) is kept as an
  integer; where the code's arithmetic can leave the range the wrap-around is written out with
  \<open>int64\<close>. Go's \<open>/\<close> truncates towards zero, which is \<open>sdiv\<close> of the library.
\<close>

definition int64 :: "int \<Rightarrow> int" where
  "int64 x = (x + 2 ^ 63) mod 2 ^ 64 - 2 ^ 63"

lemma int64_id [simp]: "- (2 ^ 63) \<le> x \<Longrightarrow> x < 2 ^ 63 \<Longrightarrow> int64 x = x"
  by (simp add: int64_def)

lemma int64_range: "- (2 ^ 63) \<le> int64 x \<and> int64 x < 2 ^ 63"
proof -
  have "0 \<le> (x + 2 ^ 63) mod 2 ^ 64" "(x + 2 ^ 63) mod 2 ^ 64 < 2 ^ 64"
    by simp_all
  then show ?thesis by (simp add: int64_def)
qed

section \<open>Lists\<close>

lemma dropWhile_le_filter:
  "sorted xs \<Longrightarrow> dropWhile (\<lambda>t. t \<le> c) xs = filter (\<lambda>t. c < t) (xs :: 'a::linorder list)"
  by (induction xs) (force intro!: filter_True [symmetric])+

lemma sorted_dropWhile: "sorted xs \<Longrightarrow> sorted (dropWhile P xs)"
  by (induction xs) auto

lemma set_dropWhile_subset: "set (dropWhile P xs) \<subseteq> set xs"
  using set_dropWhileD by fastforce

lemma dropWhile_split: "\<exists>ys. xs = ys @ dropWhile P xs \<and> (\<forall>y \<in> set ys. P y)"
proof (intro exI conjI ballI)
  show "xs = takeWhile P xs @ dropWhile P xs"
    by simp
  show "P y" if "y \<in> set (takeWhile P xs)" for y
    using that by (rule set_takeWhileD [THEN conjunct2])
qed

lemma prefix_split_unique:
  "c \<notin> set xs \<Longrightarrow> c \<notin> set ys \<Longrightarrow>
    xs @ c # us = ys @ c # vs \<longleftrightarrow> xs = ys \<and> us = vs"
proof (induction xs arbitrary: ys)
  case Nil
  then show ?case by (cases ys) auto
next
  case (Cons x xs)
  then show ?case by (cases ys) auto
qed

lemma length_filter_mono:
  "(\<And>x. x \<in> set xs \<Longrightarrow> P x \<Longrightarrow> Q x) \<Longrightarrow> length (filter P xs) \<le> length (filter Q xs)"
proof (induction xs)
  case (Cons x xs)
  then have "length (filter P xs) \<le> length (filter Q xs)" by simp
  with Cons.prems [of x] show ?case by auto
qed simp

lemma list_lower_bound: "\<exists>h. \<forall>x \<in> set xs. h \<le> (f x :: int)"
proof (induction xs)
  case (Cons x xs)
  then obtain h where "\<forall>y \<in> set xs. h \<le> f y" by blast
  then show ?case by (intro exI [of _ "min h (f x)"]) auto
qed simp

text \<open>
  In a sorted list, at most \<open>n\<close> elements lie in an interval when elements \<open>n\<close> places apart are
  never both in it. This is the counting step behind the sliding-window bound.
\<close>

lemma sorted_filter_interval:
  assumes "sorted (xs :: int list)"
  shows "filter (\<lambda>x. a \<le> x \<and> x \<le> b) xs = takeWhile (\<lambda>x. x \<le> b) (dropWhile (\<lambda>x. x < a) xs)"
  using assms
proof (induction xs)
  case Nil
  then show ?case by simp
next
  case (Cons x xs)
  have rest: "takeWhile (\<lambda>y. y \<le> b) ys = filter (\<lambda>y. y \<le> b) ys" if "sorted ys" for ys :: "int list"
    using that by (induction ys) (auto intro!: filter_False [symmetric])
  show ?case
  proof (cases "x < a")
    case True
    with Cons show ?thesis by simp
  next
    case False
    with Cons.prems have "\<forall>y \<in> set (x # xs). a \<le> y" by auto
    then have "filter (\<lambda>y. a \<le> y \<and> y \<le> b) (x # xs) = filter (\<lambda>y. y \<le> b) (x # xs)"
      by (intro filter_cong) auto
    with False rest [OF Cons.prems] show ?thesis by simp
  qed
qed

lemma spaced_count_le:
  assumes sorted: "sorted (xs :: int list)"
    and spaced: "\<And>i. i + n < length xs \<Longrightarrow> a \<le> xs ! i \<Longrightarrow> xs ! (i + n) \<le> b \<Longrightarrow> False"
  shows "length (filter (\<lambda>x. a \<le> x \<and> x \<le> b) xs) \<le> n"
proof (rule ccontr)
  let ?ys = "dropWhile (\<lambda>x. x < a) xs"
  let ?zs = "takeWhile (\<lambda>x. x \<le> b) ?ys"
  let ?i = "length (takeWhile (\<lambda>x. x < a) xs)"
  assume "\<not> length (filter (\<lambda>x. a \<le> x \<and> x \<le> b) xs) \<le> n"
  then have n: "n < length ?zs"
    by (simp add: sorted_filter_interval [OF sorted])
  have len: "length ?zs \<le> length ?ys"
    by (rule length_takeWhile_le)
  have xs: "xs = takeWhile (\<lambda>x. x < a) xs @ ?ys"
    by simp
  have nth: "xs ! (?i + k) = ?ys ! k" for k
    by (subst xs) (simp only: nth_append_length_plus)
  have "length xs = ?i + length ?ys"
    by (subst xs) (simp only: length_append)
  with n len have "?i + n < length xs" by linarith
  moreover have "a \<le> xs ! ?i"
  proof -
    from n len have "?ys \<noteq> []" by force
    then have "\<not> hd ?ys < a" by (rule hd_dropWhile)
    with hd_conv_nth [OF \<open>?ys \<noteq> []\<close>] nth [of 0] show ?thesis
      by (simp only: add_0_right not_less)
  qed
  moreover have "xs ! (?i + n) \<le> b"
  proof -
    have "?zs ! n = ?ys ! n"
      using n by (rule takeWhile_nth)
    moreover have "?zs ! n \<le> b"
      using n nth_mem set_takeWhileD by fastforce
    ultimately show ?thesis by (simp only: nth)
  qed
  ultimately show False by (rule spaced)
qed

end
