(* ===== verification/Go_Errors.thy ===== *)
theory Go_Errors
  imports Abf_Prelude
begin

text \<open>
  Go's \<open>error\<close> values as the program builds them: the sentinel variables of the packages, the
  errors made by \<open>fmt.Errorf\<close> with and without \<open>%w\<close>, \<open>errors.Join\<close>, the \<open>net.ParseError\<close> of the
  standard library, and errors handed over by a third-party package. A function that returns
  \<open>(T, error)\<close> is modelled with the sum \<open>go_error + T\<close>, one that returns \<open>error\<close> with
  \<open>go_error option\<close>, where \<open>None\<close> is \<open>nil\<close>.
\<close>

section \<open>Sentinels, one type per package that declares them\<close>

datatype subnetlist_sentinel = ErrInvalidIP | ErrInvalidCIDR | ErrInvalidListType

datatype grpc_sentinel =
    ErrRateLimiterNotConfigured
  | ErrInvalidIPAddress
  | ErrSubnetListNotConfigured

datatype postgres_sentinel = ErrDuplicateKey | ErrEmptyCIDR

datatype config_sentinel = ErrFileNotFound

datatype context_sentinel = Canceled | DeadlineExceeded

datatype sentinel =
    SubnetlistErr subnetlist_sentinel
  | GrpcErr grpc_sentinel
  | PostgresErr postgres_sentinel
  | ConfigErr config_sentinel
  | ContextErr context_sentinel

section \<open>Error values\<close>

datatype go_error =
    Sentinel sentinel
  | Errorf string
  | Wrapf string go_error
  | Join go_error go_error
  | ParseError string string
  | Foreign string

type_synonym 'a result = "go_error + 'a"

text \<open>\<open>errors.Is(err, target)\<close> for a sentinel target: it follows \<open>%w\<close> and \<open>errors.Join\<close>.\<close>

fun errors_Is :: "go_error \<Rightarrow> sentinel \<Rightarrow> bool" where
  "errors_Is (Sentinel s) t \<longleftrightarrow> s = t"
| "errors_Is (Wrapf _ e) t \<longleftrightarrow> errors_Is e t"
| "errors_Is (Join a b) t \<longleftrightarrow> errors_Is a t \<or> errors_Is b t"
| "errors_Is _ t \<longleftrightarrow> False"

text \<open>The texts of the sentinels and \<open>err.Error()\<close>.\<close>

fun subnetlist_text :: "subnetlist_sentinel \<Rightarrow> string" where
  "subnetlist_text ErrInvalidIP = ''invalid IP address''"
| "subnetlist_text ErrInvalidCIDR = ''invalid CIDR notation''"
| "subnetlist_text ErrInvalidListType = ''invalid list type''"

fun grpc_text :: "grpc_sentinel \<Rightarrow> string" where
  "grpc_text ErrRateLimiterNotConfigured = ''rate limiter not configured''"
| "grpc_text ErrInvalidIPAddress = ''invalid IP address''"
| "grpc_text ErrSubnetListNotConfigured = ''subnet list not configured''"

fun postgres_text :: "postgres_sentinel \<Rightarrow> string" where
  "postgres_text ErrDuplicateKey = ''duplicate key value violates unique constraint''"
| "postgres_text ErrEmptyCIDR = ''cidr is empty''"

fun config_text :: "config_sentinel \<Rightarrow> string" where
  "config_text ErrFileNotFound = '' file not found''"

fun context_text :: "context_sentinel \<Rightarrow> string" where
  "context_text Canceled = ''context canceled''"
| "context_text DeadlineExceeded = ''context deadline exceeded''"

fun sentinel_text :: "sentinel \<Rightarrow> string" where
  "sentinel_text (SubnetlistErr s) = subnetlist_text s"
| "sentinel_text (GrpcErr s) = grpc_text s"
| "sentinel_text (PostgresErr s) = postgres_text s"
| "sentinel_text (ConfigErr s) = config_text s"
| "sentinel_text (ContextErr s) = context_text s"

fun Error :: "go_error \<Rightarrow> string" where
  "Error (Sentinel s) = sentinel_text s"
| "Error (Errorf m) = m"
| "Error (Wrapf m e) = m @ '': '' @ Error e"
| "Error (Join a b) = Error a @ [CHR 0x0A] @ Error b"
| "Error (ParseError ty s) = ''invalid '' @ ty @ '': '' @ s"
| "Error (Foreign m) = m"

end
