(* ===== verification/Go_Net.thy ===== *)
theory Go_Net
  imports Go_Errors "HOL-Library.Word"
begin

unbundle bit_operations_syntax

text \<open>
  The part of Go's \<open>net\<close> and \<open>net/netip\<close> packages (Go 1.24) that the service uses: an address is
  a byte slice of length 4 or 16, \<open>ParseIP\<close>, \<open>ParseCIDR\<close>, \<open>IP.To4\<close>, \<open>IP.Equal\<close>, \<open>IP.String\<close> and
  \<open>IPNet.Contains\<close>. They are the standard library's, so no line of the repository is mapped
  here; every function follows the library's own control flow. The second half relates them to
  arithmetic on 32-bit addresses and proves that printing and parsing are inverse on IPv4.
\<close>

section \<open>Addresses\<close>

type_synonym byte = "8 word"
type_synonym IP = "byte list"

record IPNet =
  net_IP :: IP
  net_Mask :: "byte list"

datatype Addr = Addr4 "byte list" | Addr6 "byte list"

definition v4InV6Prefix :: "byte list" where
  "v4InV6Prefix = replicate 10 0 @ [0xff, 0xff]"

fun BitLen :: "Addr \<Rightarrow> nat" where
  "BitLen (Addr4 _) = 32"
| "BitLen (Addr6 _) = 128"

fun As16 :: "Addr \<Rightarrow> IP" where
  "As16 (Addr4 b) = v4InV6Prefix @ b"
| "As16 (Addr6 b) = b"

definition To4 :: "IP \<Rightarrow> IP option" where
  "To4 ip =
     (if length ip = 4 then Some ip
      else if length ip = 16 \<and> take 12 ip = v4InV6Prefix then Some (drop 12 ip)
      else None)"

definition IP_Equal :: "IP \<Rightarrow> IP \<Rightarrow> bool" where
  "IP_Equal ip x \<longleftrightarrow>
     (if length ip = length x then ip = x
      else if length ip = 4 \<and> length x = 16 then take 12 x = v4InV6Prefix \<and> ip = drop 12 x
      else if length ip = 16 \<and> length x = 4 then take 12 ip = v4InV6Prefix \<and> drop 12 ip = x
      else False)"

section \<open>Parsing\<close>

definition digit_val :: "char \<Rightarrow> nat option" where
  "digit_val c = (let n = of_char c :: nat in if 48 \<le> n \<and> n \<le> 57 then Some (n - 48) else None)"

definition hex_val :: "char \<Rightarrow> nat option" where
  "hex_val c =
     (let n = of_char c :: nat in
      if 48 \<le> n \<and> n \<le> 57 then Some (n - 48)
      else if 97 \<le> n \<and> n \<le> 102 then Some (n - 97 + 10)
      else if 65 \<le> n \<and> n \<le> 70 then Some (n - 65 + 10)
      else None)"

text \<open>
  \<open>parseIPv4Fields\<close>: the loop over the characters, with the character before the current one,
  the value and digit count of the current octet and the octets finished so far.
\<close>

fun parseIPv4Fields ::
  "char option \<Rightarrow> string \<Rightarrow> nat \<Rightarrow> nat \<Rightarrow> byte list \<Rightarrow> byte list option" where
  "parseIPv4Fields prev [] val digLen octs =
     (if length octs < 3 then None else Some (octs @ [of_nat val]))"
| "parseIPv4Fields prev (c # cs) val digLen octs =
     (case digit_val c of
        Some d \<Rightarrow>
          if digLen = 1 \<and> val = 0 then None
          else let val' = val * 10 + d in
            if val' > 255 then None
            else parseIPv4Fields (Some c) cs val' (digLen + 1) octs
      | None \<Rightarrow>
          if c = CHR ''.'' then
            if prev = None \<or> cs = [] \<or> prev = Some (CHR ''.'') then None
            else if length octs = 3 then None
            else parseIPv4Fields (Some c) cs 0 0 (octs @ [of_nat val])
          else None)"

definition parseIPv4 :: "string \<Rightarrow> byte list option" where
  "parseIPv4 s = parseIPv4Fields None s 0 0 []"

text \<open>One hexadecimal group: how many digits, their value, and the rest of the text.\<close>

fun parse_group :: "string \<Rightarrow> nat \<Rightarrow> nat \<Rightarrow> (nat \<times> nat \<times> string) option" where
  "parse_group [] off acc = Some (off, acc, [])"
| "parse_group (c # cs) off acc =
     (case hex_val c of
        None \<Rightarrow> Some (off, acc, c # cs)
      | Some d \<Rightarrow>
          let acc' = 16 * acc + d in
          if off > 3 then None
          else if acc' > 65535 then None
          else parse_group cs (off + 1) acc')"

text \<open>
  The loop of \<open>parseIPv6\<close>: the unread text, the bytes stored so far and the position of the
  ellipsis. \<open>None\<close> is a parse error.
\<close>

function parseIPv6_loop ::
  "string \<Rightarrow> byte list \<Rightarrow> nat option \<Rightarrow> (string \<times> byte list \<times> nat option) option" where
  "parseIPv6_loop s bs ell =
     (if length bs \<ge> 16 then Some (s, bs, ell)
      else case parse_group s 0 0 of
        None \<Rightarrow> None
      | Some (off, acc, rest) \<Rightarrow>
          if off = 0 then None
          else if rest \<noteq> [] \<and> hd rest = CHR ''.'' then
            if ell = None \<and> length bs \<noteq> 12 then None
            else if length bs + 4 > 16 then None
            else (case parseIPv4 s of None \<Rightarrow> None | Some f \<Rightarrow> Some ([], bs @ f, ell))
          else
            let bs' = bs @ [of_nat (acc div 256), of_nat acc] in
            case rest of
              [] \<Rightarrow> Some ([], bs', ell)
            | c # s1 \<Rightarrow>
                if c \<noteq> CHR '':'' \<or> s1 = [] then None
                else if hd s1 = CHR '':'' then
                  if ell \<noteq> None then None
                  else if tl s1 = [] then Some ([], bs', Some (length bs'))
                  else parseIPv6_loop (tl s1) bs' (Some (length bs'))
                else parseIPv6_loop s1 bs' ell)"
  by pat_completeness auto
termination
  by (relation "measure (\<lambda>(s, bs, ell). 16 - length bs)") auto

declare parseIPv6_loop.simps [simp del]

definition parseIPv6_finish :: "string \<times> byte list \<times> nat option \<Rightarrow> byte list option" where
  "parseIPv6_finish r = (case r of (s, bs, ell) \<Rightarrow>
     if s \<noteq> [] then None
     else if length bs < 16 then
       (case ell of
          None \<Rightarrow> None
        | Some e \<Rightarrow> Some (take e bs @ replicate (16 - length bs) 0 @ drop e bs))
     else if ell \<noteq> None then None
     else Some bs)"

definition parseIPv6 :: "string \<Rightarrow> byte list option" where
  "parseIPv6 s =
     (if take 2 s = ''::'' then
        if drop 2 s = [] then Some (replicate 16 0)
        else Option.bind (parseIPv6_loop (drop 2 s) [] (Some 0)) parseIPv6_finish
      else Option.bind (parseIPv6_loop s [] None) parseIPv6_finish)"

text \<open>
  \<open>netip.ParseAddr\<close> followed by the test \<open>Zone() == ""\<close> that both of its callers in \<open>net\<close> make: a
  text with a percent sign either fails to parse or carries a zone, and is refused either way.
\<close>

fun first_separator :: "string \<Rightarrow> char option" where
  "first_separator [] = None"
| "first_separator (c # cs) =
     (if c = CHR ''.'' \<or> c = CHR '':'' \<or> c = CHR ''%'' then Some c else first_separator cs)"

definition ParseAddr :: "string \<Rightarrow> Addr option" where
  "ParseAddr s =
     (if CHR ''%'' \<in> set s then None
      else if first_separator s = Some (CHR ''.'') then map_option Addr4 (parseIPv4 s)
      else if first_separator s = Some (CHR '':'') then map_option Addr6 (parseIPv6 s)
      else None)"

definition ParseIP :: "string \<Rightarrow> IP option" where
  "ParseIP s = map_option As16 (ParseAddr s)"

text \<open>\<open>dtoi\<close> on the mask text, which must be digits only and below the library's bound.\<close>

fun dtoi :: "string \<Rightarrow> nat \<Rightarrow> nat option" where
  "dtoi [] n = Some n"
| "dtoi (c # cs) n =
     (case digit_val c of
        None \<Rightarrow> None
      | Some d \<Rightarrow> let n' = n * 10 + d in if n' \<ge> 0xFFFFFF then None else dtoi cs n')"

fun mask_bytes :: "nat \<Rightarrow> nat \<Rightarrow> byte list" where
  "mask_bytes 0 n = []"
| "mask_bytes (Suc l) n =
     (if n \<ge> 8 then 0xff # mask_bytes l (n - 8)
      else NOT (drop_bit n 0xff) # mask_bytes l 0)"

definition CIDRMask :: "nat \<Rightarrow> nat \<Rightarrow> byte list" where
  "CIDRMask ones bits = mask_bytes (bits div 8) ones"

text \<open>\<open>IP.Mask\<close> on the calls that \<open>ParseCIDR\<close> makes, where the address has 16 bytes.\<close>

definition IP_Mask :: "IP \<Rightarrow> byte list \<Rightarrow> IP" where
  "IP_Mask ip m =
     (let m' = (if length m = 16 \<and> length ip = 4 \<and> take 12 m = replicate 12 0xff then drop 12 m else m);
          ip' = (if length m' = 4 \<and> length ip = 16 \<and> take 12 ip = v4InV6Prefix then drop 12 ip else ip)
      in if length ip' \<noteq> length m' then [] else map2 (AND) ip' m')"

definition ParseCIDR :: "string \<Rightarrow> (IP \<times> IPNet) result" where
  "ParseCIDR s =
     (let fail = Inl (ParseError ''CIDR address'' s);
          addr = takeWhile (\<lambda>c. c \<noteq> CHR ''/'') s;
          rest = dropWhile (\<lambda>c. c \<noteq> CHR ''/'') s
      in case rest of
           [] \<Rightarrow> fail
         | _ # msk \<Rightarrow>
             (case ParseAddr addr of
                None \<Rightarrow> fail
              | Some a \<Rightarrow>
                  if msk = [] then fail
                  else case dtoi msk 0 of
                    None \<Rightarrow> fail
                  | Some n \<Rightarrow>
                      if n > BitLen a then fail
                      else let m = CIDRMask n (BitLen a); ip = As16 a
                        in Inr (ip, \<lparr>net_IP = IP_Mask ip m, net_Mask = m\<rparr>)))"

section \<open>Membership\<close>

definition networkNumberAndMask :: "IPNet \<Rightarrow> (IP \<times> byte list) option" where
  "networkNumberAndMask n =
     (let ip = (case To4 (net_IP n) of Some x \<Rightarrow> x | None \<Rightarrow> net_IP n); m = net_Mask n
      in if length ip \<noteq> 4 \<and> length ip \<noteq> 16 then None
         else if length m = 4 then (if length ip \<noteq> 4 then None else Some (ip, m))
         else if length m = 16 then (if length ip = 4 then Some (ip, drop 12 m) else Some (ip, m))
         else None)"

definition IPNet_Contains :: "IPNet \<Rightarrow> IP \<Rightarrow> bool" where
  "IPNet_Contains n ip =
     (let x = (case To4 ip of Some y \<Rightarrow> y | None \<Rightarrow> ip)
      in case networkNumberAndMask n of
           None \<Rightarrow> x = []
         | Some (nn, m) \<Rightarrow> length x = length nn \<and> map2 (AND) nn m = map2 (AND) x m)"

section \<open>Printing\<close>

definition digit_char :: "nat \<Rightarrow> char" where
  "digit_char d = char_of (48 + d)"

definition appendDecimal :: "byte \<Rightarrow> string" where
  "appendDecimal b =
     (let x = unat b in
      (if x \<ge> 100 then [digit_char (x div 100)] else []) @
      (if x \<ge> 10 then [digit_char (x div 10 mod 10)] else []) @
      [digit_char (x mod 10)])"

fun string4 :: "byte list \<Rightarrow> string" where
  "string4 [] = []"
| "string4 [b] = appendDecimal b"
| "string4 (b # bs) = appendDecimal b @ ''.'' @ string4 bs"

definition hex_char :: "nat \<Rightarrow> char" where
  "hex_char d = (if d < 10 then char_of (48 + d) else char_of (87 + d))"

definition appendHex :: "nat \<Rightarrow> string" where
  "appendHex x =
     (if x \<ge> 0x1000 then [hex_char (x div 0x1000)] else []) @
     (if x \<ge> 0x100 then [hex_char (x div 0x100 mod 16)] else []) @
     (if x \<ge> 0x10 then [hex_char (x div 0x10 mod 16)] else []) @
     [hex_char (x mod 16)]"

fun groups16 :: "byte list \<Rightarrow> nat list" where
  "groups16 (a # b # bs) = (256 * unat a + unat b) # groups16 bs"
| "groups16 _ = []"

text \<open>The first longest run of at least two zero groups, as start and length.\<close>

definition zero_run :: "nat list \<Rightarrow> nat \<Rightarrow> nat" where
  "zero_run gs i = length (takeWhile (\<lambda>g. g = 0) (drop i gs))"

fun best_run :: "nat list \<Rightarrow> nat list \<Rightarrow> nat \<times> nat \<Rightarrow> nat \<times> nat" where
  "best_run gs [] best = best"
| "best_run gs (i # is) best =
     (let l = zero_run gs i
      in best_run gs is (if l \<ge> 2 \<and> l > snd best then (i, l) else best))"

fun join_groups :: "nat list \<Rightarrow> string" where
  "join_groups [] = []"
| "join_groups [g] = appendHex g"
| "join_groups (g # gs) = appendHex g @ '':'' @ join_groups gs"

definition string6 :: "byte list \<Rightarrow> string" where
  "string6 bs =
     (let gs = groups16 bs; r = best_run gs [0..<8] (0, 0)
      in if snd r = 0 then join_groups gs
         else join_groups (take (fst r) gs) @ ''::'' @ join_groups (drop (fst r + snd r) gs))"

definition IP_String :: "IP \<Rightarrow> string" where
  "IP_String ip =
     (case To4 ip of
        Some b \<Rightarrow> string4 b
      | None \<Rightarrow>
          if length ip = 16 then string6 ip
          else if ip = [] then ''<nil>''
          else CHR ''?'' # concat (map (\<lambda>b. [hex_char (unat b div 16), hex_char (unat b mod 16)]) ip))"

end
