(* ===== verification/Go_Net_Facts.thy ===== *)
theory Go_Net_Facts
  imports Go_Net
begin

unbundle bit_operations_syntax

text \<open>
  What the address functions compute: a mask comparison is a comparison of the leading bits of
  the addresses read as numbers, and an IPv4 address printed by \<open>IP.String\<close> is read back by
  \<open>ParseIP\<close> as the same address.
\<close>

section \<open>Masks compare leading bits\<close>

fun addr_num :: "byte list \<Rightarrow> nat" where
  "addr_num [] = 0"
| "addr_num (b # bs) = unat b * 2 ^ (8 * length bs) + addr_num bs"

lemma unat_byte_less: "unat (b :: byte) < 256"
  using unsigned_less [of b] by simp

lemma addr_num_less: "addr_num bs < 2 ^ (8 * length bs)"
proof (induction bs)
  case Nil
  then show ?case by simp
next
  case (Cons b bs)
  have "Suc (unat b) * 2 ^ (8 * length bs) \<le> 256 * 2 ^ (8 * length bs)"
    using unat_byte_less [of b] by (intro mult_le_mono1) simp
  moreover have "(256::nat) * 2 ^ (8 * length bs) = 2 ^ (8 * length (b # bs))"
    by (simp add: power_add)
  ultimately have "2 ^ (8 * length bs) + unat b * 2 ^ (8 * length bs) \<le> 2 ^ (8 * length (b # bs))"
    by (simp only: mult_Suc)
  with Cons.IH show ?case
    unfolding addr_num.simps by linarith
qed

lemma ff_mask: "(0xff :: byte) = mask 8"
  by (simp add: mask_eq_exp_minus_1)

lemma and_ff: "x AND 0xff = (x :: byte)"
  unfolding ff_mask
  by (rule bit_word_eqI) (simp only: bit_and_iff bit_mask_iff, auto)

lemma bit_host_mask:
  assumes "k \<le> 8"
  shows "bit (NOT (drop_bit k 0xff) :: byte) i \<longleftrightarrow> i < 8 \<and> 8 - k \<le> i"
proof -
  have "drop_bit k (0xff :: byte) = mask (8 - k)"
    unfolding ff_mask by (rule bit_word_eqI) (simp only: bit_drop_bit_eq bit_mask_iff comp_apply, auto)
  then have "bit (NOT (drop_bit k 0xff) :: byte) i \<longleftrightarrow> bit (NOT (mask (8 - k)) :: byte) i"
    by simp
  then show ?thesis
    by (auto simp: bit_not_iff bit_mask_iff)
qed

lemma empty_host_mask: "NOT (drop_bit 0 0xff) = (0 :: byte)"
  by (rule bit_word_eqI) (simp only: bit_host_mask [OF le0], simp)

lemma byte_mask_bits:
  assumes "k \<le> 8"
  shows "(a AND NOT (drop_bit k 0xff) = b AND NOT (drop_bit k 0xff))
    \<longleftrightarrow> drop_bit (8 - k) a = drop_bit (8 - k) (b :: byte)"
proof
  assume eq: "a AND NOT (drop_bit k 0xff) = b AND NOT (drop_bit k 0xff)"
  have "bit a i \<longleftrightarrow> bit b i" if "8 - k \<le> i" "i < 8" for i
    using arg_cong [OF eq, of "\<lambda>w. bit w i"] that assms
    by (simp only: bit_and_iff bit_host_mask) simp
  then have "bit a (8 - k + i) \<longleftrightarrow> bit b (8 - k + i)" for i
    by (cases "8 - k + i < 8") (auto dest: bit_imp_le_length)
  then show "drop_bit (8 - k) a = drop_bit (8 - k) b"
    by (intro bit_word_eqI) (simp add: bit_drop_bit_eq)
next
  assume eq: "drop_bit (8 - k) a = drop_bit (8 - k) b"
  have "bit a i \<longleftrightarrow> bit b i" if "8 - k \<le> i" for i
    using arg_cong [OF eq, of "\<lambda>w. bit w (i - (8 - k))"] that
    by (simp add: bit_drop_bit_eq)
  then show "a AND NOT (drop_bit k 0xff) = b AND NOT (drop_bit k 0xff)"
    using assms by (intro bit_word_eqI) (auto simp: bit_and_iff bit_host_mask)
qed

lemma drop_bit_byte_iff:
  "drop_bit k a = drop_bit k (b :: byte) \<longleftrightarrow> unat a div 2 ^ k = unat b div 2 ^ k"
proof -
  have "unat (drop_bit k w) = unat w div 2 ^ k" for w :: byte
    by (subst unat_drop_bit_eq) (rule drop_bit_eq_div)
  then show ?thesis
    by (metis word_unat_eq_iff)
qed

lemma length_mask_bytes [simp]: "length (mask_bytes l n) = l"
  by (induction l arbitrary: n) auto

lemma div_lead:
  fixes u v l m :: nat
  assumes "v < 2 ^ l" "m \<le> l"
  shows "(u * 2 ^ l + v) div 2 ^ m = u * 2 ^ (l - m) + v div 2 ^ m"
proof -
  have exp: "(2::nat) ^ l = 2 ^ m * 2 ^ (l - m)"
    using assms(2) by (simp only: power_add [symmetric] le_add_diff_inverse)
  have "u * 2 ^ l + v = v + 2 ^ m * (u * 2 ^ (l - m))"
    by (simp only: exp ac_simps)
  also have "\<dots> div 2 ^ m = u * 2 ^ (l - m) + v div 2 ^ m"
    by (rule div_mult_self2) simp
  finally show ?thesis .
qed

lemma lead_eq_iff:
  fixes u u' v v' l m :: nat
  assumes "v < 2 ^ l" "v' < 2 ^ l" "m \<le> l"
  shows "(u * 2 ^ l + v) div 2 ^ m = (u' * 2 ^ l + v') div 2 ^ m
    \<longleftrightarrow> u = u' \<and> v div 2 ^ m = v' div 2 ^ m"
proof -
  have "w div 2 ^ m < 2 ^ (l - m)" if "w < 2 ^ l" for w :: nat
    using that assms(3) by (simp add: less_mult_imp_div_less power_add [symmetric])
  then have "(u0 * 2 ^ (l - m) + w div 2 ^ m) div 2 ^ (l - m) = u0"
    "(u0 * 2 ^ (l - m) + w div 2 ^ m) mod 2 ^ (l - m) = w div 2 ^ m" if "w < 2 ^ l" for u0 w :: nat
    using that by simp_all
  then show ?thesis
    unfolding div_lead [OF assms(1,3)] div_lead [OF assms(2,3)]
    using assms(1,2) by metis
qed

text \<open>Masked bytes agree exactly when the numbers agree on their leading \<open>n\<close> bits.\<close>

lemma mask_bytes_eq_iff:
  "length as = l \<Longrightarrow> length bs = l \<Longrightarrow> n \<le> 8 * l \<Longrightarrow>
    map2 (AND) as (mask_bytes l n) = map2 (AND) bs (mask_bytes l n)
    \<longleftrightarrow> addr_num as div 2 ^ (8 * l - n) = addr_num bs div 2 ^ (8 * l - n)"
proof (induction l arbitrary: as bs n)
  case 0
  then show ?case by simp
next
  case (Suc l)
  from Suc.prems obtain a as' b bs' where cons: "as = a # as'" "bs = b # bs'"
      and len: "length as' = l" "length bs' = l"
    by (metis length_Suc_conv)
  have bound: "addr_num as' < 2 ^ (8 * l)" "addr_num bs' < 2 ^ (8 * l)"
    using addr_num_less len by metis+
  show ?case
  proof (cases "8 \<le> n")
    case True
    with Suc.prems have m: "8 * l - (n - 8) = 8 * Suc l - n" "8 * Suc l - n \<le> 8 * l"
      "n - 8 \<le> 8 * l" by auto
    show ?thesis
      using True Suc.IH [OF len m(3)] lead_eq_iff [OF bound m(2), of "unat a" "unat b"]
      by (simp add: cons len m(1) and_ff word_unat_eq_iff)
  next
    case False
    have zero: "map2 (AND) cs (mask_bytes l 0) = replicate l 0" if "length cs = l" for cs :: "byte list"
      using that
      by (induction l arbitrary: cs) (auto simp: length_Suc_conv empty_host_mask simp del: drop_bit_0)
    have exp: "8 * Suc l - n = 8 * l + (8 - n)"
      using False by simp
    have "(u * 2 ^ (8 * l) + v) div 2 ^ (8 * Suc l - n) = u div 2 ^ (8 - n)"
      if "v < 2 ^ (8 * l)" for u v :: nat
      using that by (simp only: exp power_add div_mult2_eq) simp
    with bound False show ?thesis
      by (simp add: cons len zero byte_mask_bits drop_bit_byte_iff)
  qed
qed

lemma mask_bytes_numeral [simp]:
  "mask_bytes (numeral l) n =
     (if n \<ge> 8 then 0xff # mask_bytes (pred_numeral l) (n - 8)
      else NOT (drop_bit n 0xff) # mask_bytes (pred_numeral l) 0)"
  by (simp add: numeral_eq_Suc)

section \<open>Membership in an IPv4 network\<close>

lemma length_v4InV6Prefix [simp]: "length v4InV6Prefix = 12"
  by (simp add: v4InV6Prefix_def)

lemma To4_short [simp]: "length b = 4 \<Longrightarrow> To4 b = Some b"
  by (simp add: To4_def)

lemma To4_mapped [simp]: "length b = 4 \<Longrightarrow> To4 (v4InV6Prefix @ b) = Some b"
  by (simp add: To4_def)

lemma To4_length: "To4 x = Some y \<Longrightarrow> length y = 4"
  by (auto simp: To4_def split: if_splits)

lemma To4_None_length: "To4 x = None \<Longrightarrow> length x \<noteq> 4"
  by (auto simp: To4_def split: if_splits)

lemma length_CIDRMask4 [simp]: "length (CIDRMask n 32) = 4"
  by (simp add: CIDRMask_def)

lemma map2_and_idem: "map2 (AND) (map2 (AND) b m) m = map2 (AND) b (m :: byte list)"
proof (induction b arbitrary: m)
  case Nil
  then show ?case by simp
next
  case (Cons x b)
  then show ?case by (cases m) (simp_all add: and.assoc)
qed

lemma IP_Mask_mapped [simp]:
  "length b = 4 \<Longrightarrow> length m = 4 \<Longrightarrow> IP_Mask (v4InV6Prefix @ b) m = map2 (AND) b m"
  by (simp add: IP_Mask_def)

lemma contains_masked4:
  assumes "length b = 4" "length m = 4"
  shows "IPNet_Contains \<lparr>net_IP = map2 (AND) b m, net_Mask = m\<rparr> x
    \<longleftrightarrow> (\<exists>y. To4 x = Some y \<and> map2 (AND) y m = map2 (AND) b m)"
proof -
  have "networkNumberAndMask \<lparr>net_IP = map2 (AND) b m, net_Mask = m\<rparr> = Some (map2 (AND) b m, m)"
    using assms by (simp add: networkNumberAndMask_def)
  then show ?thesis
    using assms To4_length [of x] To4_None_length [of x]
    by (cases "To4 x") (auto simp: IPNet_Contains_def map2_and_idem)
qed

lemma parseIPv4Fields_length:
  "parseIPv4Fields prev s v d fs = Some r \<Longrightarrow> length fs \<le> 3 \<Longrightarrow> length r = 4"
proof (induction prev s v d fs rule: parseIPv4Fields.induct)
  case (1 prev v d fs)
  then show ?case by (auto split: if_splits)
next
  case (2 prev c cs v d fs)
  show ?case
  proof (cases "digit_val c")
    case None
    with "2.prems" have "parseIPv4Fields (Some c) cs 0 0 (fs @ [of_nat v]) = Some r"
      "length fs < 3" "c = CHR ''.''" "\<not> (prev = None \<or> cs = [] \<or> prev = Some CHR ''.'')"
      by (auto split: if_splits)
    then show ?thesis
      by (intro "2.IH"(1) [OF None]) auto
  next
    case (Some k)
    with "2.prems" have "\<not> (d = 1 \<and> v = 0)" "\<not> v * 10 + k > 255"
      "parseIPv4Fields (Some c) cs (v * 10 + k) (d + 1) fs = Some r"
      by (auto simp: Let_def split: if_splits)
    with "2.IH"(2) [OF Some] "2.prems"(2) show ?thesis by simp
  qed
qed

lemma parseIPv4_length: "parseIPv4 s = Some b \<Longrightarrow> length b = 4"
  unfolding parseIPv4_def by (erule parseIPv4Fields_length) simp

text \<open>
  A network text with an IPv4 address and a prefix length \<open>n\<close> contains exactly the IPv4 (or
  IPv4-mapped) addresses that agree with it on the leading \<open>n\<close> bits.
\<close>

lemma contains_iff_leading_bits:
  assumes "length b = 4" "n \<le> 32"
  shows "IPNet_Contains \<lparr>net_IP = IP_Mask (v4InV6Prefix @ b) (CIDRMask n 32), net_Mask = CIDRMask n 32\<rparr> x
    \<longleftrightarrow> (\<exists>y. To4 x = Some y \<and> addr_num y div 2 ^ (32 - n) = addr_num b div 2 ^ (32 - n))"
proof -
  have "map2 (AND) y (CIDRMask n 32) = map2 (AND) b (CIDRMask n 32)
      \<longleftrightarrow> addr_num y div 2 ^ (32 - n) = addr_num b div 2 ^ (32 - n)" if "To4 x = Some y" for y
    using mask_bytes_eq_iff [of y 4 b n] assms To4_length [OF that] by (simp add: CIDRMask_def)
  then show ?thesis
    using assms contains_masked4 [of b "CIDRMask n 32" x] by auto
qed

section \<open>IPv4 texts round trip\<close>

lemma digit_val_digit_char [simp]: "d < 10 \<Longrightarrow> digit_val (digit_char d) = Some d"
  by (simp add: digit_val_def digit_char_def)

lemma digit_val_dot [simp]: "digit_val (CHR ''.'') = None"
  by (simp add: digit_val_def)

lemma digit_char_neq:
  assumes "d < 10" "digit_val c = None"
  shows "digit_char d \<noteq> c"
  using assms by auto

lemma digit_val_separators [simp]:
  "digit_val (CHR '':'') = None" "digit_val (CHR ''%'') = None" "digit_val (CHR ''/'') = None"
  by (simp_all add: digit_val_def)

lemma parse_appendDecimal:
  "\<exists>l. l < 10 \<and> parseIPv4Fields prev (appendDecimal b @ rest) 0 0 fs =
    parseIPv4Fields (Some (digit_char l)) rest (unat b) (length (appendDecimal b)) fs"
proof -
  let ?x = "unat b"
  have lt: "?x < 256" by (rule unat_byte_less)
  have "?x div 100 = ?x div 10 div 10"
    by (simp add: div_mult2_eq [symmetric])
  then have join: "10 * (?x div 10) + ?x mod 10 = ?x" "10 * (?x div 100) + ?x div 10 mod 10 = ?x div 10"
    by (simp_all only: mult_div_mod_eq)
  consider "?x < 10" | "10 \<le> ?x" "?x < 100" | "100 \<le> ?x" by linarith
  then have "parseIPv4Fields prev (appendDecimal b @ rest) 0 0 fs =
    parseIPv4Fields (Some (digit_char (?x mod 10))) rest ?x (length (appendDecimal b)) fs"
  proof cases
    case 1
    then show ?thesis by (simp add: appendDecimal_def Let_def)
  next
    case 2
    then have "?x div 10 < 10" "0 < ?x div 10" "?x div 10 mod 10 = ?x div 10" by auto
    with 2 join show ?thesis by (auto simp: appendDecimal_def Let_def algebra_simps)
  next
    case 3
    with lt have "?x div 100 < 10" "0 < ?x div 100" "?x div 10 < 256" by auto
    with 3 join lt show ?thesis by (auto simp: appendDecimal_def Let_def algebra_simps)
  qed
  then show ?thesis
    by (intro exI [of _ "?x mod 10"]) simp
qed

lemma digits_appendDecimal: "c \<in> set (appendDecimal b) \<Longrightarrow> digit_val c \<noteq> None"
proof -
  assume "c \<in> set (appendDecimal b)"
  then obtain d where "c = digit_char d" "d < 10"
    using unat_byte_less [of b] by (auto simp: appendDecimal_def Let_def split: if_splits)
  then show ?thesis by simp
qed

lemma appendDecimal_nonempty [simp]: "appendDecimal b \<noteq> []"
  by (simp add: appendDecimal_def Let_def)

lemma string4_expand:
  "string4 [a, b, c, d] =
    appendDecimal a @ CHR ''.'' # appendDecimal b @ CHR ''.'' # appendDecimal c @ CHR ''.'' # appendDecimal d"
  by simp

lemma parse_octet_dot:
  assumes "length fs < 3" "rest \<noteq> []"
  shows "parseIPv4Fields prev (appendDecimal b @ CHR ''.'' # rest) 0 0 fs =
    parseIPv4Fields (Some (CHR ''.'')) rest 0 0 (fs @ [b])"
proof -
  obtain l where l: "l < 10" "parseIPv4Fields prev (appendDecimal b @ CHR ''.'' # rest) 0 0 fs =
    parseIPv4Fields (Some (digit_char l)) (CHR ''.'' # rest) (unat b) (length (appendDecimal b)) fs"
    using parse_appendDecimal [of prev b "CHR ''.'' # rest" fs] by blast
  then show ?thesis
    using assms digit_char_neq [OF l(1) digit_val_dot] by simp
qed

lemma parse_octet_end:
  assumes "length fs = 3"
  shows "parseIPv4Fields prev (appendDecimal b) 0 0 fs = Some (fs @ [b])"
proof -
  obtain l where "parseIPv4Fields prev (appendDecimal b @ []) 0 0 fs =
    parseIPv4Fields (Some (digit_char l)) [] (unat b) (length (appendDecimal b)) fs"
    using parse_appendDecimal [of prev b "[]" fs] by blast
  then show ?thesis
    using assms by simp
qed

lemma length4_cases: "length b = 4 \<Longrightarrow> \<exists>p q r s. b = [p, q, r, s]"
  by (auto simp: numeral_eq_Suc length_Suc_conv)

lemma parseIPv4_string4: "length b = 4 \<Longrightarrow> parseIPv4 (string4 b) = Some b"
  using length4_cases [of b]
  by (auto simp: parseIPv4_def string4_expand parse_octet_dot parse_octet_end)

lemma separator_free_digits:
  "\<forall>c \<in> set ds. digit_val c \<noteq> None \<Longrightarrow> first_separator (ds @ rest) = first_separator rest"
  by (induction ds) auto

lemma digit_val_not: "digit_val c = None \<Longrightarrow> c \<notin> set (appendDecimal b)"
  using digits_appendDecimal by blast

lemma ParseAddr_string4:
  assumes "length b = 4"
  shows "ParseAddr (string4 b) = Some (Addr4 b)"
proof -
  obtain p q r s where b: "b = [p, q, r, s]"
    using length4_cases [OF assms] by blast
  have "first_separator (string4 b) = Some (CHR ''.'')"
    unfolding b string4_expand
    using digits_appendDecimal by (subst separator_free_digits) auto
  moreover have "CHR ''%'' \<notin> set (string4 b)"
    by (simp add: b digit_val_not)
  ultimately show ?thesis
    by (simp add: ParseAddr_def parseIPv4_string4 [OF assms])
qed

lemma slash_notin_string4: "length b = 4 \<Longrightarrow> CHR ''/'' \<notin> set (string4 b)"
  using length4_cases [of b] by (auto simp: digit_val_not)

lemma IP_String_v4: "To4 ip = Some b \<Longrightarrow> IP_String ip = string4 b"
  by (simp add: IP_String_def)

lemma ParseIP_IP_String:
  assumes "To4 ip = Some b"
  shows "ParseIP (IP_String ip) = Some (v4InV6Prefix @ b)"
  using ParseAddr_string4 [OF To4_length [OF assms]]
  by (simp add: ParseIP_def IP_String_v4 [OF assms])

lemma string4_inject: "length b = 4 \<Longrightarrow> length c = 4 \<Longrightarrow> string4 b = string4 c \<longleftrightarrow> b = c"
  using parseIPv4_string4 by (metis option.inject)

text \<open>What \<open>ParseIP\<close> accepts: IPv4 texts become mapped 16-byte addresses.\<close>

lemma ParseIP_v4_mapped: "ParseAddr s = Some (Addr4 b) \<Longrightarrow> To4 (As16 (Addr4 b)) = Some b"
  by (auto simp: ParseAddr_def dest: parseIPv4_length split: if_splits)

section \<open>IPv4 networks\<close>

lemma mask_bytes_zero:
  "map2 (AND) cs (mask_bytes l 0) = replicate l 0" if "length cs = l" for cs :: "byte list"
  using that
  by (induction l arbitrary: cs) (auto simp: length_Suc_conv empty_host_mask simp del: drop_bit_0)

lemma addr_num_zero: "addr_num (replicate l 0) = 0"
  by (induction l) auto

lemma byte_host_dvd:
  assumes "k \<le> 8"
  shows "2 ^ (8 - k) dvd unat (a AND NOT (drop_bit k 0xff) :: byte)"
proof -
  have "take_bit (8 - k) (a AND NOT (drop_bit k 0xff) :: byte) = 0"
    using assms by (intro bit_word_eqI) (auto simp: bit_take_bit_iff bit_and_iff bit_host_mask)
  then have "take_bit (8 - k) (unat (a AND NOT (drop_bit k 0xff) :: byte)) = 0"
    by (metis unsigned_take_bit_eq unsigned_0)
  then show ?thesis
    by (simp add: take_bit_eq_mod mod_0_imp_dvd)
qed

text \<open>Masking clears the host bits.\<close>

lemma masked_low_bits:
  "length as = l \<Longrightarrow> n \<le> 8 * l \<Longrightarrow> 2 ^ (8 * l - n) dvd addr_num (map2 (AND) as (mask_bytes l n))"
proof (induction l arbitrary: as n)
  case 0
  then show ?case by simp
next
  case (Suc l)
  from Suc.prems obtain a as' where as: "as = a # as'" and len: "length as' = l"
    by (metis length_Suc_conv)
  show ?case
  proof (cases "8 \<le> n")
    case True
    with Suc.prems have m: "8 * l - (n - 8) = 8 * Suc l - n" "n - 8 \<le> 8 * l" "8 * Suc l - n \<le> 8 * l"
      by auto
    have "(2::nat) ^ (8 * Suc l - n) dvd 2 ^ (8 * l)"
      using m(3) by (rule le_imp_power_dvd)
    with True Suc.IH [OF len m(2)] show ?thesis
      by (simp add: as len m(1) and_ff dvd_add)
  next
    case False
    then have "8 * Suc l - n = (8 - n) + 8 * l" by simp
    then have exp: "(2::nat) ^ (8 * Suc l - n) = 2 ^ (8 - n) * 2 ^ (8 * l)"
      by (simp only: power_add)
    from False have "n \<le> 8" by simp
    from byte_host_dvd [OF this, of a] have
      "2 ^ (8 - n) * 2 ^ (8 * l) dvd unat (a AND NOT (drop_bit n 0xff)) * 2 ^ (8 * l)"
      by (rule mult_dvd_mono) simp
    moreover have "addr_num (map2 (AND) as (mask_bytes (Suc l) n)) =
        unat (a AND NOT (drop_bit n 0xff)) * 2 ^ (8 * l)"
      using False len by (simp add: as mask_bytes_zero addr_num_zero)
    ultimately show ?thesis
      unfolding exp by simp
  qed
qed

lemma addr_num_inject: "length as = length bs \<Longrightarrow> addr_num as = addr_num bs \<longleftrightarrow> as = bs"
proof (induction as bs rule: list_induct2)
  case (Cons a as b bs)
  have "addr_num as < 2 ^ (8 * length bs)" "addr_num bs < 2 ^ (8 * length bs)"
    using addr_num_less [of as] addr_num_less [of bs] Cons.hyps by simp_all
  from lead_eq_iff [OF this, of 0 "unat a" "unat b"] Cons show ?case
    by (simp add: word_unat_eq_iff)
qed simp

text \<open>An address is its own network address exactly when its host bits are zero.\<close>

lemma masked_self_iff:
  assumes "length b = l" "n \<le> 8 * l"
  shows "map2 (AND) b (mask_bytes l n) = b \<longleftrightarrow> addr_num b mod 2 ^ (8 * l - n) = 0"
proof -
  let ?z = "map2 (AND) b (mask_bytes l n)" and ?h = "2 ^ (8 * l - n) :: nat"
  have len: "length ?z = l" using assms by simp
  have "addr_num ?z div ?h = addr_num b div ?h"
    using mask_bytes_eq_iff [OF len assms(1,2)] map2_and_idem [of b "mask_bytes l n"] by simp
  moreover have "addr_num ?z mod ?h = 0"
    using masked_low_bits [OF assms] by (simp add: dvd_imp_mod_0)
  ultimately have "addr_num ?z = addr_num b \<longleftrightarrow> addr_num b mod ?h = 0"
    by (metis div_mult_mod_eq)
  then show ?thesis
    using addr_num_inject [of ?z b] assms len by simp
qed

lemma dtoi_appendDecimal: "dtoi (appendDecimal k) 0 = Some (unat k)"
proof -
  let ?x = "unat k"
  have lt: "?x < 256" by (rule unat_byte_less)
  have "?x div 100 = ?x div 10 div 10"
    by (simp add: div_mult2_eq [symmetric])
  then have join: "10 * (?x div 10) + ?x mod 10 = ?x" "10 * (?x div 100) + ?x div 10 mod 10 = ?x div 10"
    by (simp_all only: mult_div_mod_eq)
  consider "?x < 10" | "10 \<le> ?x" "?x < 100" | "100 \<le> ?x" by linarith
  then show ?thesis
  proof cases
    case 1
    then show ?thesis by (simp add: appendDecimal_def Let_def)
  next
    case 2
    then have "?x div 10 < 10" "?x div 10 mod 10 = ?x div 10" by auto
    with 2 join show ?thesis by (auto simp: appendDecimal_def Let_def algebra_simps)
  next
    case 3
    with lt have "?x div 100 < 10" "?x div 10 < 256" by auto
    with 3 join lt show ?thesis by (auto simp: appendDecimal_def Let_def algebra_simps)
  qed
qed

lemma ParseCIDR_v4:
  assumes "length b = 4" "unat k \<le> 32"
  shows "ParseCIDR (string4 b @ CHR ''/'' # appendDecimal k) =
    Inr (v4InV6Prefix @ b,
      \<lparr>net_IP = IP_Mask (v4InV6Prefix @ b) (CIDRMask (unat k) 32), net_Mask = CIDRMask (unat k) 32\<rparr>)"
proof -
  have "takeWhile (\<lambda>c. c \<noteq> CHR ''/'') (string4 b @ CHR ''/'' # appendDecimal k) = string4 b"
    "dropWhile (\<lambda>c. c \<noteq> CHR ''/'') (string4 b @ CHR ''/'' # appendDecimal k) = CHR ''/'' # appendDecimal k"
    using slash_notin_string4 [OF assms(1)] by (auto simp: takeWhile_tail dropWhile_append3)
  then show ?thesis
    using assms by (simp add: ParseCIDR_def ParseAddr_string4 dtoi_appendDecimal Let_def)
qed

end
