(* ===== verification/Abf_Domain.thy ===== *)
theory Abf_Domain
  imports Go_Net_Facts
begin

text \<open>
  The domain types (\<open>internal/domain/types.go\<close>) and the port interfaces (\<open>internal/ports\<close>). A port
  is a record of functions over a world \<open>'w\<close> that holds every store the program can reach; a
  component that implements a port supplies the record. \<open>context.Context\<close> arguments only travel
  to third-party calls and are left out.

  What the host contributes to a call is explicit: a \<open>moment\<close> carries the answers of
  \<open>time.Now\<close> (nanoseconds since the epoch) and \<open>crypto/rand.Int\<close>, a \<open>range_order\<close> the order in which
  a \<open>range\<close> loop visits the keys of a map, which Go leaves unspecified.
\<close>

section \<open>Domain types\<close>

type_synonym ListType = string

definition Whitelist :: ListType where "Whitelist = ''whitelist''"
definition Blacklist :: ListType where "Blacklist = ''blacklist''"

type_synonym LimitType = string

definition LoginLimit :: LimitType where "LoginLimit = ''login''"
definition PasswordLimit :: LimitType where "PasswordLimit = ''password''"
definition IPLimit :: LimitType where "IPLimit = ''ip''"

datatype PolicyDecision = DecisionContinue | DecisionDeny | DecisionAllow

lemma list_types_distinct [simp]: "Whitelist \<noteq> Blacklist" "Blacklist \<noteq> Whitelist"
  by (simp_all add: Whitelist_def Blacklist_def)

lemma limit_types_distinct [simp]:
  "LoginLimit \<noteq> PasswordLimit" "PasswordLimit \<noteq> LoginLimit" "LoginLimit \<noteq> IPLimit"
  "IPLimit \<noteq> LoginLimit" "PasswordLimit \<noteq> IPLimit" "IPLimit \<noteq> PasswordLimit"
  by (simp_all add: LoginLimit_def PasswordLimit_def IPLimit_def)

section \<open>What the host answers\<close>

record moment =
  now :: int
  rnd :: "int result"

type_synonym range_order = "string list \<Rightarrow> string list"

text \<open>Each key once, in some order.\<close>

definition fair_order :: "range_order \<Rightarrow> bool" where
  "fair_order r \<longleftrightarrow> (\<forall>ks. mset (r ks) = mset ks)"

lemma fair_order_set: "fair_order r \<Longrightarrow> set (r ks) = set ks"
  unfolding fair_order_def by (metis set_mset_mset)

lemma fair_order_id [simp]: "fair_order (\<lambda>ks. ks)" "fair_order rev"
  by (simp_all add: fair_order_def)

text \<open>\<open>t.UnixMilli()\<close> for a time given in nanoseconds since the epoch: the floor.\<close>

definition UnixMilli :: "int \<Rightarrow> int" where
  "UnixMilli t = t div 1000000"

lemma UnixMilli_mono: "s \<le> t \<Longrightarrow> UnixMilli s \<le> UnixMilli t"
  by (simp add: UnixMilli_def zdiv_mono1)

section \<open>Ports\<close>

record 'w LimiterRepo_port =
  limiter_Allow :: "moment \<Rightarrow> string \<Rightarrow> int \<Rightarrow> int \<Rightarrow> 'w \<Rightarrow> bool result \<times> 'w"
  limiter_Reset :: "string \<Rightarrow> 'w \<Rightarrow> go_error option \<times> 'w"

record 'w LimitChecker_port =
  checker_Allow :: "moment \<Rightarrow> LimitType \<Rightarrow> string \<Rightarrow> 'w \<Rightarrow> bool result \<times> 'w"
  checker_Reset :: "LimitType \<Rightarrow> string \<Rightarrow> 'w \<Rightarrow> go_error option \<times> 'w"

record 'w SubnetHolder_port =
  holder_ReloadSubnets :: "range_order \<Rightarrow> range_order \<Rightarrow> 'w \<Rightarrow> go_error option \<times> 'w"

record 'w SubnetPolicer_port = "'w SubnetHolder_port" +
  policer_Check :: "IP \<Rightarrow> 'w \<Rightarrow> PolicyDecision"

record 'w SubnetRepo_port =
  repo_GetSubnetLists :: "range_order \<Rightarrow> ListType \<Rightarrow> 'w \<Rightarrow> string list result \<times> 'w"
  repo_SaveSubnetList :: "ListType \<Rightarrow> string list \<Rightarrow> 'w \<Rightarrow> go_error option \<times> 'w"
  repo_ClearSubnetList :: "ListType \<Rightarrow> 'w \<Rightarrow> go_error option \<times> 'w"
  repo_AddCIDR :: "ListType \<Rightarrow> string \<Rightarrow> 'w \<Rightarrow> go_error option \<times> 'w"
  repo_RemoveCIDR :: "ListType \<Rightarrow> string \<Rightarrow> 'w \<Rightarrow> go_error option \<times> 'w"

record 'w SubnetUpdatesPublisher_port =
  PublishSubnetUpdated :: "range_order \<Rightarrow> range_order \<Rightarrow> 'w \<Rightarrow> go_error option \<times> 'w"

text \<open>
  A component that owns one part of the world is lifted to the whole of it along a getter and a
  setter, as a pointer to the component is shared by its users in the code.
\<close>

definition on_part :: "('w \<Rightarrow> 's) \<Rightarrow> ('s \<Rightarrow> 'w \<Rightarrow> 'w) \<Rightarrow> ('s \<Rightarrow> 'r \<times> 's) \<Rightarrow> 'w \<Rightarrow> 'r \<times> 'w" where
  "on_part get put f w = (case f (get w) of (r, s) \<Rightarrow> (r, put s w))"

lemma fst_on_part [simp]: "fst (on_part get put f w) = fst (f (get w))"
  by (simp add: on_part_def split: prod.split)

lemma snd_on_part [simp]: "snd (on_part get put f w) = put (snd (f (get w))) w"
  by (simp add: on_part_def split: prod.split)

end
