(* ===== verification/Abf_Contracts.thy ===== *)
theory Abf_Contracts
  imports Abf_Domain
begin

text \<open>
  What the users of the storage ports rely on, as locales. Each is interpreted on the stores that
  provide it (in the theory of the store), and the lemmas of the users (limiters, lists, services)
  are proved once, inside the locale, for every store.
\<close>

section \<open>The store of attempts\<close>

text \<open>
  \<open>used w k c\<close> is how many attempts of key \<open>k\<close> the store counts when stamps up to \<open>c\<close> have
  expired, \<open>horizon m win\<close> the stamp up to which a call at \<open>m\<close> lets attempts expire, and \<open>ok m win\<close>
  holds of the moments and windows the store's arithmetic is made for.
\<close>

locale limiter_repo =
  fixes repo :: "'w LimiterRepo_port"
    and ok :: "moment \<Rightarrow> int \<Rightarrow> bool"
    and inv :: "'w \<Rightarrow> bool"
    and used :: "'w \<Rightarrow> string \<Rightarrow> int \<Rightarrow> nat"
    and horizon :: "moment \<Rightarrow> int \<Rightarrow> int"
  assumes allow_inv: "inv w \<Longrightarrow> ok m win \<Longrightarrow> inv (snd (limiter_Allow repo m k l win w))"
    and reset_inv: "inv w \<Longrightarrow> inv (snd (limiter_Reset repo k w))"
    and allow_bound: "inv w \<Longrightarrow> ok m win \<Longrightarrow> limiter_Allow repo m k l win w = (Inr True, w') \<Longrightarrow>
      int (used w' k (horizon m win)) \<le> l"
    and allow_refused: "inv w \<Longrightarrow> ok m win \<Longrightarrow> fst (limiter_Allow repo m k l win w) = Inr False \<Longrightarrow>
      0 < l \<Longrightarrow> l \<le> int (used w k (horizon m win))"
    and allow_frame: "inv w \<Longrightarrow> ok m win \<Longrightarrow> k' \<noteq> k \<Longrightarrow>
      used (snd (limiter_Allow repo m k l win w)) k' = used w k'"
    and reset_clears: "inv w \<Longrightarrow> limiter_Reset repo k w = (None, w') \<Longrightarrow> used w' k c = 0"
    and reset_frame: "inv w \<Longrightarrow> k' \<noteq> k \<Longrightarrow> used (snd (limiter_Reset repo k w)) k' = used w k'"
begin

lemma allow_fresh:
  assumes "inv w" "ok m win" "used w k (horizon m win) = 0" "0 < l"
  shows "fst (limiter_Allow repo m k l win w) \<noteq> Inr False"
  using allow_refused [OF assms(1,2) _ assms(4)] assms(3,4) by fastforce

lemma allow_after_reset:
  assumes "inv w" "limiter_Reset repo k w = (None, w')" "0 < l" "ok m win"
  shows "fst (limiter_Allow repo m k l win w') \<noteq> Inr False"
proof (rule allow_fresh)
  show "inv w'"
    using reset_inv [OF assms(1), of k] assms(2) by simp
qed (use assms reset_clears in auto)

end

section \<open>The store of subnet lists\<close>

text \<open>
  \<open>cidrs w lt\<close> is the set of texts stored for list \<open>lt\<close>. The contract is what the services use:
  reading, adding and removing; a failed call may leave the store as it was or not.
\<close>

locale subnet_repo =
  fixes repo :: "'w SubnetRepo_port"
    and inv :: "'w \<Rightarrow> bool"
    and cidrs :: "'w \<Rightarrow> ListType \<Rightarrow> string set"
  assumes get_inv: "inv w \<Longrightarrow> inv (snd (repo_GetSubnetLists repo r lt w))"
    and add_inv: "inv w \<Longrightarrow> inv (snd (repo_AddCIDR repo lt c w))"
    and remove_inv: "inv w \<Longrightarrow> inv (snd (repo_RemoveCIDR repo lt c w))"
    and get_list: "inv w \<Longrightarrow> fair_order r \<Longrightarrow>
      repo_GetSubnetLists repo r lt w = (Inr cs, w') \<Longrightarrow> set cs = cidrs w lt"
    and get_pure: "inv w \<Longrightarrow> cidrs (snd (repo_GetSubnetLists repo r lt w)) = cidrs w"
    and add_stored: "inv w \<Longrightarrow> repo_AddCIDR repo lt c w = (None, w') \<Longrightarrow>
      cidrs w' = (cidrs w)(lt := insert c (cidrs w lt))"
    and remove_gone: "inv w \<Longrightarrow> repo_RemoveCIDR repo lt c w = (None, w') \<Longrightarrow>
      cidrs w' = (cidrs w)(lt := cidrs w lt - {c})"
begin

lemma add_then_remove:
  assumes "inv w" "repo_AddCIDR repo lt c w = (None, w1)" "repo_RemoveCIDR repo lt c w1 = (None, w2)"
    and "c \<notin> cidrs w lt"
  shows "cidrs w2 = cidrs w"
proof -
  have "inv w1"
    using add_inv [OF assms(1), of lt c] assms(2) by simp
  then show ?thesis
    using add_stored [OF assms(1,2)] remove_gone [OF _ assms(3)] assms(4) by auto
qed

end

end
