(* ===== verification/Memory_Buckets.thy ===== *)
theory Memory_Buckets
  imports Abf_Contracts
begin

text \<open>
  \<open>internal/storage/memory/bucketsdb.go\<close>: the in-memory store of attempts, a sliding window of
  millisecond stamps per key. Each method is modelled as the effect it has under its locks; the
  locking itself is the subject of \<open>Buckets_Concurrent\<close>. A timeline is never removed from the
  map, so the map of pointers is a map of timelines here.
\<close>

section \<open>The store and its operations\<close>

record timeline =
  times :: "int list"

record BucketsDB =
  buckets :: "string \<rightharpoonup> timeline"

definition NewBucketsDB :: BucketsDB where
  "NewBucketsDB = \<lparr>buckets = Map.empty\<rparr>"

definition getTimeline :: "string \<Rightarrow> BucketsDB \<Rightarrow> timeline \<times> BucketsDB" where
  "getTimeline key db =
     (case buckets db key of
        Some tline \<Rightarrow> (tline, db)
      | None \<Rightarrow>
          let tline = \<lparr>times = []\<rparr> in (tline, db\<lparr>buckets := (buckets db)(key \<mapsto> tline)\<rparr>))"

text \<open>The loop that counts the expired stamps at the front.\<close>

function expired :: "int \<Rightarrow> int list \<Rightarrow> nat \<Rightarrow> nat" where
  "expired cutoff ts i = (if i < length ts \<and> ts ! i \<le> cutoff then expired cutoff ts (i + 1) else i)"
  by pat_completeness auto
termination
  by (relation "measure (\<lambda>(cutoff, ts, i). length ts - i)") auto

declare expired.simps [simp del]

definition evict :: "int \<Rightarrow> int list \<Rightarrow> int list" where
  "evict cutoff ts = (let i = expired cutoff ts 0 in if i > 0 then drop i ts else ts)"

definition BucketsDB_Allow ::
  "moment \<Rightarrow> string \<Rightarrow> int \<Rightarrow> int \<Rightarrow> BucketsDB \<Rightarrow> bool result \<times> BucketsDB" where
  "BucketsDB_Allow m key limit window db =
     (if limit \<le> 0 then (Inr False, db)
      else if window \<le> 0 then (Inr True, db)
      else
        let (tline, db1) = getTimeline key db;
            cutoff = UnixMilli (now m - window);
            ts = evict cutoff (times tline)
        in if int (length ts) \<ge> limit
           then (Inr False, db1\<lparr>buckets := (buckets db1)(key \<mapsto> tline\<lparr>times := ts\<rparr>)\<rparr>)
           else (Inr True,
             db1\<lparr>buckets := (buckets db1)(key \<mapsto> tline\<lparr>times := ts @ [UnixMilli (now m)]\<rparr>)\<rparr>))"

definition BucketsDB_Reset :: "string \<Rightarrow> BucketsDB \<Rightarrow> go_error option \<times> BucketsDB" where
  "BucketsDB_Reset key db =
     (case buckets db key of
        None \<Rightarrow> (None, db)
      | Some tline \<Rightarrow> (None, db\<lparr>buckets := (buckets db)(key \<mapsto> tline\<lparr>times := []\<rparr>)\<rparr>))"

definition memory_LimiterRepo :: "BucketsDB LimiterRepo_port" where
  "memory_LimiterRepo =
     \<lparr>limiter_Allow = BucketsDB_Allow, limiter_Reset = BucketsDB_Reset\<rparr>"

lemma memory_LimiterRepo_simps [port_simps]:
  "limiter_Allow memory_LimiterRepo = BucketsDB_Allow"
  "limiter_Reset memory_LimiterRepo = BucketsDB_Reset"
  by (simp_all add: memory_LimiterRepo_def)

section \<open>The stamps of a key\<close>

definition stamps :: "BucketsDB \<Rightarrow> string \<Rightarrow> int list" where
  "stamps db key = (case buckets db key of None \<Rightarrow> [] | Some tline \<Rightarrow> times tline)"

lemma stamps_New [simp]: "stamps NewBucketsDB key = []"
  by (simp add: stamps_def NewBucketsDB_def)

lemma expired_dropWhile: "drop (expired cutoff ts i) ts = dropWhile (\<lambda>t. t \<le> cutoff) (drop i ts)"
proof (induction cutoff ts i rule: expired.induct)
  case (1 cutoff ts i)
  show ?case
  proof (cases "i < length ts \<and> ts ! i \<le> cutoff")
    case True
    then have "drop i ts = ts ! i # drop (i + 1) ts"
      by (simp add: Cons_nth_drop_Suc)
    with True "1.IH" show ?thesis
      by (simp add: expired.simps [of cutoff ts i])
  next
    case False
    then have "dropWhile (\<lambda>t. t \<le> cutoff) (drop i ts) = drop i ts"
      by (cases "i < length ts") (auto simp: Cons_nth_drop_Suc [symmetric])
    with False show ?thesis
      by (auto simp: expired.simps [of cutoff ts i])
  qed
qed

text \<open>The index loop and the reslicing are one \<open>dropWhile\<close>.\<close>

lemma evict_dropWhile: "evict cutoff ts = dropWhile (\<lambda>t. t \<le> cutoff) ts"
  using expired_dropWhile [of cutoff ts 0] by (auto simp: evict_def Let_def)

text \<open>Both methods on the stamps of a key: the one key they touch, and every other.\<close>

lemma Allow_decision:
  "fst (BucketsDB_Allow m key limit window db) =
    Inr (0 < limit \<and>
      (window \<le> 0 \<or> int (length (evict (UnixMilli (now m - window)) (stamps db key))) < limit))"
  by (auto simp: BucketsDB_Allow_def getTimeline_def stamps_def Let_def split: option.split)

lemma Allow_stamps:
  "0 < limit \<Longrightarrow> 0 < window \<Longrightarrow>
    stamps (snd (BucketsDB_Allow m key limit window db)) key =
      (let ts = evict (UnixMilli (now m - window)) (stamps db key)
       in if int (length ts) < limit then ts @ [UnixMilli (now m)] else ts)"
  by (auto simp: BucketsDB_Allow_def getTimeline_def stamps_def Let_def split: option.split)

lemma Allow_disabled:
  "limit \<le> 0 \<or> window \<le> 0 \<Longrightarrow> snd (BucketsDB_Allow m key limit window db) = db"
  by (auto simp: BucketsDB_Allow_def)

lemma Allow_other_key:
  "key' \<noteq> key \<Longrightarrow> stamps (snd (BucketsDB_Allow m key limit window db)) key' = stamps db key'"
  by (auto simp: BucketsDB_Allow_def getTimeline_def stamps_def Let_def split: option.split)

lemma Reset_result [simp]: "fst (BucketsDB_Reset key db) = None"
  by (simp add: BucketsDB_Reset_def split: option.split)

lemma Reset_stamps: "stamps (snd (BucketsDB_Reset key db)) key = []"
  by (simp add: BucketsDB_Reset_def stamps_def split: option.split)

lemma Reset_other_key: "key' \<noteq> key \<Longrightarrow> stamps (snd (BucketsDB_Reset key db)) key' = stamps db key'"
  by (simp add: BucketsDB_Reset_def stamps_def split: option.split)

lemmas bucket_frame = Allow_other_key Reset_other_key Reset_stamps

section \<open>Runs\<close>

text \<open>
  A history of calls on the store: attempts with the rule they are checked against and resets,
  for any mix of keys, in the order in which they take the locks.
\<close>

datatype bucket_event = AllowAt moment string int int | ResetKey string

fun bucket_step :: "bucket_event \<Rightarrow> BucketsDB \<Rightarrow> BucketsDB" where
  "bucket_step (AllowAt m k l w) db = snd (BucketsDB_Allow m k l w db)"
| "bucket_step (ResetKey k) db = snd (BucketsDB_Reset k db)"

fun bucket_run :: "bucket_event list \<Rightarrow> BucketsDB \<Rightarrow> BucketsDB" where
  "bucket_run [] db = db"
| "bucket_run (e # es) db = bucket_run es (bucket_step e db)"

text \<open>The times (in nanoseconds) of the attempts on a key that were allowed.\<close>

fun accepted :: "string \<Rightarrow> bucket_event list \<Rightarrow> BucketsDB \<Rightarrow> int list" where
  "accepted key [] db = []"
| "accepted key (e # es) db =
     (case e of
        AllowAt m k l w \<Rightarrow>
          (if k = key \<and> fst (BucketsDB_Allow m k l w db) = Inr True then [now m] else [])
      | ResetKey k \<Rightarrow> [])
     @ accepted key es (bucket_step e db)"

fun event_times :: "bucket_event list \<Rightarrow> int list" where
  "event_times [] = []"
| "event_times (AllowAt m _ _ _ # es) = now m # event_times es"
| "event_times (ResetKey _ # es) = event_times es"

lemma bucket_run_append: "bucket_run (es @ es') db = bucket_run es' (bucket_run es db)"
  by (induction es arbitrary: db) simp_all

lemma accepted_append: "accepted k (es @ es') db = accepted k es db @ accepted k es' (bucket_run es db)"
  by (induction es arbitrary: db) simp_all

fun event_key :: "bucket_event \<Rightarrow> string" where
  "event_key (AllowAt _ k _ _) = k"
| "event_key (ResetKey k) = k"

text \<open>The calls on a key, in order.\<close>

definition calls_on :: "string \<Rightarrow> bucket_event list \<Rightarrow> bucket_event list" where
  "calls_on key es = filter (\<lambda>e. event_key e = key) es"

text \<open>All attempts on \<open>key\<close> are checked against one rule and \<open>key\<close> is not reset.\<close>

fun ruled :: "string \<Rightarrow> int \<Rightarrow> int \<Rightarrow> bucket_event \<Rightarrow> bool" where
  "ruled key limit window (AllowAt m k l w) \<longleftrightarrow> k = key \<longrightarrow> l = limit \<and> w = window"
| "ruled key limit window (ResetKey k) \<longleftrightarrow> k \<noteq> key"

section \<open>The window invariant\<close>

text \<open>
  \<open>H\<close> is the history of allowed attempts (nanoseconds), \<open>ts\<close> the stamps the store still holds,
  \<open>c\<close> a time not before any of them. The store holds a suffix of the history, what it dropped has
  expired, and attempts \<open>limit\<close> places apart are a window apart.
\<close>

definition spaced :: "int \<Rightarrow> int \<Rightarrow> int list \<Rightarrow> bool" where
  "spaced limit window H \<longleftrightarrow>
     (\<forall>i. i + nat limit < length H \<longrightarrow>
        UnixMilli (H ! i) \<le> UnixMilli (H ! (i + nat limit) - window))"

definition window_inv :: "int \<Rightarrow> int \<Rightarrow> int \<Rightarrow> int list \<Rightarrow> int list \<Rightarrow> bool" where
  "window_inv limit window c H ts \<longleftrightarrow>
     sorted H \<and> (\<forall>h \<in> set H. h \<le> c) \<and> int (length ts) \<le> limit \<and>
     (\<exists>D. map UnixMilli H = D @ ts \<and> (\<forall>d \<in> set D. d \<le> UnixMilli (c - window))) \<and>
     spaced limit window H"

lemma window_inv_init: "0 \<le> limit \<Longrightarrow> window_inv limit window c [] []"
  by (simp add: window_inv_def spaced_def)

lemma window_inv_evict:
  assumes inv: "window_inv limit window c H ts" and "c \<le> n"
  shows "window_inv limit window n H (evict (UnixMilli (n - window)) ts)"
proof -
  let ?P = "\<lambda>t. t \<le> UnixMilli (n - window)"
  from inv obtain D where D: "map UnixMilli H = D @ ts" "\<forall>d \<in> set D. d \<le> UnixMilli (c - window)"
    unfolding window_inv_def by blast
  have "map UnixMilli H = (D @ takeWhile ?P ts) @ dropWhile ?P ts"
    by (simp add: D(1))
  moreover have "\<forall>d \<in> set (D @ takeWhile ?P ts). ?P d"
    using D(2) UnixMilli_mono [of "c - window" "n - window"] \<open>c \<le> n\<close>
    by (auto dest: set_takeWhileD)
  moreover have "int (length (dropWhile ?P ts)) \<le> limit"
    using inv length_dropWhile_le [of ?P ts] by (simp add: window_inv_def)
  ultimately show ?thesis
    using inv \<open>c \<le> n\<close> unfolding window_inv_def evict_dropWhile by fastforce
qed

lemma window_inv_accept:
  assumes inv: "window_inv limit window n H ts" and room: "int (length ts) < limit"
  shows "window_inv limit window n (H @ [n]) (ts @ [UnixMilli n])"
proof -
  from inv obtain D where D: "map UnixMilli H = D @ ts" "\<forall>d \<in> set D. d \<le> UnixMilli (n - window)"
    unfolding window_inv_def by blast
  have "spaced limit window (H @ [n])"
    unfolding spaced_def
  proof (intro allI impI)
    fix i
    assume i: "i + nat limit < length (H @ [n])"
    show "UnixMilli ((H @ [n]) ! i) \<le> UnixMilli ((H @ [n]) ! (i + nat limit) - window)"
    proof (cases "i + nat limit < length H")
      case True
      with inv show ?thesis by (simp add: window_inv_def spaced_def nth_append)
    next
      case False
      with i have last: "i + nat limit = length H" by simp
      with room arg_cong [OF D(1), of length] have "i < length D" by auto
      then have "UnixMilli (H ! i) \<in> set D"
        using arg_cong [OF D(1), of "\<lambda>xs. xs ! i"] last room
        by (auto simp: nth_append in_set_conv_nth)
      with D(2) last room show ?thesis by (auto simp: nth_append)
    qed
  qed
  moreover have "map UnixMilli (H @ [n]) = D @ ts @ [UnixMilli n]"
    by (simp add: D(1))
  ultimately show ?thesis
    using inv room D(2) by (auto simp: window_inv_def sorted_append)
qed

text \<open>One call on the key keeps the invariant, with the history extended when it is allowed.\<close>

lemma window_inv_Allow:
  assumes "window_inv limit window c H (stamps db key)" "c \<le> now m" "0 < limit" "0 < window"
  shows "window_inv limit window (now m)
    (H @ (if fst (BucketsDB_Allow m key limit window db) = Inr True then [now m] else []))
    (stamps (snd (BucketsDB_Allow m key limit window db)) key)"
  using window_inv_evict [OF assms(1,2)] assms(3,4) window_inv_accept
  by (auto simp: Allow_decision Allow_stamps Let_def)

lemma window_inv_later: "window_inv limit window c H ts \<Longrightarrow> c \<le> n \<Longrightarrow> window_inv limit window n H ts"
  unfolding window_inv_def using UnixMilli_mono [of "c - window" "n - window"] by fastforce

lemma window_inv_run:
  assumes "window_inv limit window c H (stamps db key)"
    and "sorted (event_times es)" "\<forall>t \<in> set (event_times es). c \<le> t"
    and "\<forall>e \<in> set es. ruled key limit window e" "0 < limit" "0 < window"
  shows "\<exists>c'. window_inv limit window c' (H @ accepted key es db) (stamps (bucket_run es db) key)"
  using assms
proof (induction es arbitrary: c H db)
  case Nil
  then show ?case by auto
next
  case (Cons e es)
  show ?case
  proof (cases e)
    case (AllowAt m k l w)
    show ?thesis
    proof (cases "k = key")
      case True
      with Cons.prems AllowAt have rule: "l = limit" "w = window" by auto
      have "window_inv limit window (now m)
        (H @ (if fst (BucketsDB_Allow m key limit window db) = Inr True then [now m] else []))
        (stamps (bucket_step e db) key)"
        using window_inv_Allow [of limit window c H db key m] Cons.prems AllowAt True rule by auto
      from Cons.IH [OF this] Cons.prems AllowAt show ?thesis
        by (simp add: True rule)
    next
      case False
      with Cons.prems AllowAt show ?thesis
        by (auto intro!: Cons.IH simp: bucket_frame window_inv_later)
    qed
  next
    case (ResetKey k)
    with Cons.prems show ?thesis
      by (auto intro!: Cons.IH simp: bucket_frame)
  qed
qed

section \<open>The store as a limiter repository\<close>

definition live :: "BucketsDB \<Rightarrow> string \<Rightarrow> int \<Rightarrow> nat" where
  "live db key cutoff = length (evict cutoff (stamps db key))"

definition memory_horizon :: "moment \<Rightarrow> int \<Rightarrow> int" where
  "memory_horizon m window = UnixMilli (now m - window)"

lemma length_dropWhile_snoc: "length (dropWhile P (xs @ [x])) \<le> Suc (length (dropWhile P xs))"
  by (induction xs) auto

lemma dropWhile_idem: "dropWhile P (dropWhile P xs) = dropWhile P xs"
  by (induction xs) auto

interpretation mem: limiter_repo memory_LimiterRepo "\<lambda>_ win. 0 < win" "\<lambda>_. True" live memory_horizon
proof unfold_locales
  fix db db' :: BucketsDB and m k l win
  assume win: "0 < win" and ok: "limiter_Allow memory_LimiterRepo m k l win db = (Inr True, db')"
  let ?c = "UnixMilli (now m - win)"
  from ok have eq: "BucketsDB_Allow m k l win db = (Inr True, db')"
    by (simp add: port_simps)
  with Allow_decision [of m k l win db] win
  have room: "0 < l" "int (length (evict ?c (stamps db k))) < l" by auto
  with Allow_stamps [of l win m k db] eq win
  have "stamps db' k = evict ?c (stamps db k) @ [UnixMilli (now m)]" by (simp add: Let_def)
  with room(2) length_dropWhile_snoc [of "\<lambda>t. t \<le> ?c" "evict ?c (stamps db k)" "UnixMilli (now m)"]
  show "int (live db' k (memory_horizon m win)) \<le> l"
    by (simp add: live_def memory_horizon_def evict_dropWhile dropWhile_idem)
next
  fix db :: BucketsDB and m k l win
  assume "0 < win" "fst (limiter_Allow memory_LimiterRepo m k l win db) = Inr False" "0 < l"
  then show "l \<le> int (live db k (memory_horizon m win))"
    by (simp add: port_simps Allow_decision live_def memory_horizon_def)
next
  fix db db' :: BucketsDB and k c
  assume "limiter_Reset memory_LimiterRepo k db = (None, db')"
  then have "stamps db' k = []"
    using Reset_stamps [of k db] by (simp add: port_simps)
  then show "live db' k c = 0"
    by (simp add: live_def evict_dropWhile)
qed (auto simp: port_simps live_def bucket_frame fun_eq_iff)

section \<open>Consequences for runs\<close>

lemma accepted_disabled:
  assumes "\<forall>e \<in> set es. ruled key limit window e" "limit \<le> 0"
  shows "accepted key es db = []"
  using assms
proof (induction es arbitrary: db)
  case Nil
  then show ?case by simp
next
  case (Cons e es)
  then show ?case by (cases e) (auto simp: Allow_decision)
qed

lemma accepted_sorted_spaced:
  assumes "sorted (event_times es)" "\<forall>e \<in> set es. ruled key limit window e" "0 < limit" "0 < window"
  shows "sorted (accepted key es NewBucketsDB) \<and> spaced limit window (accepted key es NewBucketsDB)"
proof -
  obtain c where c: "\<forall>t \<in> set (event_times es). c \<le> t"
    using assms(1) by (cases "event_times es") auto
  have "window_inv limit window c [] (stamps NewBucketsDB key)"
    using assms(3) by (simp add: window_inv_init)
  from window_inv_run [OF this assms(1) c assms(2-4)] show ?thesis
    by (auto simp: window_inv_def)
qed

lemma UnixMilli_step: "b - a \<le> window - 1000000 \<Longrightarrow> UnixMilli (b - window) < UnixMilli a"
proof -
  assume "b - a \<le> window - 1000000"
  then have "UnixMilli (b - window) \<le> UnixMilli (a - 1000000)"
    by (intro UnixMilli_mono) simp
  also have "\<dots> = UnixMilli a - 1"
    by (simp add: UnixMilli_def)
  finally show ?thesis by simp
qed

text \<open>Spaced attempts are rare: at most \<open>limit\<close> of them in an interval shorter than the window.\<close>

lemma spaced_window:
  assumes "sorted H" "spaced limit window H" "0 < limit" "b - a \<le> window - 1000000"
  shows "int (length (filter (\<lambda>t. a \<le> t \<and> t \<le> b) H)) \<le> limit"
proof -
  have "length (filter (\<lambda>t. a \<le> t \<and> t \<le> b) H) \<le> nat limit"
  proof (rule spaced_count_le [OF assms(1)])
    fix i
    assume i: "i + nat limit < length H" "a \<le> H ! i" "H ! (i + nat limit) \<le> b"
    have "UnixMilli (H ! i) \<le> UnixMilli (H ! (i + nat limit) - window)"
      using assms(2) i(1) by (simp add: spaced_def)
    also have "\<dots> \<le> UnixMilli (b - window)"
      using i(3) by (intro UnixMilli_mono) simp
    also have "\<dots> < UnixMilli a" by (rule UnixMilli_step [OF assms(4)])
    also have "\<dots> \<le> UnixMilli (H ! i)" using i(2) by (rule UnixMilli_mono)
    finally show False by simp
  qed
  with assms(3) show ?thesis by simp
qed

text \<open>Calls on other keys play no part, nor do their times.\<close>

lemma accepted_own:
  "stamps db key = stamps db' key \<Longrightarrow> accepted key es db = accepted key (calls_on key es) db'"
proof (induction es arbitrary: db db')
  case (Cons e es)
  show ?case
  proof (cases "event_key e = key")
    case True
    have same: "fst (BucketsDB_Allow m key l w db) = fst (BucketsDB_Allow m key l w db')" for m l w
      using Cons.prems by (simp add: Allow_decision)
    have "stamps (bucket_step e db) key = stamps (bucket_step e db') key"
    proof (cases e)
      case (AllowAt m k l w)
      show ?thesis
      proof (cases "0 < l \<and> 0 < w")
        case True
        with AllowAt \<open>event_key e = key\<close> Cons.prems show ?thesis by (simp add: Allow_stamps)
      next
        case False
        with AllowAt Cons.prems Allow_disabled [of l w] show ?thesis by (simp add: not_less)
      qed
    next
      case (ResetKey k)
      with True show ?thesis by (simp add: bucket_frame)
    qed
    from Cons.IH [OF this] True same show ?thesis
      by (cases e) (auto simp: calls_on_def)
  next
    case False
    then have "stamps (bucket_step e db) key = stamps db' key"
      using Cons.prems by (cases e) (auto simp: bucket_frame)
    from Cons.IH [OF this] False show ?thesis
      by (cases e) (auto simp: calls_on_def)
  qed
qed (simp add: calls_on_def)

lemma sorted_calls_on: "sorted (event_times es) \<Longrightarrow> sorted (event_times (calls_on key es))"
proof -
  have sub: "set (event_times (calls_on key es)) \<subseteq> set (event_times es)" for es
    by (induction es rule: event_times.induct) (auto simp: calls_on_def)
  show "sorted (event_times es) \<Longrightarrow> sorted (event_times (calls_on key es))"
    by (induction es rule: event_times.induct) (use sub in \<open>auto simp: calls_on_def\<close>)
qed

lemma accepted_window:
  assumes "sorted (event_times (calls_on key es))" "\<forall>e \<in> set es. ruled key limit window e" "b - a \<le> window - 1000000"
  shows "int (length (filter (\<lambda>t. a \<le> t \<and> t \<le> b) (accepted key es NewBucketsDB))) \<le> max 0 limit"
proof (cases "0 < limit \<and> a \<le> b")
  case False
  then show ?thesis
    using accepted_disabled [OF assms(2), of NewBucketsDB] by (force simp: filter_empty_conv not_less)
next
  case True
  with assms(3) have "0 < limit" "0 < window" by auto
  moreover have "\<forall>e \<in> set (calls_on key es). ruled key limit window e"
    using assms(2) by (simp add: calls_on_def)
  ultimately show ?thesis
    using spaced_window [OF _ _ \<open>0 < limit\<close> assms(3)] accepted_sorted_spaced [OF assms(1)]
      accepted_own [OF refl, of key es NewBucketsDB] by fastforce
qed

text \<open>
  C3. As long as a key is checked against one rule and not reset, and the attempts on it reach the
  store in the order of their times, no interval at least a millisecond shorter than the window
  (stamps are rounded to milliseconds) sees more than \<open>limit\<close> allowed attempts on the key, whatever
  happens on other keys and at whatever times, and however many attempts are refused.
\<close>

theorem sliding_window_bound:
  assumes clock: "sorted (event_times (calls_on key es))"
    and rule: "\<forall>e \<in> set es. ruled key limit window e"
    and short: "b - a \<le> window - 1000000"
  shows "int (length (filter (\<lambda>t. a \<le> t \<and> t \<le> b) (accepted key es NewBucketsDB))) \<le> max 0 limit"
  using accepted_window [OF clock rule short] .

lemmas bucket_eval = BucketsDB_Allow_def BucketsDB_Reset_def NewBucketsDB_def getTimeline_def
  evict_dropWhile UnixMilli_def Let_def

theorem sliding_window_bound_witness:
  "\<exists>es :: bucket_event list. length es = 3 \<and>
    accepted ''ip:1.2.3.4'' es NewBucketsDB = [0, 500000000] \<and>
    int (length (filter (\<lambda>t. 0 \<le> t \<and> t \<le> 999000000) (accepted ''ip:1.2.3.4'' es NewBucketsDB))) \<le> max 0 2"
proof -
  let ?at = "\<lambda>t. AllowAt \<lparr>now = t, rnd = Inr 0\<rparr> ''ip:1.2.3.4'' 2 1000000000"
  let ?es = "[?at 0, ?at 500000000, ?at 900000000]"
  have "int (length (filter (\<lambda>t. 0 \<le> t \<and> t \<le> 999000000) (accepted ''ip:1.2.3.4'' ?es NewBucketsDB))) \<le> max 0 2"
    by (rule sliding_window_bound [where window = 1000000000]) (auto simp: calls_on_def)
  moreover have "accepted ''ip:1.2.3.4'' ?es NewBucketsDB = [0, 500000000]"
    by (simp add: bucket_eval)
  ultimately show ?thesis
    by (intro exI [of _ ?es]) simp
qed

text \<open>The store holds stamps of allowed attempts only: a refusal leaves no trace.\<close>

lemma stamps_accepted:
  "set (stamps (bucket_run es db) key) \<subseteq> set (stamps db key) \<union> UnixMilli ` set (accepted key es db)"
proof (induction es arbitrary: db)
  case Nil
  then show ?case by simp
next
  case (Cons e es)
  have "set (stamps (bucket_step e db) key) \<subseteq>
      set (stamps db key) \<union> UnixMilli ` set (accepted key [e] db)"
  proof (cases e)
    case (AllowAt m k l w)
    have sub: "set (evict c ts) \<subseteq> set ts" for c ts
      by (simp add: evict_dropWhile set_dropWhile_subset)
    consider "k \<noteq> key" | "l \<le> 0 \<or> w \<le> 0" | "k = key" "0 < l" "0 < w" by linarith
    then show ?thesis
    proof cases
      case 1
      with AllowAt show ?thesis by (auto simp: bucket_frame)
    next
      case 2
      with AllowAt Allow_disabled [OF 2] show ?thesis by auto
    next
      case 3
      with AllowAt sub show ?thesis
        by (auto simp: Allow_stamps Allow_decision Let_def split: if_splits)
    qed
  next
    case (ResetKey k)
    then show ?thesis
      by (cases "k = key") (auto simp: bucket_frame)
  qed
  moreover have "set (accepted key (e # es) db)
      = set (accepted key [e] db) \<union> set (accepted key es (bucket_step e db))" by simp
  ultimately show ?case
    using Cons.IH [of "bucket_step e db"] unfolding image_Un bucket_run.simps by blast
qed

lemma evict_snoc: "c < t \<Longrightarrow> evict c (evict c ts @ [t]) = evict c ts @ [t]"
  unfolding evict_dropWhile by (induction ts) auto

text \<open>A burst of attempts at one moment is let through as long as there is room.\<close>

lemma burst:
  fixes window :: int
  assumes "1000000 \<le> window" "int (length (evict (UnixMilli (now m - window)) (stamps db key))) + int j \<le> limit"
  shows "accepted key (replicate j (AllowAt m key limit window)) db = replicate j (now m) \<and>
    evict (UnixMilli (now m - window)) (stamps (bucket_run (replicate j (AllowAt m key limit window)) db) key)
      = evict (UnixMilli (now m - window)) (stamps db key) @ replicate j (UnixMilli (now m))"
  using assms(2)
proof (induction j arbitrary: db)
  case 0
  then show ?case by simp
next
  case (Suc j)
  let ?c = "UnixMilli (now m - window)" and ?db = "snd (BucketsDB_Allow m key limit window db)"
  have live: "?c < UnixMilli (now m)"
    using UnixMilli_step [of "now m" "now m" window] assms(1) by simp
  from Suc.prems assms(1) have "stamps ?db key = evict ?c (stamps db key) @ [UnixMilli (now m)]"
    by (simp add: Allow_stamps Let_def)
  then have ev: "evict ?c (stamps ?db key) = evict ?c (stamps db key) @ [UnixMilli (now m)]"
    using live by (simp only: evict_snoc)
  have "fst (BucketsDB_Allow m key limit window db) = Inr True"
    using Suc.prems assms(1) by (simp add: Allow_decision)
  with Suc.IH [of ?db] Suc.prems show ?case
    by (simp add: ev)
qed

text \<open>Attempts twice \<open>limit\<close> places apart are at least a window apart, roundings included.\<close>

lemma spaced_twice:
  assumes "spaced limit window H" "0 < limit" "2000000 \<le> window" "i + nat (2 * limit) < length H"
  shows "window \<le> H ! (i + nat (2 * limit)) - H ! i"
proof -
  let ?n = "nat limit"
  have n: "nat (2 * limit) = ?n + ?n" using assms(2) by simp
  have "UnixMilli (H ! i) \<le> UnixMilli (H ! (i + ?n) - window)"
    "UnixMilli (H ! (i + ?n)) \<le> UnixMilli (H ! (i + nat (2 * limit)) - window)"
    using assms(1,4) unfolding spaced_def n add.assoc [symmetric] by simp_all
  with assms(3) show ?thesis
    by (simp add: UnixMilli_def)
qed

text \<open>
  C20. How much the rounding to milliseconds costs: for the intervals that are shorter than the
  window, by however little, the number of attempts allowed on a key that is checked against one
  rule and not reset, on a clock that does not go back, has the maximum \<open>2 * limit\<close>, twice what is
  configured (for a window of at least 2 ms). Stamps and horizon are rounded down to milliseconds and
  a stamp equal to the horizon has expired, so \<open>limit\<close> attempts at the end of a millisecond and
  \<open>limit\<close> more at the start of the one a window later are all let through.
\<close>

theorem window_bound_rounding:
  assumes "0 < limit" "2000000 \<le> window"
  shows "(\<forall>es a b. sorted (event_times es) \<longrightarrow> (\<forall>e \<in> set es. ruled key limit window e) \<longrightarrow> b - a < window \<longrightarrow>
      int (length (filter (\<lambda>t. a \<le> t \<and> t \<le> b) (accepted key es NewBucketsDB))) \<le> 2 * limit) \<and>
    (\<exists>es a b. sorted (event_times es) \<and> (\<forall>e \<in> set es. ruled key limit window e) \<and> b - a < window \<and>
      int (length (filter (\<lambda>t. a \<le> t \<and> t \<le> b) (accepted key es NewBucketsDB))) = 2 * limit)"
proof (intro conjI allI impI)
  fix es :: "bucket_event list" and a b :: int
  assume run: "sorted (event_times es)" "\<forall>e \<in> set es. ruled key limit window e" and short: "b - a < window"
  let ?H = "accepted key es NewBucketsDB"
  have H: "sorted ?H" "spaced limit window ?H"
    using accepted_sorted_spaced [OF run assms(1)] assms(2) by auto
  have "length (filter (\<lambda>t. a \<le> t \<and> t \<le> b) ?H) \<le> nat (2 * limit)"
    using spaced_twice [OF H(2) assms] short by (intro spaced_count_le [OF H(1)]) force
  with assms(1) show "int (length (filter (\<lambda>t. a \<le> t \<and> t \<le> b) ?H)) \<le> 2 * limit" by simp
next
  let ?n = "nat limit"
  let ?first = "\<lparr>now = 999999, rnd = Inr 0\<rparr>" and ?later = "\<lparr>now = window, rnd = Inr 0\<rparr>"
  let ?es = "\<lambda>m. replicate ?n (AllowAt m key limit window)"
  let ?db = "bucket_run (?es ?first) NewBucketsDB"
  have win: "1000000 \<le> window" using assms(2) by simp
  have first: "accepted key (?es ?first) NewBucketsDB = replicate ?n 999999"
    using burst [OF win, of ?first NewBucketsDB key ?n limit] assms(1) by (simp add: evict_dropWhile)
  have "\<forall>t \<in> set (stamps ?db key). t \<le> UnixMilli (now ?later - window)"
    using stamps_accepted [of "?es ?first" NewBucketsDB key] unfolding first by (auto simp: UnixMilli_def)
  then have "evict (UnixMilli (now ?later - window)) (stamps ?db key) = []"
    by (simp add: evict_dropWhile)
  with burst [OF win, of ?later ?db key ?n limit] assms(1)
  have all: "accepted key (?es ?first @ ?es ?later) NewBucketsDB = replicate ?n 999999 @ replicate ?n window"
    by (simp add: accepted_append first)
  have times: "event_times (replicate i (AllowAt m key limit window) @ es) = replicate i (now m) @ event_times es"
    for i m es by (induction i) auto
  have "event_times (?es ?first @ ?es ?later) = replicate ?n 999999 @ replicate ?n window"
    using times [of ?n ?first "?es ?later"] times [of ?n ?later "[]"] by simp
  then have "sorted (event_times (?es ?first @ ?es ?later))"
    using win by (auto simp: sorted_append)
  with all win assms(1)
  show "\<exists>es a b. sorted (event_times es) \<and> (\<forall>e \<in> set es. ruled key limit window e) \<and> b - a < window \<and>
      int (length (filter (\<lambda>t. a \<le> t \<and> t \<le> b) (accepted key es NewBucketsDB))) = 2 * limit"
    by (intro exI [of _ "?es ?first @ ?es ?later"] exI [of _ 999999] exI [of _ window]) auto
qed

theorem window_bound_rounding_witness:
  "\<exists>es a b. sorted (event_times es) \<and> (\<forall>e \<in> set es. ruled ''login:u'' 10 60000000000 e) \<and> b - a < 60000000000 \<and>
    int (length (filter (\<lambda>t. a \<le> t \<and> t \<le> b) (accepted ''login:u'' es NewBucketsDB))) = 20"
  using window_bound_rounding [of 10 60000000000 "''login:u''"] by simp

section \<open>Refinement of the sliding-window log\<close>

text \<open>
  The abstract window keeps every allowed attempt for ever and, at each attempt, counts those
  whose stamp is after the horizon. The store forgets expired stamps and never looks past the
  first live one; on a clock that does not go back the two decide alike.
\<close>

fun log_decisions :: "int \<Rightarrow> int \<Rightarrow> int list \<Rightarrow> moment list \<Rightarrow> bool list" where
  "log_decisions limit window H [] = []"
| "log_decisions limit window H (m # ms) =
     (let ok = int (length (filter (\<lambda>h. UnixMilli (now m - window) < UnixMilli h) H)) < limit
      in ok # log_decisions limit window (if ok then H @ [now m] else H) ms)"

fun decisions :: "string \<Rightarrow> int \<Rightarrow> int \<Rightarrow> moment list \<Rightarrow> BucketsDB \<Rightarrow> bool result list" where
  "decisions key limit window [] db = []"
| "decisions key limit window (m # ms) db =
     fst (BucketsDB_Allow m key limit window db)
       # decisions key limit window ms (snd (BucketsDB_Allow m key limit window db))"

lemma window_inv_count:
  assumes "window_inv limit window c H ts" "c \<le> n"
  shows "length (evict (UnixMilli (n - window)) ts)
    = length (filter (\<lambda>h. UnixMilli (n - window) < UnixMilli h) H)"
proof -
  let ?c = "UnixMilli (n - window)"
  from assms obtain D where D: "map UnixMilli H = D @ ts" "\<forall>d \<in> set D. d \<le> UnixMilli (c - window)"
    and "sorted H" unfolding window_inv_def by blast
  have "sorted (map UnixMilli H)"
    using \<open>sorted H\<close> UnixMilli_mono by (auto simp: sorted_map intro: sorted_wrt_mono_rel)
  then have "sorted ts" by (simp add: D(1) sorted_append)
  have "filter (\<lambda>t. ?c < t) D = []"
    using D(2) UnixMilli_mono [of "c - window" "n - window"] assms(2)
    by (fastforce simp: filter_empty_conv)
  then have "filter (\<lambda>t. ?c < t) (map UnixMilli H) = filter (\<lambda>t. ?c < t) ts"
    by (simp add: D(1))
  also have "\<dots> = evict ?c ts"
    using \<open>sorted ts\<close> by (simp add: evict_dropWhile dropWhile_le_filter)
  finally have "length (evict ?c ts) = length (filter (\<lambda>t. ?c < t) (map UnixMilli H))" by simp
  then show ?thesis by (simp add: filter_map comp_def)
qed

lemma decisions_log:
  assumes "window_inv limit window c H (stamps db key)" "0 < limit" "0 < window"
    and "sorted (map now ms)" "\<forall>m \<in> set ms. c \<le> now m"
  shows "decisions key limit window ms db = map Inr (log_decisions limit window H ms)"
  using assms
proof (induction ms arbitrary: c H db)
  case Nil
  then show ?case by simp
next
  case (Cons m ms)
  let ?ok = "int (length (filter (\<lambda>h. UnixMilli (now m - window) < UnixMilli h) H)) < limit"
  have dec: "fst (BucketsDB_Allow m key limit window db) = Inr ?ok"
    using Cons.prems window_inv_count [of limit window c H "stamps db key" "now m"]
    by (simp add: Allow_decision)
  have "window_inv limit window (now m) (if ?ok then H @ [now m] else H)
      (stamps (snd (BucketsDB_Allow m key limit window db)) key)"
    using window_inv_Allow [OF Cons.prems(1), of m] Cons.prems dec by (auto split: if_splits)
  from Cons.IH [OF this Cons.prems(2,3)] Cons.prems(4) dec show ?case
    by (simp add: Let_def)
qed

lemma decisions_fresh:
  assumes "sorted (map now ms)" "0 < limit" "0 < window"
  shows "decisions key limit window ms NewBucketsDB = map Inr (log_decisions limit window [] ms)"
proof -
  obtain t where "\<forall>m \<in> set ms. t \<le> now m"
    using assms(1) by (cases ms) auto
  then show ?thesis
    using decisions_log [of limit window t "[]" NewBucketsDB key ms] window_inv_init [of limit window t] assms by simp
qed

text \<open>
  C10. The store refines the sliding-window log: from an empty store, on a clock that does not go
  back, it answers every attempt of a sequence on one key, under one positive rule, as the log does.
\<close>

theorem bucket_refines_log:
  assumes "sorted (map now ms)" "0 < limit" "0 < window"
  shows "decisions key limit window ms NewBucketsDB = map Inr (log_decisions limit window [] ms)"
  by (rule decisions_fresh [OF assms])

theorem bucket_refines_log_witness:
  "decisions ''k'' 1 1000000 [\<lparr>now = 0, rnd = Inr 0\<rparr>, \<lparr>now = 5, rnd = Inr 0\<rparr>, \<lparr>now = 2000000, rnd = Inr 0\<rparr>]
     NewBucketsDB = map Inr [True, False, True]"
proof -
  let ?ms = "[\<lparr>now = 0, rnd = Inr 0\<rparr>, \<lparr>now = 5, rnd = Inr 0\<rparr>, \<lparr>now = 2000000, rnd = Inr 0\<rparr>]"
  have "decisions ''k'' 1 1000000 ?ms NewBucketsDB = map Inr (log_decisions 1 1000000 [] ?ms)"
    by (rule bucket_refines_log) auto
  also have "log_decisions 1 1000000 [] ?ms = [True, False, True]"
    by (simp add: UnixMilli_def Let_def)
  finally show ?thesis .
qed

section \<open>Recovery, isolation and growth\<close>

text \<open>
  A blocked key recovers: a window after its last allowed attempt a key is allowed again,
  whatever was tried, refused or reset in between, and even on a clock that went back.
\<close>

theorem bucket_recovers:
  assumes "\<forall>t \<in> set (accepted key es NewBucketsDB). t + window \<le> now m" "0 < limit"
  shows "fst (BucketsDB_Allow m key limit window (bucket_run es NewBucketsDB)) = Inr True"
proof -
  let ?ts = "stamps (bucket_run es NewBucketsDB) key"
  have "t \<le> UnixMilli (now m - window)" if "t \<in> set ?ts" for t
  proof -
    from that stamps_accepted [of es NewBucketsDB key] obtain h
      where "h \<in> set (accepted key es NewBucketsDB)" "t = UnixMilli h" by auto
    with assms(1) show ?thesis by (auto intro!: UnixMilli_mono)
  qed
  then have "evict (UnixMilli (now m - window)) ?ts = []"
    by (simp add: evict_dropWhile)
  with assms(2) show ?thesis
    by (simp add: Allow_decision)
qed

theorem bucket_recovers_witness:
  "\<exists>es db. db = bucket_run es NewBucketsDB \<and>
    fst (BucketsDB_Allow \<lparr>now = 900000000, rnd = Inr 0\<rparr> ''k'' 1 1000000000 db) = Inr False \<and>
    fst (BucketsDB_Allow \<lparr>now = 1000000000, rnd = Inr 0\<rparr> ''k'' 1 1000000000 db) = Inr True"
proof (intro exI conjI)
  let ?es = "[AllowAt \<lparr>now = 0, rnd = Inr 0\<rparr> ''k'' 1 1000000000,
              AllowAt \<lparr>now = 500000000, rnd = Inr 0\<rparr> ''k'' 1 1000000000]"
  show "bucket_run ?es NewBucketsDB = bucket_run ?es NewBucketsDB" ..
  show "fst (BucketsDB_Allow \<lparr>now = 900000000, rnd = Inr 0\<rparr> ''k'' 1 1000000000
      (bucket_run ?es NewBucketsDB)) = Inr False"
    by (simp add: bucket_eval)
  show "fst (BucketsDB_Allow \<lparr>now = 1000000000, rnd = Inr 0\<rparr> ''k'' 1 1000000000
      (bucket_run ?es NewBucketsDB)) = Inr True"
    by (rule bucket_recovers) (auto simp: bucket_eval)
qed

lemma stamps_other_run:
  "\<forall>e \<in> set es. event_key e \<noteq> key \<Longrightarrow> stamps (bucket_run es db) key = stamps db key"
proof (induction es arbitrary: db)
  case Nil
  then show ?case by simp
next
  case (Cons e es)
  then show ?case by (cases e) (auto simp: bucket_frame)
qed

text \<open>
  Buckets are isolated: calls on other keys never change the answer for a key, and a reset of
  the key itself opens it for every rule that allows anything.
\<close>

theorem bucket_isolation:
  assumes "\<forall>e \<in> set es. event_key e \<noteq> key"
  shows "fst (BucketsDB_Allow m key limit window (bucket_run es db))
      = fst (BucketsDB_Allow m key limit window db)
    \<and> fst (BucketsDB_Allow m key limit window (bucket_run (ResetKey key # es) db)) = Inr (0 < limit)"
  using stamps_other_run [OF assms] Reset_stamps [of key db]
  by (auto simp: Allow_decision evict_dropWhile)

theorem bucket_isolation_witness:
  "fst (BucketsDB_Allow \<lparr>now = 7, rnd = Inr 0\<rparr> ''a'' 1 9 (bucket_run [ResetKey ''a'', ResetKey ''b'']
    (bucket_run [AllowAt \<lparr>now = 7, rnd = Inr 0\<rparr> ''a'' 1 9] NewBucketsDB))) = Inr True"
proof -
  have "\<forall>e \<in> set [ResetKey ''b'']. event_key e \<noteq> ''a''" by simp
  show ?thesis
    by (simp only: bucket_isolation [OF \<open>\<forall>e \<in> set [ResetKey ''b'']. event_key e \<noteq> ''a''\<close>, THEN conjunct2]) simp
qed

text \<open>Which keys the store holds a timeline for.\<close>

definition touched :: "bucket_event \<Rightarrow> string set" where
  "touched e = (case e of AllowAt m k l w \<Rightarrow> if 0 < l \<and> 0 < w then {k} else {} | ResetKey k \<Rightarrow> {})"

lemma dom_bucket_step: "dom (buckets (bucket_step e db)) = dom (buckets db) \<union> touched e"
  by (cases e)
    (auto simp: touched_def BucketsDB_Allow_def BucketsDB_Reset_def getTimeline_def Let_def
      split: option.splits if_splits)

text \<open>
  C21. Inactive buckets are never removed: after any history the store holds a timeline for every
  key that was ever checked against an active rule (a positive limit and window), resets and expired
  windows included.
\<close>

theorem buckets_never_removed:
  "dom (buckets (bucket_run es NewBucketsDB)) = (\<Union>e \<in> set es. touched e)"
proof -
  have "dom (buckets (bucket_run es db)) = dom (buckets db) \<union> (\<Union>e \<in> set es. touched e)" for db
  proof (induction es arbitrary: db)
    case Nil
    then show ?case by simp
  next
    case (Cons e es)
    then show ?case by (simp add: dom_bucket_step Un_assoc)
  qed
  then show ?thesis by (simp add: NewBucketsDB_def)
qed

end
