(* ===== verification/Memory_Subnets.thy ===== *)
theory Memory_Subnets
  imports Abf_Contracts
begin

text \<open>
  \<open>internal/storage/memory/subnetlistdb.go\<close>: the in-memory store of the subnet lists, a map from
  list type to a set of CIDR texts kept as a map to the empty struct. An inner map is an
  association list with distinct keys; reading it visits the keys in an order that the runtime
  chooses. The texts are stored as they come: nothing here parses them.
\<close>

section \<open>The store and its operations\<close>

type_synonym string_set = "(string \<times> unit) list"

record SubnetListDB =
  lists :: "ListType \<rightharpoonup> string_set"

definition NewSubnetListDB :: SubnetListDB where
  "NewSubnetListDB = \<lparr>lists = Map.empty\<rparr>"

definition GetSubnetLists ::
  "range_order \<Rightarrow> ListType \<Rightarrow> SubnetListDB \<Rightarrow> string list result \<times> SubnetListDB" where
  "GetSubnetLists r lt db =
     (case lists db lt of
        None \<Rightarrow> (Inr [], db)
      | Some cidrsMap \<Rightarrow> (Inr (r (map fst cidrsMap)), db))"

definition SaveSubnetList ::
  "ListType \<Rightarrow> string list \<Rightarrow> SubnetListDB \<Rightarrow> go_error option \<times> SubnetListDB" where
  "SaveSubnetList lt cidrs db =
     (let cidrsMap = fold (\<lambda>c m. AList.update c () m) cidrs []
      in (None, db\<lparr>lists := (lists db)(lt \<mapsto> cidrsMap)\<rparr>))"

definition ClearSubnetList :: "ListType \<Rightarrow> SubnetListDB \<Rightarrow> go_error option \<times> SubnetListDB" where
  "ClearSubnetList lt db = (None, db\<lparr>lists := (lists db)(lt := None)\<rparr>)"

definition AddCIDRToSubnetList ::
  "ListType \<Rightarrow> string \<Rightarrow> SubnetListDB \<Rightarrow> go_error option \<times> SubnetListDB" where
  "AddCIDRToSubnetList lt cidr db =
     (let cidrsMap = (case lists db lt of None \<Rightarrow> [] | Some m \<Rightarrow> m)
      in (None, db\<lparr>lists := (lists db)(lt \<mapsto> AList.update cidr () cidrsMap)\<rparr>))"

definition RemoveCIDRFromSubnetList ::
  "ListType \<Rightarrow> string \<Rightarrow> SubnetListDB \<Rightarrow> go_error option \<times> SubnetListDB" where
  "RemoveCIDRFromSubnetList lt cidr db =
     (case lists db lt of
        None \<Rightarrow> (None, db)
      | Some cidrsMap \<Rightarrow> (None, db\<lparr>lists := (lists db)(lt \<mapsto> AList.delete cidr cidrsMap)\<rparr>))"

definition memory_SubnetRepo :: "SubnetListDB SubnetRepo_port" where
  "memory_SubnetRepo =
     \<lparr>repo_GetSubnetLists = GetSubnetLists,
      repo_SaveSubnetList = SaveSubnetList,
      repo_ClearSubnetList = ClearSubnetList,
      repo_AddCIDR = AddCIDRToSubnetList,
      repo_RemoveCIDR = RemoveCIDRFromSubnetList\<rparr>"

lemma memory_SubnetRepo_simps [port_simps]:
  "repo_GetSubnetLists memory_SubnetRepo = GetSubnetLists"
  "repo_SaveSubnetList memory_SubnetRepo = SaveSubnetList"
  "repo_ClearSubnetList memory_SubnetRepo = ClearSubnetList"
  "repo_AddCIDR memory_SubnetRepo = AddCIDRToSubnetList"
  "repo_RemoveCIDR memory_SubnetRepo = RemoveCIDRFromSubnetList"
  by (simp_all add: memory_SubnetRepo_def)

section \<open>The lists as sets\<close>

definition stored :: "SubnetListDB \<Rightarrow> ListType \<Rightarrow> string set" where
  "stored db lt = (case lists db lt of None \<Rightarrow> {} | Some m \<Rightarrow> fst ` set m)"

definition distinct_lists :: "SubnetListDB \<Rightarrow> bool" where
  "distinct_lists db \<longleftrightarrow> (\<forall>lt m. lists db lt = Some m \<longrightarrow> distinct (map fst m))"

lemma dom_update_unit: "fst ` set (AList.update c () m) = insert c (fst ` set m)"
  by (simp add: dom_update)

lemma dom_delete_unit: "fst ` set (AList.delete c m) = fst ` set m - {c}"
proof -
  have "set (map fst (AList.delete c m)) = set (map fst m) - {c}"
    by (simp only: delete_keys) (simp add: set_removeAll)
  then show ?thesis by simp
qed

lemma dom_fold_update:
  "fst ` set (fold (\<lambda>c m. AList.update c () m) cs m) = set cs \<union> fst ` set m"
  by (induction cs arbitrary: m) (auto simp: dom_update_unit)

lemma distinct_fold_update:
  "distinct (map fst m) \<Longrightarrow> distinct (map fst (fold (\<lambda>c m. AList.update c () m) cs m))"
  by (induction cs arbitrary: m) (auto simp: distinct_update)

text \<open>Each operation on the sets; none of them fails.\<close>

lemma stored_New [simp]: "stored NewSubnetListDB lt = {}"
  by (simp add: stored_def NewSubnetListDB_def)

lemma stored_Add: "stored (snd (AddCIDRToSubnetList lt c db)) = (stored db)(lt := insert c (stored db lt))"
  by (rule ext)
    (auto simp: stored_def AddCIDRToSubnetList_def Let_def dom_update_unit split: option.splits)

lemma stored_Remove:
  "stored (snd (RemoveCIDRFromSubnetList lt c db)) = (stored db)(lt := stored db lt - {c})"
  by (rule ext)
    (auto simp: stored_def RemoveCIDRFromSubnetList_def dom_delete_unit split: option.splits)

lemma stored_Save: "stored (snd (SaveSubnetList lt cs db)) = (stored db)(lt := set cs)"
  by (rule ext) (simp add: stored_def SaveSubnetList_def Let_def dom_fold_update)

lemma stored_Clear: "stored (snd (ClearSubnetList lt db)) = (stored db)(lt := {})"
  by (rule ext) (simp add: stored_def ClearSubnetList_def)

lemmas stored_ops = stored_Add stored_Remove stored_Save stored_Clear

lemma distinct_lists_ops:
  "distinct_lists NewSubnetListDB"
  "distinct_lists db \<Longrightarrow> distinct_lists (snd (AddCIDRToSubnetList lt c db))"
  "distinct_lists db \<Longrightarrow> distinct_lists (snd (RemoveCIDRFromSubnetList lt c db))"
  "distinct_lists db \<Longrightarrow> distinct_lists (snd (SaveSubnetList lt cs db))"
  "distinct_lists db \<Longrightarrow> distinct_lists (snd (ClearSubnetList lt db))"
  by (auto simp: distinct_lists_def NewSubnetListDB_def AddCIDRToSubnetList_def
      RemoveCIDRFromSubnetList_def SaveSubnetList_def ClearSubnetList_def Let_def
      distinct_update distinct_delete distinct_fold_update split: option.splits if_splits)

lemma memory_never_fails [simp]:
  "fst (AddCIDRToSubnetList lt c db) = None"
  "fst (RemoveCIDRFromSubnetList lt c db) = None"
  "fst (SaveSubnetList lt cs db) = None"
  "fst (ClearSubnetList lt db) = None"
  by (simp_all add: AddCIDRToSubnetList_def RemoveCIDRFromSubnetList_def SaveSubnetList_def
      ClearSubnetList_def Let_def split: option.split)

lemma GetSubnetLists_state [simp]: "snd (GetSubnetLists r lt db) = db"
  by (simp add: GetSubnetLists_def split: option.split)

lemma GetSubnetLists_result:
  "\<exists>cs. fst (GetSubnetLists r lt db) = Inr cs \<and> (fair_order r \<longrightarrow> set cs = stored db lt) \<and>
    (fair_order r \<longrightarrow> distinct_lists db \<longrightarrow> distinct cs)"
proof (cases "lists db lt")
  case None
  then show ?thesis by (simp add: GetSubnetLists_def stored_def)
next
  case (Some m)
  have "distinct (r (map fst m))" if "fair_order r" "distinct_lists db"
  proof -
    from that Some have "distinct (map fst m)" by (auto simp: distinct_lists_def)
    moreover from that(1) have "mset (r (map fst m)) = mset (map fst m)"
      by (simp add: fair_order_def)
    ultimately show ?thesis by (metis mset_eq_imp_distinct_iff)
  qed
  with Some show ?thesis
    by (auto simp: GetSubnetLists_def stored_def fair_order_set)
qed

interpretation mem_lists: subnet_repo memory_SubnetRepo distinct_lists stored
proof unfold_locales
  fix db db' :: SubnetListDB and r lt cs
  assume "fair_order r" "repo_GetSubnetLists memory_SubnetRepo r lt db = (Inr cs, db')"
  then show "set cs = stored db lt"
    using GetSubnetLists_result [of r lt db] by (auto simp: port_simps)
next
  fix db db' :: SubnetListDB and lt c
  assume "repo_AddCIDR memory_SubnetRepo lt c db = (None, db')"
  then show "stored db' = (stored db)(lt := insert c (stored db lt))"
    using stored_Add [of lt c db] by (simp add: port_simps)
next
  fix db db' :: SubnetListDB and lt c
  assume "repo_RemoveCIDR memory_SubnetRepo lt c db = (None, db')"
  then show "stored db' = (stored db)(lt := stored db lt - {c})"
    using stored_Remove [of lt c db] by (simp add: port_simps)
qed (simp_all add: port_simps distinct_lists_ops)

section \<open>Sequences of writes\<close>

datatype list_write =
    WAdd ListType string
  | WRemove ListType string
  | WSave ListType "string list"
  | WClear ListType

fun store_write :: "list_write \<Rightarrow> SubnetListDB \<Rightarrow> SubnetListDB" where
  "store_write (WAdd lt c) db = snd (AddCIDRToSubnetList lt c db)"
| "store_write (WRemove lt c) db = snd (RemoveCIDRFromSubnetList lt c db)"
| "store_write (WSave lt cs) db = snd (SaveSubnetList lt cs db)"
| "store_write (WClear lt) db = snd (ClearSubnetList lt db)"

fun set_write :: "list_write \<Rightarrow> (ListType \<Rightarrow> string set) \<Rightarrow> ListType \<Rightarrow> string set" where
  "set_write (WAdd lt c) S = S(lt := insert c (S lt))"
| "set_write (WRemove lt c) S = S(lt := S lt - {c})"
| "set_write (WSave lt cs) S = S(lt := set cs)"
| "set_write (WClear lt) S = S(lt := {})"

lemma store_write_refines:
  "stored (store_write e db) = set_write e (stored db) \<and>
    (distinct_lists db \<longrightarrow> distinct_lists (store_write e db))"
  by (cases e) (simp_all add: stored_ops distinct_lists_ops)

lemma list_writes_refine:
  "distinct_lists db \<Longrightarrow> stored (fold store_write es db) = fold set_write es (stored db) \<and>
    distinct_lists (fold store_write es db)"
  by (induction es arbitrary: db) (auto simp: store_write_refines)

text \<open>
  C18. The store is a map of sets: after any sequence of writes a read returns every text of the
  list exactly once, in the order the runtime picks, and never fails.
\<close>

theorem memory_list_reads_back:
  assumes "fair_order r"
  shows "\<exists>cs. fst (GetSubnetLists r lt (fold store_write es NewSubnetListDB)) = Inr cs \<and>
    distinct cs \<and> set cs = fold set_write es (\<lambda>_. {}) lt"
proof -
  have start: "stored NewSubnetListDB = (\<lambda>_. {})" by (rule ext) simp
  have "distinct_lists NewSubnetListDB" by (rule distinct_lists_ops)
  from list_writes_refine [OF this, of es]
    GetSubnetLists_result [of r lt "fold store_write es NewSubnetListDB"]
  show ?thesis using assms by (auto simp: start)
qed

theorem memory_list_reads_back_witness:
  "\<exists>cs. fst (GetSubnetLists rev Whitelist (fold store_write
      [WAdd Whitelist ''10.0.0.0/8'', WAdd Whitelist ''10.0.0.0/8'', WAdd Blacklist ''1.1.1.1/32'',
       WAdd Whitelist ''192.168.0.0/16'', WRemove Whitelist ''10.0.0.0/8''] NewSubnetListDB)) = Inr cs \<and>
    distinct cs \<and> set cs = {''192.168.0.0/16''}"
  using memory_list_reads_back [OF fair_order_id(2), of Whitelist
    "[WAdd Whitelist ''10.0.0.0/8'', WAdd Whitelist ''10.0.0.0/8'', WAdd Blacklist ''1.1.1.1/32'',
      WAdd Whitelist ''192.168.0.0/16'', WRemove Whitelist ''10.0.0.0/8'']"]
  by (simp add: insert_Diff_if)

end
