(* ===== verification/Go_Fmt.thy ===== *)
theory Go_Fmt
  imports Go_Net_Facts
begin

text \<open>
  Decimal printing of integers as \<open>fmt\<close> does it (\<open>Sprint\<close> and the \<open>%d\<close> verb) and reading them back,
  with the proof that the two are inverse. The standard library's part of member texts, connection
  strings and version arguments.
\<close>

section \<open>Integers in decimal\<close>

fun digits_of :: "nat \<Rightarrow> string" where
  "digits_of n = (if n < 10 then [digit_char n] else digits_of (n div 10) @ [digit_char (n mod 10)])"

declare digits_of.simps [simp del]

definition Sprint_int :: "int \<Rightarrow> string" where
  "Sprint_int i = (if i < 0 then CHR ''-'' # digits_of (nat (- i)) else digits_of (nat i))"

fun read_nat :: "nat \<Rightarrow> string \<Rightarrow> nat option" where
  "read_nat acc [] = Some acc"
| "read_nat acc (c # cs) = (case digit_val c of None \<Rightarrow> None | Some d \<Rightarrow> read_nat (10 * acc + d) cs)"

definition read_int :: "string \<Rightarrow> int option" where
  "read_int s =
     (if s \<noteq> [] \<and> hd s = CHR ''-'' then map_option (\<lambda>n. - int n) (read_nat 0 (tl s))
      else map_option int (read_nat 0 s))"

lemma read_nat_append: "read_nat a (s @ t) = Option.bind (read_nat a s) (\<lambda>b. read_nat b t)"
  by (induction s arbitrary: a) (auto split: option.split)

lemma read_digits: "read_nat 0 (digits_of n) = Some n"
proof (induction n rule: digits_of.induct)
  case (1 n)
  show ?case
  proof (cases "n < 10")
    case True
    then show ?thesis by (simp add: digits_of.simps [of n])
  next
    case False
    with 1 show ?thesis by (simp add: digits_of.simps [of n] read_nat_append)
  qed
qed

lemma digits_of_digits: "c \<in> set (digits_of n) \<Longrightarrow> digit_val c \<noteq> None"
proof (induction n rule: digits_of.induct)
  case (1 n)
  then show ?case
    by (cases "n < 10") (auto simp: digits_of.simps [of n])
qed

lemma minus_no_digit [simp]: "digit_val (CHR ''-'') = None"
  by (simp add: digit_val_def)

lemma digits_of_nonempty [simp]: "digits_of n \<noteq> []"
  by (simp add: digits_of.simps [of n])

lemma read_Sprint: "read_int (Sprint_int i) = Some i"
proof (cases "i < 0")
  case True
  then show ?thesis by (simp add: Sprint_int_def read_int_def read_digits)
next
  case False
  have "hd (digits_of (nat i)) \<noteq> CHR ''-''"
    using digits_of_digits [of "hd (digits_of (nat i))" "nat i"] by (metis digits_of_nonempty hd_in_set minus_no_digit)
  with False show ?thesis by (simp add: Sprint_int_def read_int_def read_digits)
qed

lemma Sprint_int_inject: "Sprint_int i = Sprint_int j \<longleftrightarrow> i = j"
  using read_Sprint by (metis option.inject)

lemma colon_notin_Sprint: "CHR '':'' \<notin> set (Sprint_int i)"
  using digits_of_digits [of "CHR '':''"] by (auto simp: Sprint_int_def)

end
