(* ===== verification/Config.thy ===== *)
theory Config
  imports Go_Fmt
begin

text \<open>
  \<open>internal/config/config.go\<close>: the configuration record with its struct tags, the defaults given to
  viper and the loading of a file. viper and mapstructure are third parties: reading the file,
  merging it with defaults and environment, and converting single values are parameters; which
  default is set under which key, and which key each field is filled from, is the file's own.
\<close>

section \<open>The configuration\<close>

record config_App =
  app_Name :: string

record config_Limits =
  LoginAttempts :: int
  PasswordAttempts :: int
  IPAttempts :: int
  config_Window :: int

record config_Server =
  server_Address :: string
  server_Port :: int
  tls_Enabled :: bool
  tls_CertFile :: string
  tls_KeyFile :: string

record config_Logger =
  logger_Level :: string
  logger_File :: string

record config_Pool =
  MaxOpenConns :: int
  MaxIdleConns :: int
  ConnMaxLifetime :: int
  ConnMaxIdleTime :: int

record config_Postgresql =
  pg_Dsn :: string
  pg_User :: string
  pg_Password :: string
  pg_Host :: string
  pg_Port :: int
  pg_Name :: string
  pg_Pool :: config_Pool

record config_Redis =
  redis_Address :: string
  redis_Password :: string
  redis_DB :: int
  policer_ReadTimeout :: int
  policer_WriteTimeout :: int
  policer_DialTimeout :: int
  policer_PoolSize :: int
  subscriber_ReadTimeout :: int
  subscriber_PoolSize :: int
  subscriber_SubnetsChannel :: string

record config_Database =
  Workmode :: string
  Postgresql :: config_Postgresql
  Redis :: config_Redis

record Config =
  cfg_App :: config_App
  cfg_Limits :: config_Limits
  cfg_Server :: config_Server
  cfg_Logger :: config_Logger
  cfg_Database :: config_Database

section \<open>Decoding by the struct tags\<close>

datatype setting = SStr string | SInt int

type_synonym settings = "string \<rightharpoonup> setting"

text \<open>
  How mapstructure, weakly typed and with the duration hook, converts one value to the type of the
  field; a field whose key is absent keeps its zero value.
\<close>

record conversions =
  to_string :: "setting \<Rightarrow> string result"
  to_int :: "setting \<Rightarrow> int result"
  to_bool :: "setting \<Rightarrow> bool result"
  to_duration :: "setting \<Rightarrow> int result"

definition field :: "(setting \<Rightarrow> 'a result) \<Rightarrow> 'a \<Rightarrow> settings \<Rightarrow> string \<Rightarrow> 'a result" where
  "field conv zero s key = (case s key of None \<Rightarrow> Inr zero | Some v \<Rightarrow> conv v)"

definition rbind :: "'a result \<Rightarrow> ('a \<Rightarrow> 'b result) \<Rightarrow> 'b result" where
  "rbind r f = (case r of Inl err \<Rightarrow> Inl err | Inr a \<Rightarrow> f a)"

definition decode_Limits :: "conversions \<Rightarrow> settings \<Rightarrow> config_Limits result" where
  "decode_Limits c s =
     rbind (field (to_int c) 0 s ''limits.login_attempts'') (\<lambda>l.
     rbind (field (to_int c) 0 s ''limits.password_attempts'') (\<lambda>p.
     rbind (field (to_int c) 0 s ''limits.ip_attempts'') (\<lambda>i.
     rbind (field (to_duration c) 0 s ''limits.window'') (\<lambda>w.
     Inr \<lparr>LoginAttempts = l, PasswordAttempts = p, IPAttempts = i, config_Window = w\<rparr>))))"

definition decode_Server :: "conversions \<Rightarrow> settings \<Rightarrow> config_Server result" where
  "decode_Server c s =
     rbind (field (to_string c) [] s ''server.address'') (\<lambda>a.
     rbind (field (to_int c) 0 s ''server.port'') (\<lambda>p.
     rbind (field (to_bool c) False s ''server.tls.enabled'') (\<lambda>e.
     rbind (field (to_string c) [] s ''server.tls.cert_file'') (\<lambda>cf.
     rbind (field (to_string c) [] s ''server.tls.key_file'') (\<lambda>kf.
     Inr \<lparr>server_Address = a, server_Port = p, tls_Enabled = e, tls_CertFile = cf, tls_KeyFile = kf\<rparr>)))))"

definition decode_Logger :: "conversions \<Rightarrow> settings \<Rightarrow> config_Logger result" where
  "decode_Logger c s =
     rbind (field (to_string c) [] s ''logger.level'') (\<lambda>l.
     rbind (field (to_string c) [] s ''logger.file'') (\<lambda>f.
     Inr \<lparr>logger_Level = l, logger_File = f\<rparr>))"

definition decode_Postgresql :: "conversions \<Rightarrow> settings \<Rightarrow> config_Postgresql result" where
  "decode_Postgresql c s =
     rbind (field (to_string c) [] s ''database.postgresql.dsn'') (\<lambda>dsn.
     rbind (field (to_string c) [] s ''database.postgresql.user'') (\<lambda>user.
     rbind (field (to_string c) [] s ''database.postgresql.password'') (\<lambda>password.
     rbind (field (to_string c) [] s ''database.postgresql.host'') (\<lambda>host.
     rbind (field (to_int c) 0 s ''database.postgresql.port'') (\<lambda>port.
     rbind (field (to_string c) [] s ''database.postgresql.name'') (\<lambda>dbname.
     rbind (field (to_int c) 0 s ''database.postgresql.pool.max_open_conns'') (\<lambda>mo.
     rbind (field (to_int c) 0 s ''database.postgresql.pool.max_idle_conns'') (\<lambda>mi.
     rbind (field (to_duration c) 0 s ''database.postgresql.pool.conn_max_lifetime'') (\<lambda>ml.
     rbind (field (to_duration c) 0 s ''database.postgresql.pool.conn_max_idle_time'') (\<lambda>mt.
     Inr \<lparr>pg_Dsn = dsn, pg_User = user, pg_Password = password, pg_Host = host, pg_Port = port,
        pg_Name = dbname, pg_Pool = \<lparr>MaxOpenConns = mo, MaxIdleConns = mi, ConnMaxLifetime = ml,
        ConnMaxIdleTime = mt\<rparr>\<rparr>))))))))))"

definition decode_Redis :: "conversions \<Rightarrow> settings \<Rightarrow> config_Redis result" where
  "decode_Redis c s =
     rbind (field (to_string c) [] s ''database.redis.address'') (\<lambda>a.
     rbind (field (to_string c) [] s ''database.redis.password'') (\<lambda>p.
     rbind (field (to_int c) 0 s ''database.redis.db'') (\<lambda>db.
     rbind (field (to_duration c) 0 s ''database.redis.policer.read_timeout'') (\<lambda>rt.
     rbind (field (to_duration c) 0 s ''database.redis.policer.write_timeout'') (\<lambda>wt.
     rbind (field (to_duration c) 0 s ''database.redis.policer.dial_timeout'') (\<lambda>dt.
     rbind (field (to_int c) 0 s ''database.redis.policer.pool_size'') (\<lambda>ps.
     rbind (field (to_duration c) 0 s ''database.redis.subscriber.read_timeout'') (\<lambda>srt.
     rbind (field (to_int c) 0 s ''database.redis.subscriber.pool_size'') (\<lambda>sps.
     rbind (field (to_string c) [] s ''database.redis.subscriber.subnets_channel'') (\<lambda>ch.
     Inr \<lparr>redis_Address = a, redis_Password = p, redis_DB = db, policer_ReadTimeout = rt,
        policer_WriteTimeout = wt, policer_DialTimeout = dt, policer_PoolSize = ps,
        subscriber_ReadTimeout = srt, subscriber_PoolSize = sps, subscriber_SubnetsChannel = ch\<rparr>))))))))))"

definition decode_Database :: "conversions \<Rightarrow> settings \<Rightarrow> config_Database result" where
  "decode_Database c s =
     rbind (field (to_string c) [] s ''database.workmode'') (\<lambda>m.
     rbind (decode_Postgresql c s) (\<lambda>p.
     rbind (decode_Redis c s) (\<lambda>r.
     Inr \<lparr>Workmode = m, Postgresql = p, Redis = r\<rparr>)))"

definition decode_Config :: "conversions \<Rightarrow> settings \<Rightarrow> Config result" where
  "decode_Config c s =
     rbind (field (to_string c) [] s ''app.name'') (\<lambda>a.
     rbind (decode_Limits c s) (\<lambda>l.
     rbind (decode_Server c s) (\<lambda>sv.
     rbind (decode_Logger c s) (\<lambda>lg.
     rbind (decode_Database c s) (\<lambda>db.
     Inr \<lparr>cfg_App = \<lparr>app_Name = a\<rparr>, cfg_Limits = l, cfg_Server = sv, cfg_Logger = lg, cfg_Database = db\<rparr>)))))"

section \<open>Defaults and loading\<close>

text \<open>What the code tells viper before it reads.\<close>

record viper =
  v_EnvPrefix :: string
  v_EnvReplacer :: "string list"
  v_AutomaticEnv :: bool
  v_defaults :: "(string \<times> setting) list"
  v_ConfigName :: string
  v_ConfigType :: string
  v_ConfigPaths :: "string list"
  v_ConfigFile :: string

definition viper_New :: viper where
  "viper_New = \<lparr>v_EnvPrefix = [], v_EnvReplacer = [], v_AutomaticEnv = False, v_defaults = [],
     v_ConfigName = [], v_ConfigType = [], v_ConfigPaths = [], v_ConfigFile = []\<rparr>"

definition setDefaults :: "viper \<Rightarrow> viper" where
  "setDefaults v = v\<lparr>v_defaults := v_defaults v @
     [(''database.workmode'', SStr ''local''),
      (''database.postgresql.host'', SStr ''localhost''),
      (''database.postgresql.port'', SInt 5432),
      (''database.postgresql.name'', SStr ''anti_bruteforce''),
      (''database.postgresql.pool.max_open_conns'', SInt 20),
      (''database.postgresql.pool.max_idle_conns'', SInt 10),
      (''database.postgresql.pool.conn_max_lifetime'', SStr ''1h''),
      (''database.postgresql.pool.conn_max_idle_time'', SStr ''10m''),
      (''server.port'', SInt 50051),
      (''logger.level'', SStr ''info''),
      (''limits.login_attempts'', SInt 10),
      (''limits.password_attempts'', SInt 100),
      (''limits.ip_attempts'', SInt 1000),
      (''limits.window'', SStr ''1m''),
      (''redis.address'', SStr ''localhost:6379''),
      (''redis.password'', SStr []),
      (''redis.db'', SInt 0),
      (''redis.policer.dial_timeout'', SStr ''5s''),
      (''redis.policer.read_timeout'', SStr ''3s''),
      (''redis.policer.write_timeout'', SStr ''3s''),
      (''redis.policer.pool_size'', SInt 100),
      (''redis.subscriber.read_timeout'', SStr ''0s''),
      (''redis.subscriber.pool_size'', SInt 2),
      (''redis.subscriber.subnets_channel'', SStr ''abf.subnets.updated'')]\<rparr>"

datatype stat = StatOk | StatNotExist | StatFailed

text \<open>The host and the two packages: the answers of \<open>os.Stat\<close>, the keys of the file, the merge.\<close>

record loader =
  os_Stat :: "string \<Rightarrow> stat"
  ReadInConfig :: "viper \<Rightarrow> settings result"
  AllSettings :: "viper \<Rightarrow> settings \<Rightarrow> settings"
  NewDecoder :: "conversions result"

definition fileExists :: "loader \<Rightarrow> string \<Rightarrow> bool" where
  "fileExists h path = (case os_Stat h path of StatNotExist \<Rightarrow> False | StatOk \<Rightarrow> True | StatFailed \<Rightarrow> False)"

definition base_viper :: viper where
  "base_viper = setDefaults (viper_New\<lparr>v_EnvPrefix := ''ABF'', v_EnvReplacer := [''.'', ''__'', ''-'', ''_''],
     v_AutomaticEnv := True\<rparr>)"

text \<open>The second half of \<open>LoadConfig\<close>, from \<open>ReadInConfig\<close> on.\<close>

definition read_and_decode :: "loader \<Rightarrow> viper \<Rightarrow> Config result" where
  "read_and_decode h v =
     (case ReadInConfig h v of
        Inl err \<Rightarrow> Inl err
      | Inr kvs \<Rightarrow>
          (case NewDecoder h of
             Inl err \<Rightarrow> Inl err
           | Inr dec \<Rightarrow> decode_Config dec (AllSettings h v kvs)))"

definition LoadConfig :: "loader \<Rightarrow> string \<Rightarrow> Config result" where
  "LoadConfig h cfgFilePath =
     (let v = base_viper
      in if cfgFilePath = []
         then read_and_decode h (v\<lparr>v_ConfigName := ''config'', v_ConfigType := ''yaml'',
           v_ConfigPaths := [''.'', ''./configs'', ''/etc/calendar'']\<rparr>)
         else if \<not> fileExists h cfgFilePath then Inl (Sentinel (ConfigErr ErrFileNotFound))
         else read_and_decode h (v\<lparr>v_ConfigFile := cfgFilePath\<rparr>))"

section \<open>What of the defaults reaches the configuration\<close>

text \<open>
  A documented law of \<open>AllSettings\<close>: it reports the keys that have a default or are in the file (an
  environment variable only overrides a key known from there).
\<close>

definition known_keys_only :: "loader \<Rightarrow> bool" where
  "known_keys_only h \<longleftrightarrow>
     (\<forall>v file k. k \<notin> fst ` set (v_defaults v) \<longrightarrow> file k = None \<longrightarrow> AllSettings h v file k = None)"

definition redis_keys :: "string list" where
  "redis_keys = map (\<lambda>k. ''database.redis.'' @ k)
     [''address'', ''password'', ''db'', ''policer.read_timeout'', ''policer.write_timeout'',
      ''policer.dial_timeout'', ''policer.pool_size'', ''subscriber.read_timeout'',
      ''subscriber.pool_size'', ''subscriber.subnets_channel'']"

definition zero_Redis :: config_Redis where
  "zero_Redis = \<lparr>redis_Address = [], redis_Password = [], redis_DB = 0, policer_ReadTimeout = 0,
     policer_WriteTimeout = 0, policer_DialTimeout = 0, policer_PoolSize = 0,
     subscriber_ReadTimeout = 0, subscriber_PoolSize = 0, subscriber_SubnetsChannel = []\<rparr>"

lemma default_keys: "map fst (v_defaults base_viper) =
  [''database.workmode'', ''database.postgresql.host'', ''database.postgresql.port'',
   ''database.postgresql.name'', ''database.postgresql.pool.max_open_conns'',
   ''database.postgresql.pool.max_idle_conns'', ''database.postgresql.pool.conn_max_lifetime'',
   ''database.postgresql.pool.conn_max_idle_time'', ''server.port'', ''logger.level'',
   ''limits.login_attempts'', ''limits.password_attempts'', ''limits.ip_attempts'', ''limits.window'',
   ''redis.address'', ''redis.password'', ''redis.db'', ''redis.policer.dial_timeout'',
   ''redis.policer.read_timeout'', ''redis.policer.write_timeout'', ''redis.policer.pool_size'',
   ''redis.subscriber.read_timeout'', ''redis.subscriber.pool_size'', ''redis.subscriber.subnets_channel'']"
  by (simp add: base_viper_def setDefaults_def viper_New_def)

lemma redis_keys_no_default: "k \<in> set redis_keys \<Longrightarrow> k \<notin> set (map fst (v_defaults base_viper))"
  unfolding default_keys redis_keys_def by auto

lemma decode_Redis_absent:
  assumes "\<forall>k \<in> set redis_keys. s k = None"
  shows "decode_Redis c s = Inr zero_Redis"
  using assms by (simp add: decode_Redis_def field_def rbind_def redis_keys_def zero_Redis_def)

text \<open>The settings that the defaults alone give.\<close>

abbreviation default_settings :: settings where
  "default_settings \<equiv> map_of (v_defaults base_viper)"

lemma default_lookups:
  "default_settings ''database.workmode'' = Some (SStr ''local'')"
  "default_settings ''database.postgresql.host'' = Some (SStr ''localhost'')"
  "default_settings ''database.postgresql.port'' = Some (SInt 5432)"
  "default_settings ''database.postgresql.name'' = Some (SStr ''anti_bruteforce'')"
  "default_settings ''database.postgresql.pool.max_open_conns'' = Some (SInt 20)"
  "default_settings ''database.postgresql.pool.max_idle_conns'' = Some (SInt 10)"
  "default_settings ''database.postgresql.pool.conn_max_lifetime'' = Some (SStr ''1h'')"
  "default_settings ''database.postgresql.pool.conn_max_idle_time'' = Some (SStr ''10m'')"
  "default_settings ''server.port'' = Some (SInt 50051)"
  "default_settings ''logger.level'' = Some (SStr ''info'')"
  "default_settings ''limits.login_attempts'' = Some (SInt 10)"
  "default_settings ''limits.password_attempts'' = Some (SInt 100)"
  "default_settings ''limits.ip_attempts'' = Some (SInt 1000)"
  "default_settings ''limits.window'' = Some (SStr ''1m'')"
  "default_settings ''app.name'' = None"
  "default_settings ''logger.file'' = None"
  "default_settings ''server.address'' = None"
  "default_settings ''server.tls.enabled'' = None"
  "default_settings ''server.tls.cert_file'' = None"
  "default_settings ''server.tls.key_file'' = None"
  "default_settings ''database.postgresql.dsn'' = None"
  "default_settings ''database.postgresql.user'' = None"
  "default_settings ''database.postgresql.password'' = None"
  by (simp_all add: base_viper_def setDefaults_def viper_New_def)

lemma default_Redis: "k \<in> set redis_keys \<Longrightarrow> default_settings k = None"
  by (metis map_of_eq_None_iff redis_keys_no_default set_map)

lemma decode_Redis_default: "decode_Redis c default_settings = Inr zero_Redis"
  by (intro decode_Redis_absent ballI default_Redis)

lemmas decode_parts = decode_Config_def decode_Limits_def decode_Server_def decode_Logger_def
  decode_Database_def decode_Postgresql_def field_def rbind_def

lemma decode_Config_Redis:
  "decode_Config c s = Inr cfg \<Longrightarrow> decode_Redis c s = Inr (Redis (cfg_Database cfg))"
  by (auto simp: decode_Config_def decode_Database_def rbind_def split: sum.splits)

lemma LoadConfig_settings:
  assumes "LoadConfig h path = Inr cfg"
  shows "\<exists>v kvs dec. v_defaults v = v_defaults base_viper \<and> ReadInConfig h v = Inr kvs \<and>
    NewDecoder h = Inr dec \<and> decode_Config dec (AllSettings h v kvs) = Inr cfg"
proof -
  obtain v where "v_defaults v = v_defaults base_viper" "read_and_decode h v = Inr cfg"
  proof (cases "path = []")
    case True
    with assms that [of "base_viper\<lparr>v_ConfigName := ''config'', v_ConfigType := ''yaml'',
        v_ConfigPaths := [''.'', ''./configs'', ''/etc/calendar'']\<rparr>"]
    show ?thesis by (simp add: LoadConfig_def)
  next
    case False
    with assms that [of "base_viper\<lparr>v_ConfigFile := path\<rparr>"]
    show ?thesis by (simp add: LoadConfig_def split: if_splits)
  qed
  then show ?thesis by (auto simp: read_and_decode_def split: sum.splits)
qed

text \<open>
  C37. The Redis defaults never take effect: they are set under \<open>redis\<close> while the fields are read
  from \<open>database.redis\<close>, so a file that leaves these keys out gives a configuration with an empty
  Redis address and channel and pools of size zero, whatever the environment holds.
\<close>

theorem redis_defaults_unused:
  assumes "known_keys_only h" "LoadConfig h path = Inr cfg"
    and "\<forall>v file. ReadInConfig h v = Inr file \<longrightarrow> (\<forall>k \<in> set redis_keys. file k = None)"
  shows "Redis (cfg_Database cfg) = zero_Redis"
proof -
  from LoadConfig_settings [OF assms(2)] obtain v kvs dec where
    v: "v_defaults v = v_defaults base_viper" "ReadInConfig h v = Inr kvs"
      "decode_Config dec (AllSettings h v kvs) = Inr cfg" by blast
  have "AllSettings h v kvs k = None" if "k \<in> set redis_keys" for k
    using assms(1,3) v(1,2) redis_keys_no_default [OF that] that by (simp add: known_keys_only_def)
  then have "decode_Redis dec (AllSettings h v kvs) = Inr zero_Redis"
    by (intro decode_Redis_absent) blast
  with decode_Config_Redis [OF v(3)] show ?thesis by simp
qed

text \<open>A loader that finds an empty file and an empty environment, and converts as documented.\<close>

fun plain_string :: "setting \<Rightarrow> string result" where
  "plain_string (SStr s) = Inr s"
| "plain_string (SInt i) = Inr (Sprint_int i)"

fun plain_int :: "setting \<Rightarrow> int result" where
  "plain_int (SInt i) = Inr i"
| "plain_int (SStr s) = (case read_int s of None \<Rightarrow> Inl (Foreign ''cannot parse as int'') | Some i \<Rightarrow> Inr i)"

definition plain_duration :: "setting \<Rightarrow> int result" where
  "plain_duration v =
     (case map_of [(SStr ''1m'', 60000000000), (SStr ''10m'', 600000000000), (SStr ''1h'', 3600000000000)] v of
        None \<Rightarrow> Inl (Foreign ''invalid duration'') | Some d \<Rightarrow> Inr d)"

definition plain_loader :: loader where
  "plain_loader = \<lparr>os_Stat = (\<lambda>_. StatOk), ReadInConfig = (\<lambda>_. Inr Map.empty),
     AllSettings = (\<lambda>v file. map_of (v_defaults v) ++ file),
     NewDecoder = Inr \<lparr>to_string = plain_string, to_int = plain_int, to_bool = (\<lambda>_. Inr False),
       to_duration = plain_duration\<rparr>\<rparr>"

text \<open>
  With nothing set, loading succeeds and gives the local work mode, limits of 10, 100 and 1000
  attempts in a minute and the server port 50051.
\<close>

theorem silent_config:
  assumes "\<forall>v. ReadInConfig h v = Inr Map.empty" "\<forall>v. AllSettings h v Map.empty = map_of (v_defaults v)"
    and "NewDecoder h = Inr c" "\<forall>s. to_string c (SStr s) = Inr s" "\<forall>i. to_int c (SInt i) = Inr i"
    and "to_duration c (SStr ''1m'') = Inr 60000000000" "to_duration c (SStr ''1h'') = Inr life"
      "to_duration c (SStr ''10m'') = Inr idle"
  shows "\<exists>cfg. LoadConfig h [] = Inr cfg \<and> Workmode (cfg_Database cfg) = ''local'' \<and>
    cfg_Limits cfg = \<lparr>LoginAttempts = 10, PasswordAttempts = 100, IPAttempts = 1000, config_Window = 60000000000\<rparr> \<and>
    server_Port (cfg_Server cfg) = 50051 \<and> logger_Level (cfg_Logger cfg) = ''info'' \<and>
    Redis (cfg_Database cfg) = zero_Redis"
proof -
  have "\<exists>cfg. decode_Config c default_settings = Inr cfg \<and> Workmode (cfg_Database cfg) = ''local'' \<and>
    cfg_Limits cfg = \<lparr>LoginAttempts = 10, PasswordAttempts = 100, IPAttempts = 1000, config_Window = 60000000000\<rparr> \<and>
    server_Port (cfg_Server cfg) = 50051 \<and> logger_Level (cfg_Logger cfg) = ''info'' \<and>
    Redis (cfg_Database cfg) = zero_Redis"
    using assms(4-8) by (simp add: decode_parts default_lookups decode_Redis_default)
  moreover have "LoadConfig h [] = decode_Config c default_settings"
    using assms(1-3) by (simp add: LoadConfig_def read_and_decode_def)
  ultimately show ?thesis by simp
qed

theorem silent_config_witness:
  "\<exists>cfg. LoadConfig plain_loader [] = Inr cfg \<and> LoginAttempts (cfg_Limits cfg) = 10"
  using silent_config [of plain_loader _ 3600000000000 600000000000]
  by (auto simp: plain_loader_def plain_duration_def)

lemma plain_loads: "\<exists>cfg. LoadConfig plain_loader [] = Inr cfg"
proof -
  have "\<exists>cfg. decode_Config (projr (NewDecoder plain_loader)) default_settings = Inr cfg"
    by (simp add: decode_parts default_lookups decode_Redis_default plain_loader_def plain_duration_def)
  then show ?thesis
    by (simp add: LoadConfig_def read_and_decode_def plain_loader_def)
qed

theorem redis_defaults_unused_witness:
  "\<exists>cfg. LoadConfig plain_loader [] = Inr cfg \<and> redis_Address (Redis (cfg_Database cfg)) = []"
proof -
  obtain cfg where cfg: "LoadConfig plain_loader [] = Inr cfg"
    using plain_loads by blast
  have "known_keys_only plain_loader"
    by (auto simp: known_keys_only_def plain_loader_def map_add_def map_of_eq_None_iff)
  from redis_defaults_unused [OF this cfg] cfg show ?thesis
    by (simp add: plain_loader_def zero_Redis_def)
qed

end
