(* ===== verification/Ratelimit.thy ===== *)
theory Ratelimit
  imports Abf_Contracts Config
begin

text \<open>
  \<open>internal/domain/ratelimit\<close>: a \<open>Limiter\<close> ties a store, a limit type and a rule together; a
  \<open>LimitChecker\<close> holds one limiter per limit type and chooses among them. With it the mapping
  from the configuration to the limits (\<open>internal/domain/subnetlist/config.go\<close>).
\<close>

section \<open>Limiters\<close>

record Rule =
  Limit :: int
  Window :: int

record 'w Limiter =
  storage :: "'w LimiterRepo_port"
  limitType :: string
  rule :: Rule

definition NewLimiter :: "'w LimiterRepo_port \<Rightarrow> string \<Rightarrow> Rule \<Rightarrow> 'w Limiter" where
  "NewLimiter st lt r = \<lparr>storage = st, limitType = lt, rule = r\<rparr>"

text \<open>The key of the store: limit type, a colon, the key of the caller.\<close>

definition bucket_key :: "string \<Rightarrow> string \<Rightarrow> string" where
  "bucket_key lt key = lt @ '':'' @ key"

definition Limiter_Allow :: "'w Limiter \<Rightarrow> moment \<Rightarrow> string \<Rightarrow> 'w \<Rightarrow> bool result \<times> 'w" where
  "Limiter_Allow l m key w =
     limiter_Allow (storage l) m (bucket_key (limitType l) key) (Limit (rule l)) (Window (rule l)) w"

definition Limiter_Reset :: "'w Limiter \<Rightarrow> string \<Rightarrow> 'w \<Rightarrow> go_error option \<times> 'w" where
  "Limiter_Reset l key w = limiter_Reset (storage l) (bucket_key (limitType l) key) w"

section \<open>The checker\<close>

type_synonym Limits = "LimitType \<rightharpoonup> Rule"

record 'w LimitChecker =
  limiters :: "LimitType \<rightharpoonup> 'w Limiter"

definition NewLimitChecker :: "'w LimiterRepo_port \<Rightarrow> Limits \<Rightarrow> 'w LimitChecker" where
  "NewLimitChecker st limits = \<lparr>limiters = (\<lambda>lt. map_option (NewLimiter st lt) (limits lt))\<rparr>"

definition LimitChecker_Allow ::
  "'w LimitChecker \<Rightarrow> moment \<Rightarrow> LimitType \<Rightarrow> string \<Rightarrow> 'w \<Rightarrow> bool result \<times> 'w" where
  "LimitChecker_Allow lc m lt key w =
     (case limiters lc lt of
        None \<Rightarrow> (Inr False, w)
      | Some l \<Rightarrow> Limiter_Allow l m key w)"

definition LimitChecker_Reset ::
  "'w LimitChecker \<Rightarrow> LimitType \<Rightarrow> string \<Rightarrow> 'w \<Rightarrow> go_error option \<times> 'w" where
  "LimitChecker_Reset lc lt key w =
     (case limiters lc lt of
        None \<Rightarrow> (None, w)
      | Some l \<Rightarrow> Limiter_Reset l key w)"

definition LimitChecker_as_port :: "'w LimitChecker \<Rightarrow> 'w LimitChecker_port" where
  "LimitChecker_as_port lc =
     \<lparr>checker_Allow = LimitChecker_Allow lc, checker_Reset = LimitChecker_Reset lc\<rparr>"

lemma LimitChecker_port_simps [port_simps]:
  "checker_Allow (LimitChecker_as_port lc) = LimitChecker_Allow lc"
  "checker_Reset (LimitChecker_as_port lc) = LimitChecker_Reset lc"
  by (simp_all add: LimitChecker_as_port_def)

section \<open>Limits from the configuration\<close>


definition LimitsFromConfig :: "config_Limits \<Rightarrow> Limits" where
  "LimitsFromConfig cfg =
     [LoginLimit \<mapsto> \<lparr>Limit = LoginAttempts cfg, Window = config_Window cfg\<rparr>,
      PasswordLimit \<mapsto> \<lparr>Limit = PasswordAttempts cfg, Window = config_Window cfg\<rparr>,
      IPLimit \<mapsto> \<lparr>Limit = IPAttempts cfg, Window = config_Window cfg\<rparr>]"

lemma LimitsFromConfig_simps [simp]:
  "LimitsFromConfig cfg LoginLimit = Some \<lparr>Limit = LoginAttempts cfg, Window = config_Window cfg\<rparr>"
  "LimitsFromConfig cfg PasswordLimit = Some \<lparr>Limit = PasswordAttempts cfg, Window = config_Window cfg\<rparr>"
  "LimitsFromConfig cfg IPLimit = Some \<lparr>Limit = IPAttempts cfg, Window = config_Window cfg\<rparr>"
  by (simp_all add: LimitsFromConfig_def)

section \<open>Keys never collide across limit types\<close>

definition limit_types :: "string set" where
  "limit_types = {LoginLimit, PasswordLimit, IPLimit}"

lemma colon_free: "lt \<in> limit_types \<Longrightarrow> CHR '':'' \<notin> set lt"
  by (auto simp: limit_types_def LoginLimit_def PasswordLimit_def IPLimit_def)

lemma bucket_key_inject:
  "lt \<in> limit_types \<Longrightarrow> lt' \<in> limit_types \<Longrightarrow>
    bucket_key lt k = bucket_key lt' k' \<longleftrightarrow> lt = lt' \<and> k = k'"
  using prefix_split_unique [of "CHR '':''" lt lt' k k'] colon_free
  by (simp add: bucket_key_def)

lemma LimitsFromConfig_dom: "dom (LimitsFromConfig cfg) = limit_types"
  by (auto simp: LimitsFromConfig_def limit_types_def split: if_splits)

section \<open>The checker over any store\<close>

context limiter_repo begin

lemma checker_inv:
  "inv w \<Longrightarrow> (\<And>r. limits lt = Some r \<Longrightarrow> ok m (Window r)) \<Longrightarrow>
    inv (snd (LimitChecker_Allow (NewLimitChecker repo limits) m lt key w))"
  "inv w \<Longrightarrow> inv (snd (LimitChecker_Reset (NewLimitChecker repo limits) lt key w))"
  by (auto simp: LimitChecker_Allow_def LimitChecker_Reset_def NewLimitChecker_def NewLimiter_def
      Limiter_Allow_def Limiter_Reset_def allow_inv reset_inv split: option.split)

text \<open>A checker's call reaches one key of the store.\<close>

lemma checker_frame:
  assumes "inv w" "dom limits \<subseteq> limit_types" "lt' \<in> limit_types" "(lt', key') \<noteq> (lt, key)"
  shows "(\<And>r. limits lt = Some r \<Longrightarrow> ok m (Window r)) \<Longrightarrow>
      used (snd (LimitChecker_Allow (NewLimitChecker repo limits) m lt key w)) (bucket_key lt' key')
      = used w (bucket_key lt' key')"
    and "used (snd (LimitChecker_Reset (NewLimitChecker repo limits) lt key w)) (bucket_key lt' key')
      = used w (bucket_key lt' key')"
  using assms bucket_key_inject [of lt' lt key' key]
  by (auto simp: LimitChecker_Allow_def LimitChecker_Reset_def NewLimitChecker_def NewLimiter_def
      Limiter_Allow_def Limiter_Reset_def allow_frame reset_frame split: option.split)

lemma checker_bound:
  assumes "inv w" "limits lt = Some r" "ok m (Window r)"
    and "LimitChecker_Allow (NewLimitChecker repo limits) m lt key w = (Inr True, w')"
  shows "int (used w' (bucket_key lt key) (horizon m (Window r))) \<le> Limit r"
  using assms allow_bound
  by (simp add: LimitChecker_Allow_def NewLimitChecker_def NewLimiter_def Limiter_Allow_def)

lemma checker_fresh:
  assumes "inv w" "limits lt = Some r" "ok m (Window r)" "0 < Limit r"
    and "\<And>c. used w (bucket_key lt key) c = 0"
  shows "fst (LimitChecker_Allow (NewLimitChecker repo limits) m lt key w) \<noteq> Inr False"
  using assms allow_fresh
  by (simp add: LimitChecker_Allow_def NewLimitChecker_def NewLimiter_def Limiter_Allow_def)

lemma checker_reset_clears:
  assumes "inv w" "limits lt = Some r"
    and "LimitChecker_Reset (NewLimitChecker repo limits) lt key w = (None, w')"
  shows "used w' (bucket_key lt key) c = 0"
  using assms reset_clears
  by (simp add: LimitChecker_Reset_def NewLimitChecker_def NewLimiter_def Limiter_Reset_def)

end

end
