(* ===== verification/Subnetlist.thy ===== *)
theory Subnetlist
  imports Abf_Contracts
begin

text \<open>
  \<open>internal/domain/subnetlist\<close>: the in-memory list of networks that the check reads, its loading
  from a store, and the policer that holds a white and a black list. The map of networks is an
  association list from the CIDR text to the parsed network; the scan of \<open>Contains\<close> does not
  depend on its order. The policer's store is passed to it with each call.
\<close>

section \<open>A list of networks\<close>

record SubnetList =
  listType :: ListType
  nets :: "(string \<times> IPNet) list"

definition NewSubnetList :: "ListType \<Rightarrow> SubnetList" where
  "NewSubnetList lt = \<lparr>listType = lt, nets = []\<rparr>"

definition SubnetList_Add :: "string \<Rightarrow> SubnetList \<Rightarrow> go_error option \<times> SubnetList" where
  "SubnetList_Add cidr nl =
     (case ParseCIDR cidr of
        Inl err \<Rightarrow> (Some (Join (Sentinel (SubnetlistErr ErrInvalidCIDR)) err), nl)
      | Inr (ip, ipnet) \<Rightarrow>
          if \<not> IP_Equal ip (net_IP ipnet) then (Some (Sentinel (SubnetlistErr ErrInvalidCIDR)), nl)
          else (None, nl\<lparr>nets := AList.update cidr ipnet (nets nl)\<rparr>))"

definition SubnetList_Contains :: "SubnetList \<Rightarrow> IP \<Rightarrow> bool" where
  "SubnetList_Contains nl ip = list_ex (\<lambda>n. IPNet_Contains n ip) (map snd (nets nl))"

definition SubnetList_Remove :: "string \<Rightarrow> SubnetList \<Rightarrow> SubnetList" where
  "SubnetList_Remove cidr nl = nl\<lparr>nets := AList.delete cidr (nets nl)\<rparr>"

definition SubnetList_Clear :: "SubnetList \<Rightarrow> SubnetList" where
  "SubnetList_Clear nl = nl\<lparr>nets := []\<rparr>"

text \<open>The loop of \<open>Load\<close>: it stops at the first text that \<open>Add\<close> refuses.\<close>

fun add_all :: "string list \<Rightarrow> SubnetList \<Rightarrow> go_error option \<times> SubnetList" where
  "add_all [] nl = (None, nl)"
| "add_all (cidr # cidrs) nl =
     (case SubnetList_Add cidr nl of
        (Some err, nl') \<Rightarrow> (Some err, nl')
      | (None, nl') \<Rightarrow> add_all cidrs nl')"

definition SubnetList_Load ::
  "'w SubnetRepo_port \<Rightarrow> range_order \<Rightarrow> SubnetList \<Rightarrow> 'w \<Rightarrow> (go_error option \<times> SubnetList) \<times> 'w" where
  "SubnetList_Load repo r nl w =
     (case repo_GetSubnetLists repo r (listType nl) w of
        (Inl err, w') \<Rightarrow> ((Some err, nl), w')
      | (Inr cidrs, w') \<Rightarrow> (add_all cidrs (SubnetList_Clear nl), w'))"

section \<open>The policer\<close>

record SubnetPolicer =
  pol_Whitelist :: "SubnetList option"
  pol_Blacklist :: "SubnetList option"

definition NewSubnetPolicer :: "SubnetPolicer result" where
  "NewSubnetPolicer =
     Inr \<lparr>pol_Whitelist = Some (NewSubnetList Whitelist), pol_Blacklist = Some (NewSubnetList Blacklist)\<rparr>"

definition list_holds :: "SubnetList option \<Rightarrow> IP \<Rightarrow> bool" where
  "list_holds l ip = (case l of None \<Rightarrow> False | Some nl \<Rightarrow> SubnetList_Contains nl ip)"

definition SubnetPolicer_Check :: "SubnetPolicer \<Rightarrow> IP \<Rightarrow> PolicyDecision" where
  "SubnetPolicer_Check sp ip =
     (if list_holds (pol_Whitelist sp) ip then DecisionAllow
      else if list_holds (pol_Blacklist sp) ip then DecisionDeny
      else DecisionContinue)"

text \<open>Loading one of the two lists, unless it is nil.\<close>

definition reload_list ::
  "string \<Rightarrow> 'w SubnetRepo_port \<Rightarrow> range_order \<Rightarrow> SubnetList option \<Rightarrow> 'w \<Rightarrow>
    (go_error option \<times> SubnetList option) \<times> 'w" where
  "reload_list what repo r l w =
     (case l of
        None \<Rightarrow> ((None, None), w)
      | Some nl \<Rightarrow>
          (case SubnetList_Load repo r nl w of
             ((err, nl'), w') \<Rightarrow> ((map_option (Wrapf what) err, Some nl'), w')))"

definition SubnetPolicer_ReloadSubnets ::
  "'w SubnetRepo_port \<Rightarrow> range_order \<Rightarrow> range_order \<Rightarrow> SubnetPolicer \<Rightarrow> 'w \<Rightarrow>
    (go_error option \<times> SubnetPolicer) \<times> 'w" where
  "SubnetPolicer_ReloadSubnets repo r1 r2 sp w =
     (case reload_list ''update whitelist'' repo r1 (pol_Whitelist sp) w of
        ((Some err, wl), w1) \<Rightarrow> ((Some err, sp\<lparr>pol_Whitelist := wl\<rparr>), w1)
      | ((None, wl), w1) \<Rightarrow>
          (case reload_list ''update blacklist'' repo r2 (pol_Blacklist sp) w1 of
             ((err, bl), w2) \<Rightarrow> ((err, sp\<lparr>pol_Whitelist := wl, pol_Blacklist := bl\<rparr>), w2)))"

section \<open>What a text stands for\<close>

text \<open>A text the list accepts, and the addresses it covers.\<close>

definition valid_cidr :: "string \<Rightarrow> bool" where
  "valid_cidr c = (case ParseCIDR c of Inl _ \<Rightarrow> False | Inr (ip, n) \<Rightarrow> IP_Equal ip (net_IP n))"

definition cidr_covers :: "string \<Rightarrow> IP \<Rightarrow> bool" where
  "cidr_covers c ip = (case ParseCIDR c of Inl _ \<Rightarrow> False | Inr (_, n) \<Rightarrow> IPNet_Contains n ip)"

definition texts :: "SubnetList \<Rightarrow> string set" where
  "texts nl = fst ` set (nets nl)"

text \<open>The invariant of a list: one network per text, the one the text stands for.\<close>

definition list_ok :: "SubnetList \<Rightarrow> bool" where
  "list_ok nl \<longleftrightarrow> distinct (map fst (nets nl)) \<and>
     (\<forall>(c, n) \<in> set (nets nl). \<exists>ip. ParseCIDR c = Inr (ip, n) \<and> IP_Equal ip (net_IP n))"

lemma SubnetList_Add_valid:
  "fst (SubnetList_Add c nl) = None \<longleftrightarrow> valid_cidr c"
  by (auto simp: SubnetList_Add_def valid_cidr_def split: sum.split)

lemma SubnetList_Add_error:
  "fst (SubnetList_Add c nl) = Some e \<Longrightarrow> errors_Is e (SubnetlistErr ErrInvalidCIDR) \<and> snd (SubnetList_Add c nl) = nl"
  by (auto simp: SubnetList_Add_def split: sum.splits if_splits)

lemma SubnetList_Add_texts:
  "texts (snd (SubnetList_Add c nl)) = (if valid_cidr c then insert c (texts nl) else texts nl)"
  by (auto simp: SubnetList_Add_def valid_cidr_def texts_def dom_update split: sum.split)

lemma SubnetList_Add_type [simp]: "listType (snd (SubnetList_Add c nl)) = listType nl"
  by (auto simp: SubnetList_Add_def split: sum.split)

lemma set_update_subset: "set (AList.update k v al) \<subseteq> insert (k, v) (set al)"
  by (induction al) (auto split: if_splits)

lemma list_ok_New [simp]: "list_ok (NewSubnetList lt)" "texts (NewSubnetList lt) = {}"
  by (simp_all add: list_ok_def texts_def NewSubnetList_def)

lemma list_ok_Clear [simp]: "list_ok (SubnetList_Clear nl)" "texts (SubnetList_Clear nl) = {}"
  "listType (SubnetList_Clear nl) = listType nl"
  by (simp_all add: list_ok_def texts_def SubnetList_Clear_def)

lemma list_ok_Add: "list_ok nl \<Longrightarrow> list_ok (snd (SubnetList_Add c nl))"
  using set_update_subset
  by (fastforce simp: SubnetList_Add_def list_ok_def distinct_update split: sum.split)

lemma list_ok_Remove: "list_ok nl \<Longrightarrow> list_ok (SubnetList_Remove c nl)"
  using distinct_delete [of "nets nl" c]
  by (auto simp: list_ok_def SubnetList_Remove_def AList.delete_eq)

lemma list_ok_cong [simp]: "list_ok (nl\<lparr>listType := lt\<rparr>) = list_ok nl"
  by (simp add: list_ok_def)

text \<open>A list that satisfies the invariant holds an address when one of its texts covers it.\<close>

lemma Contains_texts:
  assumes "list_ok nl"
  shows "SubnetList_Contains nl ip \<longleftrightarrow> (\<exists>c \<in> texts nl. cidr_covers c ip)"
proof
  assume "SubnetList_Contains nl ip"
  then obtain c n where n: "(c, n) \<in> set (nets nl)" "IPNet_Contains n ip"
    by (auto simp: SubnetList_Contains_def list_ex_iff)
  with assms obtain a where "ParseCIDR c = Inr (a, n)"
    by (fastforce simp: list_ok_def)
  with n show "\<exists>c \<in> texts nl. cidr_covers c ip"
    by (force simp: texts_def cidr_covers_def)
next
  assume "\<exists>c \<in> texts nl. cidr_covers c ip"
  then obtain c n where n: "(c, n) \<in> set (nets nl)" "cidr_covers c ip"
    by (auto simp: texts_def)
  with assms obtain a where "ParseCIDR c = Inr (a, n)"
    by (fastforce simp: list_ok_def)
  with n show "SubnetList_Contains nl ip"
    by (force simp: SubnetList_Contains_def list_ex_iff cidr_covers_def)
qed

lemma texts_valid: "list_ok nl \<Longrightarrow> c \<in> texts nl \<Longrightarrow> valid_cidr c"
  by (fastforce simp: list_ok_def texts_def valid_cidr_def)

lemma texts_Remove: "texts (SubnetList_Remove c nl) = texts nl - {c}"
proof -
  have "set (map fst (AList.delete c (nets nl))) = set (map fst (nets nl)) - {c}"
    by (simp only: delete_keys) (simp add: set_removeAll)
  then show ?thesis by (simp add: texts_def SubnetList_Remove_def)
qed

section \<open>Loading\<close>

lemma add_all_type [simp]: "listType (snd (add_all cs nl)) = listType nl"
proof (induction cs arbitrary: nl)
  case (Cons c cs)
  with Cons.IH [of "snd (SubnetList_Add c nl)"] SubnetList_Add_type [of c nl] show ?case
    by (cases "SubnetList_Add c nl") (auto simp del: SubnetList_Add_type split: option.split)
qed simp

lemma add_all_ok: "list_ok nl \<Longrightarrow> list_ok (snd (add_all cs nl))"
proof (induction cs arbitrary: nl)
  case (Cons c cs)
  from Cons.prems have "list_ok (snd (SubnetList_Add c nl))" by (rule list_ok_Add)
  with Cons.IH [of "snd (SubnetList_Add c nl)"] show ?case
    by (cases "SubnetList_Add c nl") (auto split: option.split)
qed simp

text \<open>
  The loop takes the texts up to the first invalid one. It succeeds when there is none, and
  otherwise its error is \<open>ErrInvalidCIDR\<close>.
\<close>

lemma add_all_texts:
  "texts (snd (add_all cs nl)) = texts nl \<union> set (takeWhile valid_cidr cs)"
proof (induction cs arbitrary: nl)
  case (Cons c cs)
  obtain e nl' where a: "SubnetList_Add c nl = (e, nl')" by (cases "SubnetList_Add c nl")
  have "e = None \<longleftrightarrow> valid_cidr c" "texts nl' = (if valid_cidr c then insert c (texts nl) else texts nl)"
    using SubnetList_Add_valid [of c nl] SubnetList_Add_texts [of c nl] by (simp_all add: a)
  with Cons.IH [of nl'] show ?case
    by (auto simp: a split: option.split)
qed simp

lemma add_all_result:
  "fst (add_all cs nl) = None \<longleftrightarrow> (\<forall>c \<in> set cs. valid_cidr c)"
proof (induction cs arbitrary: nl)
  case (Cons c cs)
  obtain e nl' where a: "SubnetList_Add c nl = (e, nl')" by (cases "SubnetList_Add c nl")
  with SubnetList_Add_valid [of c nl] Cons.IH [of nl'] show ?case
    by (auto split: option.split)
qed simp

lemma add_all_error:
  "fst (add_all cs nl) = Some e \<Longrightarrow> errors_Is e (SubnetlistErr ErrInvalidCIDR)"
proof (induction cs arbitrary: nl)
  case (Cons c cs)
  obtain e' nl' where a: "SubnetList_Add c nl = (e', nl')" by (cases "SubnetList_Add c nl")
  with Cons.IH [of nl'] Cons.prems SubnetList_Add_error [of c nl] show ?case
    by (cases e') auto
qed simp

definition policer_wired :: "SubnetPolicer \<Rightarrow> bool" where
  "policer_wired sp \<longleftrightarrow>
     (\<exists>wl bl. sp = \<lparr>pol_Whitelist = Some wl, pol_Blacklist = Some bl\<rparr> \<and>
       listType wl = Whitelist \<and> listType bl = Blacklist \<and> list_ok wl \<and> list_ok bl)"

definition white_texts :: "SubnetPolicer \<Rightarrow> string set" where
  "white_texts sp = (case pol_Whitelist sp of None \<Rightarrow> {} | Some nl \<Rightarrow> texts nl)"

definition black_texts :: "SubnetPolicer \<Rightarrow> string set" where
  "black_texts sp = (case pol_Blacklist sp of None \<Rightarrow> {} | Some nl \<Rightarrow> texts nl)"

text \<open>The decision a pair of sets of texts asks for: the white list wins.\<close>

definition decide :: "string set \<Rightarrow> string set \<Rightarrow> IP \<Rightarrow> PolicyDecision" where
  "decide W B ip =
     (if \<exists>c \<in> W. cidr_covers c ip then DecisionAllow
      else if \<exists>c \<in> B. cidr_covers c ip then DecisionDeny
      else DecisionContinue)"

lemma NewSubnetPolicer_wired:
  "NewSubnetPolicer = Inr sp \<Longrightarrow> policer_wired sp \<and> white_texts sp = {} \<and> black_texts sp = {}"
  by (auto simp: policer_wired_def NewSubnetPolicer_def white_texts_def black_texts_def NewSubnetList_def
      texts_def list_ok_def)

lemma Check_decides:
  "policer_wired sp \<Longrightarrow> SubnetPolicer_Check sp ip = decide (white_texts sp) (black_texts sp) ip"
  by (auto simp: policer_wired_def SubnetPolicer_Check_def list_holds_def decide_def
      white_texts_def black_texts_def Contains_texts)

context subnet_repo
begin

text \<open>
  What a load does, for every store that keeps the contract: a failed read changes nothing; a
  successful one replaces the list by the valid texts up to the first invalid one.
\<close>

lemma Load_cases:
  assumes "inv w" "fair_order r" "list_ok nl" "SubnetList_Load repo r nl w = ((err, nl'), w')"
  shows "inv w' \<and> cidrs w' = cidrs w \<and> list_ok nl' \<and> listType nl' = listType nl \<and>
    (case err of
       None \<Rightarrow> texts nl' = cidrs w (listType nl) \<and> (\<forall>c \<in> cidrs w (listType nl). valid_cidr c)
     | Some e \<Rightarrow>
        (nl' = nl \<and> fst (repo_GetSubnetLists repo r (listType nl) w) = Inl e) \<or>
        (errors_Is e (SubnetlistErr ErrInvalidCIDR) \<and> texts nl' \<subset> cidrs w (listType nl) \<and>
          (\<exists>c \<in> cidrs w (listType nl). \<not> valid_cidr c)))"
proof -
  let ?lt = "listType nl"
  obtain res w1 where g: "repo_GetSubnetLists repo r ?lt w = (res, w1)"
    by (cases "repo_GetSubnetLists repo r ?lt w")
  have inv1: "inv w1" and same: "cidrs w1 = cidrs w"
    using get_inv [OF assms(1), of r ?lt] get_pure [OF assms(1), of r ?lt] by (simp_all add: g)
  show ?thesis
  proof (cases res)
    case (Inl e)
    with assms(4) have "err = Some e" "nl' = nl" "w' = w1"
      by (auto simp: SubnetList_Load_def g)
    moreover have "fst (repo_GetSubnetLists repo r ?lt w) = Inl e"
      by (simp add: g Inl)
    moreover note assms(3) inv1 same
    ultimately show ?thesis by simp
  next
    case (Inr cs)
    let ?run = "add_all cs (SubnetList_Clear nl)"
    from assms(4) Inr have res: "err = fst ?run" "nl' = snd ?run" "w' = w1"
      by (auto simp: SubnetList_Load_def g)
    have cs: "set cs = cidrs w ?lt"
      using get_list [OF assms(1,2) g [unfolded Inr]] .
    have keep: "list_ok nl' \<and> listType nl' = listType nl"
      unfolding res using add_all_ok [of "SubnetList_Clear nl" cs] by simp
    show ?thesis
    proof (cases err)
      case None
      then have "\<forall>c \<in> set cs. valid_cidr c"
        using add_all_result [of cs "SubnetList_Clear nl"] res by simp
      moreover from this have "texts nl' = set cs"
        by (metis Un_empty_left add_all_texts list_ok_Clear(2) res(2) takeWhile_eq_all_conv)
      ultimately show ?thesis
        using None keep inv1 same res(3) by (simp add: cs)
    next
      case (Some e)
      then obtain c where c: "c \<in> set cs" "\<not> valid_cidr c"
        using add_all_result [of cs "SubnetList_Clear nl"] res by auto
      then have "texts nl' \<subset> cidrs w ?lt"
        using set_takeWhileD [of _ valid_cidr cs] by (auto simp: res add_all_texts simp flip: cs)
      moreover have "errors_Is e (SubnetlistErr ErrInvalidCIDR)"
        using Some add_all_error [of cs "SubnetList_Clear nl" e] res by simp
      ultimately show ?thesis
        using Some c keep inv1 same res(3) by (auto simp: cs)
    qed
  qed
qed

lemma reload_cases:
  assumes "inv w" "fair_order r1" "fair_order r2" "policer_wired sp"
    and "SubnetPolicer_ReloadSubnets repo r1 r2 sp w = ((err, sp'), w')"
  shows "inv w' \<and> cidrs w' = cidrs w \<and> policer_wired sp' \<and>
    (err = None \<longrightarrow> white_texts sp' = cidrs w Whitelist \<and> black_texts sp' = cidrs w Blacklist \<and>
      (\<forall>c \<in> cidrs w Whitelist \<union> cidrs w Blacklist. valid_cidr c))"
proof -
  from assms(4) obtain wl bl where sp: "sp = \<lparr>pol_Whitelist = Some wl, pol_Blacklist = Some bl\<rparr>"
      and wl: "listType wl = Whitelist" "list_ok wl" and bl: "listType bl = Blacklist" "list_ok bl"
    by (auto simp: policer_wired_def)
  obtain e1 wl1 w1 where l1: "SubnetList_Load repo r1 wl w = ((e1, wl1), w1)"
    by (metis prod.exhaust)
  note c1 = Load_cases [OF assms(1,2) wl(2) l1, unfolded wl(1)]
  show ?thesis
  proof (cases e1)
    case (Some e)
    with assms(5) have "err \<noteq> None" "w' = w1" "sp' = \<lparr>pol_Whitelist = Some wl1, pol_Blacklist = Some bl\<rparr>"
      by (auto simp: SubnetPolicer_ReloadSubnets_def reload_list_def sp l1)
    with c1 bl show ?thesis by (auto simp: policer_wired_def)
  next
    case None
    obtain e2 bl2 w2 where l2: "SubnetList_Load repo r2 bl w1 = ((e2, bl2), w2)"
      by (metis prod.exhaust)
    from c1 have "inv w1" by blast
    note c2 = Load_cases [OF this assms(3) bl(2) l2, unfolded bl(1)]
    from None assms(5) have "err = map_option (Wrapf ''update blacklist'') e2" "w' = w2"
      "sp' = \<lparr>pol_Whitelist = Some wl1, pol_Blacklist = Some bl2\<rparr>"
      by (auto simp: SubnetPolicer_ReloadSubnets_def reload_list_def sp l1 l2)
    with None c1 c2 show ?thesis
      by (auto simp: policer_wired_def white_texts_def black_texts_def)
  qed
qed

text \<open>A reload that reports success makes the check agree with the store.\<close>

lemma reload_then_check:
  assumes "inv w" "fair_order r1" "fair_order r2" "policer_wired sp"
    and "SubnetPolicer_ReloadSubnets repo r1 r2 sp w = ((None, sp'), w')"
  shows "SubnetPolicer_Check sp' ip = decide (cidrs w Whitelist) (cidrs w Blacklist) ip"
  using reload_cases [OF assms] Check_decides [of sp' ip] by simp

text \<open>
  One invalid text in the stored white list is enough for every reload to fail before it reads the
  black list.
\<close>

lemma reload_poisoned:
  assumes "inv w" "fair_order r1" "policer_wired sp" "c \<in> cidrs w Whitelist" "\<not> valid_cidr c"
    and "fst (repo_GetSubnetLists repo r1 Whitelist w) = Inr cs"
    and "SubnetPolicer_ReloadSubnets repo r1 r2 sp w = ((err, sp'), w')"
  shows "(\<exists>e. err = Some e \<and> errors_Is e (SubnetlistErr ErrInvalidCIDR)) \<and>
    black_texts sp' = black_texts sp \<and> white_texts sp' \<subset> cidrs w Whitelist"
proof -
  from assms(3) obtain wl bl where sp: "sp = \<lparr>pol_Whitelist = Some wl, pol_Blacklist = Some bl\<rparr>"
      and wl: "listType wl = Whitelist" "list_ok wl"
    by (auto simp: policer_wired_def)
  obtain e1 wl1 w1 where l1: "SubnetList_Load repo r1 wl w = ((e1, wl1), w1)"
    by (metis prod.exhaust)
  from Load_cases [OF assms(1,2) wl(2) l1, unfolded wl(1)] assms(4-6) obtain e where
    e: "e1 = Some e" "errors_Is e (SubnetlistErr ErrInvalidCIDR)" "texts wl1 \<subset> cidrs w Whitelist"
    by (cases e1) auto
  with assms(7) show ?thesis
    by (auto simp: SubnetPolicer_ReloadSubnets_def reload_list_def sp l1 white_texts_def black_texts_def)
qed

end

section \<open>Properties of a list\<close>

text \<open>Runs of the operations of a list, and what they do to the set of texts.\<close>

datatype list_op = LAdd string | LRemove string | LClear

fun list_op_run :: "list_op \<Rightarrow> SubnetList \<Rightarrow> SubnetList" where
  "list_op_run (LAdd c) nl = snd (SubnetList_Add c nl)"
| "list_op_run (LRemove c) nl = SubnetList_Remove c nl"
| "list_op_run LClear nl = SubnetList_Clear nl"

fun text_op_run :: "list_op \<Rightarrow> string set \<Rightarrow> string set" where
  "text_op_run (LAdd c) S = (if valid_cidr c then insert c S else S)"
| "text_op_run (LRemove c) S = S - {c}"
| "text_op_run LClear S = {}"

lemma list_op_refines:
  "list_ok nl \<Longrightarrow> list_ok (list_op_run e nl) \<and> texts (list_op_run e nl) = text_op_run e (texts nl)"
  by (cases e) (simp_all add: list_ok_Add list_ok_Remove SubnetList_Add_texts texts_Remove)

lemma list_ops_refine:
  "list_ok nl \<Longrightarrow> list_ok (fold list_op_run es nl) \<and>
    texts (fold list_op_run es nl) = fold text_op_run es (texts nl)"
  by (induction es arbitrary: nl) (simp_all add: list_op_refines)

lemma cidr_covers_v4:
  assumes "length b = 4" "unat k \<le> 32"
  shows "cidr_covers (string4 b @ CHR ''/'' # appendDecimal k) x \<longleftrightarrow>
    (\<exists>y. To4 x = Some y \<and> addr_num y div 2 ^ (32 - unat k) = addr_num b div 2 ^ (32 - unat k))"
  using contains_iff_leading_bits [OF assms] by (simp add: cidr_covers_def ParseCIDR_v4 [OF assms])

lemma valid_cidr_v4:
  assumes "length b = 4" "unat k \<le> 32"
  shows "valid_cidr (string4 b @ CHR ''/'' # appendDecimal k) \<longleftrightarrow> addr_num b mod 2 ^ (32 - unat k) = 0"
  using masked_self_iff [of b 4 "unat k"] assms
  by (auto simp: valid_cidr_def ParseCIDR_v4 [OF assms] IP_Equal_def CIDRMask_def)

text \<open>
  C15. After any run of additions, removals and clears the list holds exactly the addresses covered
  by a text that was validly added and not removed or cleared since: a refused text leaves no
  trace, and the scan finds a network wherever it is in the map.
\<close>

theorem list_holds_exactly:
  "SubnetList_Contains (fold list_op_run es (NewSubnetList lt)) ip \<longleftrightarrow>
    (\<exists>c. c \<in> fold text_op_run es {} \<and> cidr_covers c ip)"
  using list_ops_refine [of "NewSubnetList lt" es]
    Contains_texts [of "fold list_op_run es (NewSubnetList lt)" ip] by auto

text \<open>
  C14. An IPv4 network \<open>b/k\<close> is accepted exactly when the host bits of \<open>b\<close> are zero, and adding it
  extends the list by exactly the addresses, plain or IPv4-mapped, whose leading \<open>k\<close> bits are
  those of \<open>b\<close>; a refused one is reported as \<open>ErrInvalidCIDR\<close> and extends it by nothing.
\<close>

theorem add_ipv4_network:
  assumes "length b = 4" "unat k \<le> 32" "list_ok nl"
    and "SubnetList_Add (string4 b @ CHR ''/'' # appendDecimal k) nl = (err, nl')"
  shows "(err = None \<longleftrightarrow> addr_num b mod 2 ^ (32 - unat k) = 0) \<and>
    (err = None \<or> (\<exists>e. err = Some e \<and> errors_Is e (SubnetlistErr ErrInvalidCIDR) \<and> nl' = nl)) \<and>
    (SubnetList_Contains nl' x \<longleftrightarrow> SubnetList_Contains nl x \<or>
      (err = None \<and>
        (\<exists>y. To4 x = Some y \<and> addr_num y div 2 ^ (32 - unat k) = addr_num b div 2 ^ (32 - unat k))))"
proof -
  let ?c = "string4 b @ CHR ''/'' # appendDecimal k"
  have err: "err = None \<longleftrightarrow> valid_cidr ?c"
    using SubnetList_Add_valid [of ?c nl] assms(4) by simp
  moreover have "texts nl' = (if valid_cidr ?c then insert ?c (texts nl) else texts nl)" "list_ok nl'"
    using SubnetList_Add_texts [of ?c nl] list_ok_Add [OF assms(3), of ?c] assms(4) by simp_all
  moreover have "errors_Is e (SubnetlistErr ErrInvalidCIDR) \<and> nl' = nl" if "err = Some e" for e
    using SubnetList_Add_error [of ?c nl e] assms(4) that by simp
  ultimately show ?thesis
    using assms(3) valid_cidr_v4 [OF assms(1,2)] cidr_covers_v4 [OF assms(1,2), of x]
    by (cases err) (auto simp: Contains_texts)
qed

theorem add_ipv4_network_witness:
  "fst (SubnetList_Add ''10.1.0.0/16'' (NewSubnetList Whitelist)) = None \<and>
   SubnetList_Contains (snd (SubnetList_Add ''10.1.0.0/16'' (NewSubnetList Whitelist))) [10, 1, 255, 7] \<and>
   \<not> SubnetList_Contains (snd (SubnetList_Add ''10.1.0.0/16'' (NewSubnetList Whitelist))) [10, 2, 0, 0] \<and>
   fst (SubnetList_Add ''10.1.0.0/12'' (NewSubnetList Whitelist)) \<noteq> None"
proof -
  have spell: "string4 [10, 1, 0, 0] @ CHR ''/'' # appendDecimal 16 = ''10.1.0.0/16''"
    "string4 [10, 1, 0, 0] @ CHR ''/'' # appendDecimal 12 = ''10.1.0.0/12''"
    by (simp_all add: appendDecimal_def digit_char_def char_of_def bit_0)
  have empty: "\<not> SubnetList_Contains (NewSubnetList Whitelist) x" for x
    by (simp add: SubnetList_Contains_def NewSubnetList_def)
  let ?wide = "SubnetList_Add ''10.1.0.0/12'' (NewSubnetList Whitelist)"
    and ?net = "SubnetList_Add ''10.1.0.0/16'' (NewSubnetList Whitelist)"
  have runs: "SubnetList_Add (string4 [10, 1, 0, 0] @ CHR ''/'' # appendDecimal 16) (NewSubnetList Whitelist) =
      (fst ?net, snd ?net)"
    "SubnetList_Add (string4 [10, 1, 0, 0] @ CHR ''/'' # appendDecimal 12) (NewSubnetList Whitelist) =
      (fst ?wide, snd ?wide)"
    by (simp_all only: spell prod.collapse)
  note net = add_ipv4_network [OF _ _ list_ok_New(1) runs(1)]
    and wide = add_ipv4_network [OF _ _ list_ok_New(1) runs(2)]
  from net [of "[10, 1, 255, 7]"] net [of "[10, 2, 0, 0]"] wide [of "[10, 2, 0, 0]"]
  show ?thesis by (simp add: empty To4_def)
qed

text \<open>
  C19. Networks are kept under the text they were added with, so removing a network under
  another spelling leaves it in effect. The witness removes \<open>10.0.0.0/08\<close> from a list that holds
  \<open>10.0.0.0/8\<close>: both texts stand for the same network.
\<close>

theorem other_spelling_stays:
  assumes "list_ok nl" "c \<in> texts nl" "cidr_covers c ip" "c' \<noteq> c"
  shows "SubnetList_Contains (SubnetList_Remove c' nl) ip"
  using Contains_texts [OF list_ok_Remove [OF assms(1)], of c' ip] assms(2-4)
  by (auto simp: texts_Remove)

theorem other_spelling_stays_witness:
  "snd (projr (ParseCIDR ''10.0.0.0/08'')) = snd (projr (ParseCIDR ''10.0.0.0/8'')) \<and>
   SubnetList_Contains (SubnetList_Remove ''10.0.0.0/08''
     (snd (SubnetList_Add ''10.0.0.0/8'' (NewSubnetList Blacklist)))) [10, 1, 2, 3]"
proof -
  have parse: "ParseCIDR ''10.0.0.0/8'' =
      Inr (v4InV6Prefix @ [10, 0, 0, 0], \<lparr>net_IP = [10, 0, 0, 0], net_Mask = [255, 0, 0, 0]\<rparr>)"
    "ParseCIDR ''10.0.0.0/08'' =
      Inr (v4InV6Prefix @ [10, 0, 0, 0], \<lparr>net_IP = [10, 0, 0, 0], net_Mask = [255, 0, 0, 0]\<rparr>)"
    by (simp_all add: ParseCIDR_def ParseAddr_def parseIPv4_def digit_val_def Let_def CIDRMask_def)
  have valid: "valid_cidr ''10.0.0.0/8''"
    by (simp add: valid_cidr_def parse IP_Equal_def)
  have covers: "cidr_covers ''10.0.0.0/8'' [10, 1, 2, 3]"
    by (simp add: cidr_covers_def parse IPNet_Contains_def networkNumberAndMask_def To4_def)
  have texts: "texts (snd (SubnetList_Add ''10.0.0.0/8'' (NewSubnetList Blacklist))) = {''10.0.0.0/8''}"
    by (simp only: SubnetList_Add_texts valid if_True list_ok_New)
  show ?thesis
    using other_spelling_stays [OF list_ok_Add [OF list_ok_New(1)], of "''10.0.0.0/8''"
        "''10.0.0.0/8''" Blacklist "[10, 1, 2, 3]" "''10.0.0.0/08''"] texts covers
    by (simp add: parse)
qed

text \<open>A network and a text that is none, for the examples of the other theories.\<close>

lemma witness_net:
  "ParseCIDR ''10.0.0.0/8'' =
    Inr (v4InV6Prefix @ [10, 0, 0, 0], \<lparr>net_IP = [10, 0, 0, 0], net_Mask = [255, 0, 0, 0]\<rparr>)"
  by (simp add: ParseCIDR_def ParseAddr_def parseIPv4_def digit_val_def Let_def CIDRMask_def)

lemma witness_net_facts:
  "valid_cidr ''10.0.0.0/8''" "cidr_covers ''10.0.0.0/8'' (v4InV6Prefix @ [10, 1, 2, 3])"
  "ParseIP ''10.1.2.3'' = Some (v4InV6Prefix @ [10, 1, 2, 3])" "\<not> valid_cidr ''10.0.0.0''"
  by (simp_all add: valid_cidr_def cidr_covers_def witness_net IP_Equal_def IPNet_Contains_def
      networkNumberAndMask_def ParseIP_def ParseAddr_def parseIPv4_def digit_val_def Let_def)
    (simp add: ParseCIDR_def Let_def)

end
