(* ===== verification/Go_Sha256.thy ===== *)
theory Go_Sha256
  imports Abf_Prelude "HOL-Library.Word"
begin

unbundle bit_operations_syntax

text \<open>
  \<open>crypto/sha256.Sum256\<close> and the \<open>%x\<close> verb of \<open>fmt\<close> on a byte array: the standard library's part
  of \<open>hashPassword\<close>. A Go string is a sequence of bytes, here the characters of a \<open>string\<close>. No
  collision resistance is assumed anywhere; what the proofs use is that the digest is a function
  of the password and prints as 64 hexadecimal digits.
\<close>

section \<open>The compression function\<close>

type_synonym word32 = "32 word"

text \<open>The round constants of the algorithm, in decimal.\<close>

definition sha256_K :: "word32 list" where
  "sha256_K =
    [1116352408, 1899447441, 3049323471, 3921009573, 961987163, 1508970993,
     2453635748, 2870763221, 3624381080, 310598401, 607225278, 1426881987,
     1925078388, 2162078206, 2614888103, 3248222580, 3835390401, 4022224774,
     264347078, 604807628, 770255983, 1249150122, 1555081692, 1996064986,
     2554220882, 2821834349, 2952996808, 3210313671, 3336571891, 3584528711,
     113926993, 338241895, 666307205, 773529912, 1294757372, 1396182291,
     1695183700, 1986661051, 2177026350, 2456956037, 2730485921, 2820302411,
     3259730800, 3345764771, 3516065817, 3600352804, 4094571909, 275423344,
     430227734, 506948616, 659060556, 883997877, 958139571, 1322822218,
     1537002063, 1747873779, 1955562222, 2024104815, 2227730452, 2361852424,
     2428436474, 2756734187, 3204031479, 3329325298]"

type_synonym sha_state =
  "word32 \<times> word32 \<times> word32 \<times> word32 \<times> word32 \<times> word32 \<times> word32 \<times> word32"

definition sha256_init :: sha_state where
  "sha256_init =
     (0x6a09e667, 0xbb67ae85, 0x3c6ef372, 0xa54ff53a, 0x510e527f, 0x9b05688c, 0x1f83d9ab, 0x5be0cd19)"

fun be_words :: "8 word list \<Rightarrow> word32 list" where
  "be_words (a # b # c # d # bs) =
     (push_bit 24 (ucast a) OR push_bit 16 (ucast b) OR push_bit 8 (ucast c) OR ucast d) # be_words bs"
| "be_words _ = []"

text \<open>The message schedule: words 16 to 63 from the 16 words of a block.\<close>

definition schedule :: "word32 list \<Rightarrow> word32 list" where
  "schedule block =
     fold (\<lambda>i w.
       let v1 = w ! (i - 2); t1 = word_rotr 17 v1 XOR word_rotr 19 v1 XOR drop_bit 10 v1;
           v2 = w ! (i - 15); t2 = word_rotr 7 v2 XOR word_rotr 18 v2 XOR drop_bit 3 v2
       in w @ [t1 + w ! (i - 7) + t2 + w ! (i - 16)]) [16..<64] block"

fun sha_round :: "word32 \<times> word32 \<Rightarrow> sha_state \<Rightarrow> sha_state" where
  "sha_round (k, w) (a, b, c, d, e, f, g, h) =
     (let t1 = h + (word_rotr 6 e XOR word_rotr 11 e XOR word_rotr 25 e)
                 + ((e AND f) XOR (NOT e AND g)) + k + w;
          t2 = (word_rotr 2 a XOR word_rotr 13 a XOR word_rotr 22 a)
                 + ((a AND b) XOR (a AND c) XOR (b AND c))
      in (t1 + t2, a, b, c, d + t1, e, f, g))"

fun add_states :: "sha_state \<Rightarrow> sha_state \<Rightarrow> sha_state" where
  "add_states (a, b, c, d, e, f, g, h) (a', b', c', d', e', f', g', h') =
     (a + a', b + b', c + c', d + d', e + e', f + f', g + g', h + h')"

definition sha_block :: "8 word list \<Rightarrow> sha_state \<Rightarrow> sha_state" where
  "sha_block bs s = add_states s (fold sha_round (zip sha256_K (schedule (be_words bs))) s)"

function sha_blocks :: "8 word list \<Rightarrow> sha_state \<Rightarrow> sha_state" where
  "sha_blocks bs s = (if length bs < 64 then s else sha_blocks (drop 64 bs) (sha_block (take 64 bs) s))"
  by pat_completeness auto
termination
  by (relation "measure (\<lambda>(bs, s). length bs)") auto

declare sha_blocks.simps [simp del]

section \<open>Digest and text\<close>

definition be_bytes :: "nat \<Rightarrow> nat \<Rightarrow> 8 word list" where
  "be_bytes l n = map (\<lambda>i. of_nat (n div 256 ^ (l - 1 - i))) [0..<l]"

definition sha_pad :: "8 word list \<Rightarrow> 8 word list" where
  "sha_pad msg = msg @ [0x80] @ replicate ((119 - length msg mod 64) mod 64) 0 @ be_bytes 8 (8 * length msg)"

fun state_bytes :: "sha_state \<Rightarrow> 8 word list" where
  "state_bytes (a, b, c, d, e, f, g, h) = concat (map (\<lambda>w. be_bytes 4 (unat w)) [a, b, c, d, e, f, g, h])"

definition Sum256 :: "string \<Rightarrow> 8 word list" where
  "Sum256 s = state_bytes (sha_blocks (sha_pad (map (\<lambda>c. of_nat (of_char c)) s)) sha256_init)"

definition hex_digit :: "nat \<Rightarrow> char" where
  "hex_digit d = (if d < 10 then char_of (48 + d) else char_of (87 + d))"

definition Sprintf_x :: "8 word list \<Rightarrow> string" where
  "Sprintf_x bs = concat (map (\<lambda>b. [hex_digit (unat b div 16), hex_digit (unat b mod 16)]) bs)"

lemma length_Sprintf_x [simp]: "length (Sprintf_x bs) = 2 * length bs"
  by (induction bs) (simp_all add: Sprintf_x_def)

lemma length_Sum256 [simp]: "length (Sum256 s) = 32"
proof -
  have "length (state_bytes t) = 32" for t
    by (cases t rule: state_bytes.cases) (simp add: be_bytes_def)
  then show ?thesis by (simp add: Sum256_def)
qed

text \<open>The padded message is a whole number of blocks, so no byte of it is dropped.\<close>

lemma sha_pad_blocks: "length (sha_pad msg) mod 64 = 0"
proof -
  define x where "x = length msg mod 64"
  have "x < 64" by (simp add: x_def)
  then have total: "9 + x + (119 - x) = 128" by simp
  have "(length msg + (9 + (119 - x) mod 64)) mod 64 = (length msg + (9 + (119 - x))) mod 64"
    by (simp only: add.assoc [symmetric] mod_add_right_eq)
  also have "\<dots> = (x + (9 + (119 - x))) mod 64"
    unfolding x_def by (simp only: mod_add_left_eq)
  also have "x + (9 + (119 - x)) = 128"
    using total by simp
  finally show ?thesis
    by (simp add: sha_pad_def be_bytes_def x_def)
qed

end
