(* ===== verification/Rate_Service.thy ===== *)
theory Rate_Service
  imports Ratelimit Subnetlist Go_Sha256
begin

text \<open>
  \<open>internal/app/ratelimit_service.go\<close>: the decision on one attempt. The policer is asked first; only
  an address on neither list is counted, against the login, the hash of the password and the
  printed address, in that order and stopping at the first refusal. The policer the service creates
  is an object of the heap: \<open>get\<close> and \<open>put\<close> say where the world keeps it.
\<close>

section \<open>The policer behind its port\<close>

definition SubnetPolicer_as_port ::
  "('w \<Rightarrow> SubnetPolicer) \<Rightarrow> (SubnetPolicer \<Rightarrow> 'w \<Rightarrow> 'w) \<Rightarrow> 'w SubnetRepo_port \<Rightarrow> 'w SubnetPolicer_port" where
  "SubnetPolicer_as_port get put repo =
     \<lparr>holder_ReloadSubnets = (\<lambda>r1 r2 w.
        case SubnetPolicer_ReloadSubnets repo r1 r2 (get w) w of
          ((err, sp), w') \<Rightarrow> (err, put sp w')),
      policer_Check = (\<lambda>ip w. SubnetPolicer_Check (get w) ip)\<rparr>"

section \<open>The service\<close>

record 'w RateLimiterService =
  subnetPolicer :: "'w SubnetPolicer_port"
  limitChecker :: "'w LimitChecker_port"

definition NewRateLimiterService ::
  "('w \<Rightarrow> SubnetPolicer) \<Rightarrow> (SubnetPolicer \<Rightarrow> 'w \<Rightarrow> 'w) \<Rightarrow> 'w SubnetRepo_port \<Rightarrow>
    'w LimiterRepo_port \<Rightarrow> config_Limits \<Rightarrow> 'w \<Rightarrow> 'w RateLimiterService result \<times> 'w" where
  "NewRateLimiterService get put subnetRepo limitRepo cfg w =
     (case NewSubnetPolicer of
        Inl err \<Rightarrow> (Inl (Wrapf ''subnet policy init'' err), w)
      | Inr sp \<Rightarrow>
          (let limits = LimitsFromConfig cfg;
               checker = NewLimitChecker limitRepo limits
           in (Inr \<lparr>subnetPolicer = SubnetPolicer_as_port get put subnetRepo,
                    limitChecker = LimitChecker_as_port checker\<rparr>,
               put sp w)))"

definition RateLimiterService_Init ::
  "'w RateLimiterService \<Rightarrow> range_order \<Rightarrow> range_order \<Rightarrow> 'w \<Rightarrow> go_error option \<times> 'w" where
  "RateLimiterService_Init s r1 r2 w =
     (case holder_ReloadSubnets (subnetPolicer s) r1 r2 w of
        (Some err, w') \<Rightarrow> (Some (Wrapf ''initial subnet lists load'' err), w')
      | (None, w') \<Rightarrow> (None, w'))"

definition hashPassword :: "string \<Rightarrow> string" where
  "hashPassword password = Sprintf_x (Sum256 password)"

text \<open>What the host answers to the three calls of the store.\<close>

record moments =
  at_login :: moment
  at_password :: moment
  at_ip :: moment

definition RateLimiterService_Check ::
  "'w RateLimiterService \<Rightarrow> moments \<Rightarrow> string \<Rightarrow> string \<Rightarrow> IP \<Rightarrow> 'w \<Rightarrow> bool result \<times> 'w" where
  "RateLimiterService_Check s m login password ip w =
     (case policer_Check (subnetPolicer s) ip w of
        DecisionDeny \<Rightarrow> (Inr False, w)
      | DecisionAllow \<Rightarrow> (Inr True, w)
      | DecisionContinue \<Rightarrow>
          let passwordHash = hashPassword password in
          case checker_Allow (limitChecker s) (at_login m) LoginLimit login w of
            (Inl err, w1) \<Rightarrow> (Inl err, w1)
          | (Inr okLogin, w1) \<Rightarrow>
              if \<not> okLogin then (Inr False, w1)
              else case checker_Allow (limitChecker s) (at_password m) PasswordLimit passwordHash w1 of
                (Inl err, w2) \<Rightarrow> (Inl err, w2)
              | (Inr okPassword, w2) \<Rightarrow>
                  if \<not> okPassword then (Inr False, w2)
                  else case checker_Allow (limitChecker s) (at_ip m) IPLimit (IP_String ip) w2 of
                    (Inl err, w3) \<Rightarrow> (Inl err, w3)
                  | (Inr okIP, w3) \<Rightarrow> if \<not> okIP then (Inr False, w3) else (Inr True, w3))"

definition RateLimiterService_Reset ::
  "'w RateLimiterService \<Rightarrow> string \<Rightarrow> string \<Rightarrow> IP \<Rightarrow> 'w \<Rightarrow> go_error option \<times> 'w" where
  "RateLimiterService_Reset s login password ip w =
     (let passwordHash = hashPassword password in
      case checker_Reset (limitChecker s) LoginLimit login w of
        (Some err, w1) \<Rightarrow> (Some err, w1)
      | (None, w1) \<Rightarrow>
          (case checker_Reset (limitChecker s) PasswordLimit passwordHash w1 of
             (Some err, w2) \<Rightarrow> (Some err, w2)
           | (None, w2) \<Rightarrow>
               (case checker_Reset (limitChecker s) IPLimit (IP_String ip) w2 of
                  (Some err, w3) \<Rightarrow> (Some err, w3)
                | (None, w3) \<Rightarrow> (None, w3))))"

definition RateLimiterService_ReloadSubnets ::
  "'w RateLimiterService \<Rightarrow> range_order \<Rightarrow> range_order \<Rightarrow> 'w \<Rightarrow> go_error option \<times> 'w" where
  "RateLimiterService_ReloadSubnets s r1 r2 w = holder_ReloadSubnets (subnetPolicer s) r1 r2 w"

text \<open>The service as a holder of subnets, and as the use case of the gRPC server.\<close>

definition RateLimiterService_as_holder :: "'w RateLimiterService \<Rightarrow> 'w SubnetHolder_port" where
  "RateLimiterService_as_holder s = \<lparr>holder_ReloadSubnets = RateLimiterService_ReloadSubnets s\<rparr>"

record 'w RateLimiterUseCase =
  usecase_Check :: "moments \<Rightarrow> string \<Rightarrow> string \<Rightarrow> IP \<Rightarrow> 'w \<Rightarrow> bool result \<times> 'w"
  usecase_Reset :: "string \<Rightarrow> string \<Rightarrow> IP \<Rightarrow> 'w \<Rightarrow> go_error option \<times> 'w"

definition RateLimiterService_as_usecase :: "'w RateLimiterService \<Rightarrow> 'w RateLimiterUseCase" where
  "RateLimiterService_as_usecase s =
     \<lparr>usecase_Check = RateLimiterService_Check s, usecase_Reset = RateLimiterService_Reset s\<rparr>"

lemma Rate_Service_port_simps [port_simps]:
  "holder_ReloadSubnets (SubnetPolicer_as_port get put repo) r1 r2 w =
    (case SubnetPolicer_ReloadSubnets repo r1 r2 (get w) w of ((err, sp), w') \<Rightarrow> (err, put sp w'))"
  "policer_Check (SubnetPolicer_as_port get put repo) ip w = SubnetPolicer_Check (get w) ip"
  "holder_ReloadSubnets (RateLimiterService_as_holder s) = RateLimiterService_ReloadSubnets s"
  "usecase_Check (RateLimiterService_as_usecase s) = RateLimiterService_Check s"
  "usecase_Reset (RateLimiterService_as_usecase s) = RateLimiterService_Reset s"
  by (simp_all add: SubnetPolicer_as_port_def RateLimiterService_as_holder_def
      RateLimiterService_as_usecase_def)

lemma length_hashPassword [simp]: "length (hashPassword p) = 64"
  by (simp add: hashPassword_def)

section \<open>Over any store of attempts\<close>

text \<open>The keys, rules and moments of the three counters of an attempt.\<close>

definition attempt_key :: "LimitType \<Rightarrow> string \<Rightarrow> string \<Rightarrow> IP \<Rightarrow> string" where
  "attempt_key lt login password ip =
     (if lt = LoginLimit then bucket_key LoginLimit login
      else if lt = PasswordLimit then bucket_key PasswordLimit (hashPassword password)
      else bucket_key IPLimit (IP_String ip))"

definition attempts :: "config_Limits \<Rightarrow> LimitType \<Rightarrow> int" where
  "attempts cfg lt =
     (if lt = LoginLimit then LoginAttempts cfg
      else if lt = PasswordLimit then PasswordAttempts cfg
      else IPAttempts cfg)"

definition moment_of :: "LimitType \<Rightarrow> moments \<Rightarrow> moment" where
  "moment_of lt m =
     (if lt = LoginLimit then at_login m else if lt = PasswordLimit then at_password m else at_ip m)"

lemma LimitsFromConfig_attempts:
  "lt \<in> limit_types \<Longrightarrow> LimitsFromConfig cfg lt = Some \<lparr>Limit = attempts cfg lt, Window = config_Window cfg\<rparr>"
  by (auto simp: limit_types_def attempts_def)

lemma attempt_key_inject_type:
  assumes "lt \<in> limit_types" "lt' \<in> limit_types"
  shows "attempt_key lt l p ip = attempt_key lt' l' p' ip' \<Longrightarrow> lt = lt'"
  using assms bucket_key_inject [of lt lt'] bucket_key_inject [of lt' lt]
  unfolding limit_types_def attempt_key_def by (auto simp: bucket_key_inject limit_types_def)

text \<open>A service whose counters are kept by a given store.\<close>

definition counts_in :: "config_Limits \<Rightarrow> 'w LimiterRepo_port \<Rightarrow> 'w RateLimiterService \<Rightarrow> bool" where
  "counts_in cfg repo s \<longleftrightarrow>
     limitChecker s = LimitChecker_as_port (NewLimitChecker repo (LimitsFromConfig cfg))"

lemma New_counts_in:
  "NewRateLimiterService get put subnets repo cfg w = (Inr s, w') \<Longrightarrow> counts_in cfg repo s"
  by (auto simp: NewRateLimiterService_def counts_in_def Let_def split: sum.splits)

context limiter_repo
begin

text \<open>
  After a reset that succeeded the three counters are empty, and an attempt that finds them empty is
  not refused by any of them.
\<close>

lemma service_reset_clears:
  assumes "counts_in cfg repo s" "inv w" "RateLimiterService_Reset s login password ip w = (None, w')"
    and "lt \<in> limit_types"
  shows "inv w' \<and> used w' (attempt_key lt login password ip) c = 0"
proof -
  let ?lc = "NewLimitChecker repo (LimitsFromConfig cfg)"
  let ?key = "\<lambda>lt. attempt_key lt login password ip"
  obtain w1 w2 where steps: "LimitChecker_Reset ?lc LoginLimit login w = (None, w1)"
    "LimitChecker_Reset ?lc PasswordLimit (hashPassword password) w1 = (None, w2)"
    "LimitChecker_Reset ?lc IPLimit (IP_String ip) w2 = (None, w')"
    using assms(1,3)
    by (auto simp: RateLimiterService_Reset_def counts_in_def port_simps Let_def split: prod.splits option.splits)
  have inv: "inv w1" "inv w2" "inv w'"
    using checker_inv(2) [of _ "LimitsFromConfig cfg"] assms(2) steps by (metis snd_conv)+
  note clear = checker_reset_clears [OF assms(2) _ steps(1)] checker_reset_clears [OF inv(1) _ steps(2)]
    checker_reset_clears [OF inv(2) _ steps(3)]
  have keep2: "used w2 (bucket_key lt' k) = used w1 (bucket_key lt' k)" if "lt' \<in> {LoginLimit, IPLimit}" for lt' k
    using checker_frame(2) [OF inv(1), of "LimitsFromConfig cfg" lt' k PasswordLimit "hashPassword password"]
      that steps(2) LimitsFromConfig_dom by (auto simp: limit_types_def)
  have keep3: "used w' (bucket_key lt' k) = used w2 (bucket_key lt' k)" if "lt' \<in> {LoginLimit, PasswordLimit}" for lt' k
    using checker_frame(2) [OF inv(2), of "LimitsFromConfig cfg" lt' k IPLimit "IP_String ip"]
      that steps(3) LimitsFromConfig_dom by (auto simp: limit_types_def)
  have "used w' (?key lt) c = 0"
    using assms(4) clear keep2 keep3 by (auto simp: limit_types_def attempt_key_def)
  with inv show ?thesis by blast
qed

lemma service_fresh:
  assumes "counts_in cfg repo s" "inv w" "policer_Check (subnetPolicer s) ip w = DecisionContinue"
    and "\<And>lt. lt \<in> limit_types \<Longrightarrow> ok (moment_of lt m) (config_Window cfg) \<and> 0 < attempts cfg lt"
    and "\<And>lt c. lt \<in> limit_types \<Longrightarrow> used w (attempt_key lt login password ip) c = 0"
  shows "fst (RateLimiterService_Check s m login password ip w) \<noteq> Inr False"
proof
  assume refused: "fst (RateLimiterService_Check s m login password ip w) = Inr False"
  let ?lc = "NewLimitChecker repo (LimitsFromConfig cfg)"
  have ok: "ok (at_login m) (config_Window cfg)" "ok (at_password m) (config_Window cfg)"
    "ok (at_ip m) (config_Window cfg)"
    and pos: "0 < LoginAttempts cfg" "0 < PasswordAttempts cfg" "0 < IPAttempts cfg"
    using assms(4) [of LoginLimit] assms(4) [of PasswordLimit] assms(4) [of IPLimit]
    by (simp_all add: limit_types_def moment_of_def attempts_def)
  have zero: "used w (bucket_key LoginLimit login) c = 0"
    "used w (bucket_key PasswordLimit (hashPassword password)) c = 0"
    "used w (bucket_key IPLimit (IP_String ip)) c = 0" for c
    using assms(5) [of LoginLimit c] assms(5) [of PasswordLimit c] assms(5) [of IPLimit c]
    by (simp_all add: limit_types_def attempt_key_def)
  obtain a1 w1 where s1: "LimitChecker_Allow ?lc (at_login m) LoginLimit login w = (a1, w1)" by fastforce
  obtain a2 w2 where s2: "LimitChecker_Allow ?lc (at_password m) PasswordLimit (hashPassword password) w1 = (a2, w2)"
    by fastforce
  obtain a3 w3 where s3: "LimitChecker_Allow ?lc (at_ip m) IPLimit (IP_String ip) w2 = (a3, w3)" by fastforce
  have inv1: "inv w1"
    using checker_inv(1) [OF assms(2), of "LimitsFromConfig cfg" LoginLimit "at_login m" login] s1 ok(1) by simp
  have inv2: "inv w2"
    using checker_inv(1) [OF inv1, of "LimitsFromConfig cfg" PasswordLimit "at_password m" "hashPassword password"]
      s2 ok(2) by simp
  have keep1: "used w1 (bucket_key lt k) = used w (bucket_key lt k)" if "lt \<in> {PasswordLimit, IPLimit}" for lt k
    using checker_frame(1) [OF assms(2), of "LimitsFromConfig cfg" lt k LoginLimit login "at_login m"]
      that s1 ok(1) LimitsFromConfig_dom by (auto simp: limit_types_def)
  have keep2: "used w2 (bucket_key IPLimit k) = used w1 (bucket_key IPLimit k)" for k
    using checker_frame(1) [OF inv1, of "LimitsFromConfig cfg" IPLimit k PasswordLimit "hashPassword password" "at_password m"]
      s2 ok(2) LimitsFromConfig_dom by (auto simp: limit_types_def)
  have "a1 \<noteq> Inr False"
    using checker_fresh [OF assms(2), of "LimitsFromConfig cfg" LoginLimit _ "at_login m" login] s1 ok(1) pos(1) zero(1)
    by simp
  moreover have "a2 \<noteq> Inr False"
    using checker_fresh [OF inv1, of "LimitsFromConfig cfg" PasswordLimit _ "at_password m" "hashPassword password"]
      s2 ok(2) pos(2) zero(2) keep1 [of PasswordLimit] by simp
  moreover have "a3 \<noteq> Inr False"
    using checker_fresh [OF inv2, of "LimitsFromConfig cfg" IPLimit _ "at_ip m" "IP_String ip"]
      s3 ok(3) pos(3) zero(3) keep1 [of IPLimit] keep2 by simp
  ultimately show False
    using refused assms(1,3) s1 s2 s3
    by (auto simp: RateLimiterService_Check_def counts_in_def port_simps Let_def split: sum.splits if_splits)
qed

end

end
