(* ===== verification/Subnet_Service.thy ===== *)
theory Subnet_Service
  imports Abf_Contracts
begin

text \<open>
  \<open>internal/app/subnetlist_service.go\<close>: the use case that edits the stored white and black lists
  and announces every change through a publisher. The text of a network goes to the store as it
  came. Each announcement may make a policer reload both lists, so a call carries the orders in
  which the runtime walks the two maps.
\<close>

section \<open>The service\<close>

record 'w SubnetListService =
  subnetRepo :: "'w SubnetRepo_port"
  subnetUpdatePublisher :: "'w SubnetUpdatesPublisher_port"

definition NewSubnetListService ::
  "'w SubnetRepo_port \<Rightarrow> 'w SubnetUpdatesPublisher_port \<Rightarrow> 'w SubnetListService" where
  "NewSubnetListService repo pub = \<lparr>subnetRepo = repo, subnetUpdatePublisher = pub\<rparr>"

definition AddToWhitelist ::
  "'w SubnetListService \<Rightarrow> range_order \<Rightarrow> range_order \<Rightarrow> string \<Rightarrow> 'w \<Rightarrow> go_error option \<times> 'w" where
  "AddToWhitelist s r1 r2 cidr w =
     (case repo_AddCIDR (subnetRepo s) Whitelist cidr w of
        (Some err, w1) \<Rightarrow> (Some (Wrapf ''add to whitelist subnet'' err), w1)
      | (None, w1) \<Rightarrow>
          (case PublishSubnetUpdated (subnetUpdatePublisher s) r1 r2 w1 of
             (Some err, w2) \<Rightarrow> (Some (Wrapf ''publish subnet update'' err), w2)
           | (None, w2) \<Rightarrow> (None, w2)))"

definition AddToBlacklist ::
  "'w SubnetListService \<Rightarrow> range_order \<Rightarrow> range_order \<Rightarrow> string \<Rightarrow> 'w \<Rightarrow> go_error option \<times> 'w" where
  "AddToBlacklist s r1 r2 cidr w =
     (case repo_AddCIDR (subnetRepo s) Blacklist cidr w of
        (Some err, w1) \<Rightarrow> (Some (Wrapf ''add to blacklist subnet'' err), w1)
      | (None, w1) \<Rightarrow>
          (case PublishSubnetUpdated (subnetUpdatePublisher s) r1 r2 w1 of
             (Some err, w2) \<Rightarrow> (Some (Wrapf ''publish subnet update'' err), w2)
           | (None, w2) \<Rightarrow> (None, w2)))"

definition RemoveFromWhitelist ::
  "'w SubnetListService \<Rightarrow> range_order \<Rightarrow> range_order \<Rightarrow> string \<Rightarrow> 'w \<Rightarrow> go_error option \<times> 'w" where
  "RemoveFromWhitelist s r1 r2 cidr w =
     (case repo_RemoveCIDR (subnetRepo s) Whitelist cidr w of
        (Some err, w1) \<Rightarrow> (Some (Wrapf ''remove from whitelist subnet'' err), w1)
      | (None, w1) \<Rightarrow>
          (case PublishSubnetUpdated (subnetUpdatePublisher s) r1 r2 w1 of
             (Some err, w2) \<Rightarrow> (Some (Wrapf ''publish subnet update'' err), w2)
           | (None, w2) \<Rightarrow> (None, w2)))"

definition RemoveFromBlacklist ::
  "'w SubnetListService \<Rightarrow> range_order \<Rightarrow> range_order \<Rightarrow> string \<Rightarrow> 'w \<Rightarrow> go_error option \<times> 'w" where
  "RemoveFromBlacklist s r1 r2 cidr w =
     (case repo_RemoveCIDR (subnetRepo s) Blacklist cidr w of
        (Some err, w1) \<Rightarrow> (Some (Wrapf ''remove from blacklist subnet'' err), w1)
      | (None, w1) \<Rightarrow>
          (case PublishSubnetUpdated (subnetUpdatePublisher s) r1 r2 w1 of
             (Some err, w2) \<Rightarrow> (Some (Wrapf ''publish subnet update'' err), w2)
           | (None, w2) \<Rightarrow> (None, w2)))"

lemmas list_service_defs =
  AddToWhitelist_def AddToBlacklist_def RemoveFromWhitelist_def RemoveFromBlacklist_def

record 'w SubnetListUseCase =
  usecase_AddToWhitelist :: "range_order \<Rightarrow> range_order \<Rightarrow> string \<Rightarrow> 'w \<Rightarrow> go_error option \<times> 'w"
  usecase_AddToBlacklist :: "range_order \<Rightarrow> range_order \<Rightarrow> string \<Rightarrow> 'w \<Rightarrow> go_error option \<times> 'w"
  usecase_RemoveFromWhitelist :: "range_order \<Rightarrow> range_order \<Rightarrow> string \<Rightarrow> 'w \<Rightarrow> go_error option \<times> 'w"
  usecase_RemoveFromBlacklist :: "range_order \<Rightarrow> range_order \<Rightarrow> string \<Rightarrow> 'w \<Rightarrow> go_error option \<times> 'w"

definition SubnetListService_as_usecase :: "'w SubnetListService \<Rightarrow> 'w SubnetListUseCase" where
  "SubnetListService_as_usecase s =
     \<lparr>usecase_AddToWhitelist = AddToWhitelist s,
      usecase_AddToBlacklist = AddToBlacklist s,
      usecase_RemoveFromWhitelist = RemoveFromWhitelist s,
      usecase_RemoveFromBlacklist = RemoveFromBlacklist s\<rparr>"

lemma SubnetListUseCase_simps [port_simps]:
  "usecase_AddToWhitelist (SubnetListService_as_usecase s) = AddToWhitelist s"
  "usecase_AddToBlacklist (SubnetListService_as_usecase s) = AddToBlacklist s"
  "usecase_RemoveFromWhitelist (SubnetListService_as_usecase s) = RemoveFromWhitelist s"
  "usecase_RemoveFromBlacklist (SubnetListService_as_usecase s) = RemoveFromBlacklist s"
  by (simp_all add: SubnetListService_as_usecase_def)

section \<open>The four calls as one\<close>

text \<open>The calls differ in the list they edit and in whether they add or remove.\<close>

datatype edit = AddW string | AddB string | RemoveW string | RemoveB string

fun edit_call ::
  "'w SubnetListService \<Rightarrow> edit \<Rightarrow> range_order \<Rightarrow> range_order \<Rightarrow> 'w \<Rightarrow> go_error option \<times> 'w" where
  "edit_call s (AddW c) r1 r2 w = AddToWhitelist s r1 r2 c w"
| "edit_call s (AddB c) r1 r2 w = AddToBlacklist s r1 r2 c w"
| "edit_call s (RemoveW c) r1 r2 w = RemoveFromWhitelist s r1 r2 c w"
| "edit_call s (RemoveB c) r1 r2 w = RemoveFromBlacklist s r1 r2 c w"

fun edit_sets :: "edit \<Rightarrow> (ListType \<Rightarrow> string set) \<Rightarrow> ListType \<Rightarrow> string set" where
  "edit_sets (AddW c) S = S(Whitelist := insert c (S Whitelist))"
| "edit_sets (AddB c) S = S(Blacklist := insert c (S Blacklist))"
| "edit_sets (RemoveW c) S = S(Whitelist := S Whitelist - {c})"
| "edit_sets (RemoveB c) S = S(Blacklist := S Blacklist - {c})"

context subnet_repo
begin

text \<open>
  A call that reports success has changed the store as its name says and got a successful
  announcement on the changed store.
\<close>

lemma edit_success:
  assumes "inv w" "edit_call (NewSubnetListService repo pub) e r1 r2 w = (None, w')"
  shows "\<exists>w1. inv w1 \<and> cidrs w1 = edit_sets e (cidrs w) \<and>
    PublishSubnetUpdated pub r1 r2 w1 = (None, w')"
proof -
  let ?s = "NewSubnetListService repo pub"
  have port: "subnetRepo ?s = repo" "subnetUpdatePublisher ?s = pub"
    by (simp_all add: NewSubnetListService_def)
  have add: "\<exists>w1. inv w1 \<and> cidrs w1 = (cidrs w)(lt := insert c (cidrs w lt)) \<and>
      PublishSubnetUpdated pub r1 r2 w1 = (None, w')"
    if "(case repo_AddCIDR (subnetRepo ?s) lt c w of
        (Some err, w1) \<Rightarrow> (Some (Wrapf t1 err), w1)
      | (None, w1) \<Rightarrow>
          (case PublishSubnetUpdated (subnetUpdatePublisher ?s) r1 r2 w1 of
             (Some err, w2) \<Rightarrow> (Some (Wrapf t2 err), w2)
           | (None, w2) \<Rightarrow> (None, w2))) = (None, w')" for lt c t1 t2
    using that add_inv [OF assms(1), of lt c] add_stored [OF assms(1), of lt c]
    by (auto simp: port split: prod.splits option.splits)
  have remove: "\<exists>w1. inv w1 \<and> cidrs w1 = (cidrs w)(lt := cidrs w lt - {c}) \<and>
      PublishSubnetUpdated pub r1 r2 w1 = (None, w')"
    if "(case repo_RemoveCIDR (subnetRepo ?s) lt c w of
        (Some err, w1) \<Rightarrow> (Some (Wrapf t1 err), w1)
      | (None, w1) \<Rightarrow>
          (case PublishSubnetUpdated (subnetUpdatePublisher ?s) r1 r2 w1 of
             (Some err, w2) \<Rightarrow> (Some (Wrapf t2 err), w2)
           | (None, w2) \<Rightarrow> (None, w2))) = (None, w')" for lt c t1 t2
    using that remove_inv [OF assms(1), of lt c] remove_gone [OF assms(1), of lt c]
    by (auto simp: port split: prod.splits option.splits)
  from assms(2) show ?thesis
    by (cases e) (simp_all only: edit_call.simps edit_sets.simps list_service_defs add remove)
qed

end

end
