(* ===== verification/Grpc_Server.thy ===== *)
theory Grpc_Server
  imports Rate_Service Subnet_Service
begin

text \<open>
  \<open>internal/delivery/grpc/server.go\<close> and the messages of \<open>api/proto/anti_bruteforce/v1\<close>: the handlers
  of the six calls. A use case that was not configured is a nil interface, here \<open>None\<close>.
\<close>

section \<open>Messages\<close>

record CheckAttemptRequest =
  req_Login :: string
  req_Password :: string
  req_Ip :: string

record CheckAttemptResponse =
  resp_Ok :: bool

record ResetBucketRequest =
  reset_Login :: string
  reset_Password :: string
  reset_Ip :: string

datatype ResetBucketResponse = ResetBucketResponse

record ManageCIDRRequest =
  req_Cidr :: string

datatype ManageCIDRResponse = ManageCIDRResponse

section \<open>The server\<close>

record 'w Server =
  rateLimiter :: "'w RateLimiterUseCase option"
  subnetList :: "'w SubnetListUseCase option"

definition NewServer :: "'w RateLimiterUseCase option \<Rightarrow> 'w SubnetListUseCase option \<Rightarrow> 'w Server" where
  "NewServer rl sl = \<lparr>rateLimiter = rl, subnetList = sl\<rparr>"

definition Server_CheckAttempt ::
  "'w Server \<Rightarrow> moments \<Rightarrow> CheckAttemptRequest \<Rightarrow> 'w \<Rightarrow> CheckAttemptResponse result \<times> 'w" where
  "Server_CheckAttempt s m req w =
     (case rateLimiter s of
        None \<Rightarrow> (Inl (Sentinel (GrpcErr ErrRateLimiterNotConfigured)), w)
      | Some rl \<Rightarrow>
          (case ParseIP (req_Ip req) of
             None \<Rightarrow> (Inl (Sentinel (GrpcErr ErrInvalidIPAddress)), w)
           | Some ip \<Rightarrow>
               (case usecase_Check rl m (req_Login req) (req_Password req) ip w of
                  (Inl err, w1) \<Rightarrow> (Inl err, w1)
                | (Inr allowed, w1) \<Rightarrow> (Inr \<lparr>resp_Ok = allowed\<rparr>, w1))))"

definition Server_ResetBucket ::
  "'w Server \<Rightarrow> ResetBucketRequest \<Rightarrow> 'w \<Rightarrow> ResetBucketResponse result \<times> 'w" where
  "Server_ResetBucket s req w =
     (case rateLimiter s of
        None \<Rightarrow> (Inl (Sentinel (GrpcErr ErrRateLimiterNotConfigured)), w)
      | Some rl \<Rightarrow>
          (case ParseIP (reset_Ip req) of
             None \<Rightarrow> (Inl (Sentinel (GrpcErr ErrInvalidIPAddress)), w)
           | Some ip \<Rightarrow>
               (case usecase_Reset rl (reset_Login req) (reset_Password req) ip w of
                  (Some err, w1) \<Rightarrow> (Inl err, w1)
                | (None, w1) \<Rightarrow> (Inr ResetBucketResponse, w1))))"

definition Server_AddToWhitelist ::
  "'w Server \<Rightarrow> range_order \<Rightarrow> range_order \<Rightarrow> ManageCIDRRequest \<Rightarrow> 'w \<Rightarrow> ManageCIDRResponse result \<times> 'w" where
  "Server_AddToWhitelist s r1 r2 req w =
     (case subnetList s of
        None \<Rightarrow> (Inl (Sentinel (GrpcErr ErrSubnetListNotConfigured)), w)
      | Some sl \<Rightarrow>
          (case usecase_AddToWhitelist sl r1 r2 (req_Cidr req) w of
             (Some err, w1) \<Rightarrow> (Inl err, w1)
           | (None, w1) \<Rightarrow> (Inr ManageCIDRResponse, w1)))"

definition Server_AddToBlacklist ::
  "'w Server \<Rightarrow> range_order \<Rightarrow> range_order \<Rightarrow> ManageCIDRRequest \<Rightarrow> 'w \<Rightarrow> ManageCIDRResponse result \<times> 'w" where
  "Server_AddToBlacklist s r1 r2 req w =
     (case subnetList s of
        None \<Rightarrow> (Inl (Sentinel (GrpcErr ErrSubnetListNotConfigured)), w)
      | Some sl \<Rightarrow>
          (case usecase_AddToBlacklist sl r1 r2 (req_Cidr req) w of
             (Some err, w1) \<Rightarrow> (Inl err, w1)
           | (None, w1) \<Rightarrow> (Inr ManageCIDRResponse, w1)))"

definition Server_RemoveFromWhitelist ::
  "'w Server \<Rightarrow> range_order \<Rightarrow> range_order \<Rightarrow> ManageCIDRRequest \<Rightarrow> 'w \<Rightarrow> ManageCIDRResponse result \<times> 'w" where
  "Server_RemoveFromWhitelist s r1 r2 req w =
     (case subnetList s of
        None \<Rightarrow> (Inl (Sentinel (GrpcErr ErrSubnetListNotConfigured)), w)
      | Some sl \<Rightarrow>
          (case usecase_RemoveFromWhitelist sl r1 r2 (req_Cidr req) w of
             (Some err, w1) \<Rightarrow> (Inl err, w1)
           | (None, w1) \<Rightarrow> (Inr ManageCIDRResponse, w1)))"

definition Server_RemoveFromBlacklist ::
  "'w Server \<Rightarrow> range_order \<Rightarrow> range_order \<Rightarrow> ManageCIDRRequest \<Rightarrow> 'w \<Rightarrow> ManageCIDRResponse result \<times> 'w" where
  "Server_RemoveFromBlacklist s r1 r2 req w =
     (case subnetList s of
        None \<Rightarrow> (Inl (Sentinel (GrpcErr ErrSubnetListNotConfigured)), w)
      | Some sl \<Rightarrow>
          (case usecase_RemoveFromBlacklist sl r1 r2 (req_Cidr req) w of
             (Some err, w1) \<Rightarrow> (Inl err, w1)
           | (None, w1) \<Rightarrow> (Inr ManageCIDRResponse, w1)))"

section \<open>A call as a request\<close>

text \<open>
  One request to the server with the answers of the host that serving it uses.
\<close>

datatype request =
    CheckAttempt moments CheckAttemptRequest
  | ResetBucket ResetBucketRequest
  | ManageCIDR edit range_order range_order

datatype response =
    Checked bool
  | Done
  | Failed go_error

definition respond :: "('a \<Rightarrow> response) \<Rightarrow> 'a result \<times> 'w \<Rightarrow> response \<times> 'w" where
  "respond f r = (case r of (Inl err, w) \<Rightarrow> (Failed err, w) | (Inr a, w) \<Rightarrow> (f a, w))"

fun serve :: "'w Server \<Rightarrow> request \<Rightarrow> 'w \<Rightarrow> response \<times> 'w" where
  "serve s (CheckAttempt m req) w = respond (\<lambda>r. Checked (resp_Ok r)) (Server_CheckAttempt s m req w)"
| "serve s (ResetBucket req) w = respond (\<lambda>_. Done) (Server_ResetBucket s req w)"
| "serve s (ManageCIDR (AddW c) r1 r2) w =
     respond (\<lambda>_. Done) (Server_AddToWhitelist s r1 r2 \<lparr>req_Cidr = c\<rparr> w)"
| "serve s (ManageCIDR (AddB c) r1 r2) w =
     respond (\<lambda>_. Done) (Server_AddToBlacklist s r1 r2 \<lparr>req_Cidr = c\<rparr> w)"
| "serve s (ManageCIDR (RemoveW c) r1 r2) w =
     respond (\<lambda>_. Done) (Server_RemoveFromWhitelist s r1 r2 \<lparr>req_Cidr = c\<rparr> w)"
| "serve s (ManageCIDR (RemoveB c) r1 r2) w =
     respond (\<lambda>_. Done) (Server_RemoveFromBlacklist s r1 r2 \<lparr>req_Cidr = c\<rparr> w)"

lemma respond_simps [simp]:
  "respond f (Inl err, w) = (Failed err, w)"
  "respond f (Inr a, w) = (f a, w)"
  by (simp_all add: respond_def)

lemma snd_respond [simp]: "snd (respond f r) = snd r"
  by (simp add: respond_def split: prod.split sum.split)

text \<open>The handlers of the list calls as one.\<close>

lemma serve_edit:
  "serve (NewServer rl (Some (SubnetListService_as_usecase svc))) (ManageCIDR e r1 r2) w =
    (case edit_call svc e r1 r2 w of (Some err, w1) \<Rightarrow> (Failed err, w1) | (None, w1) \<Rightarrow> (Done, w1))"
  by (cases e)
    (auto simp: NewServer_def port_simps Server_AddToWhitelist_def Server_AddToBlacklist_def
      Server_RemoveFromWhitelist_def Server_RemoveFromBlacklist_def split: prod.split option.split)

declare serve.simps [simp del]

end
