(* ===== verification/Adapters.thy ===== *)
theory Adapters
  imports Abf_Contracts
begin

text \<open>
  \<open>internal/adapters\<close>: the two publishers of list updates and the subscriber that reloads a holder
  on every message. The Redis client is a third party: publishing is a parameter that maps a
  channel and a message to an effect on the world, and the Go channel of a subscription is the
  sequence of events the select statement picks from it.
\<close>

section \<open>Publishers\<close>

record 'w LocalSubnetUpdatesPublisher =
  local_holder :: "'w SubnetHolder_port"

definition NewLocalSubnetUpdatesPublisher :: "'w SubnetHolder_port \<Rightarrow> 'w LocalSubnetUpdatesPublisher" where
  "NewLocalSubnetUpdatesPublisher h = \<lparr>local_holder = h\<rparr>"

definition Local_PublishSubnetUpdated ::
  "'w LocalSubnetUpdatesPublisher \<Rightarrow> range_order \<Rightarrow> range_order \<Rightarrow> 'w \<Rightarrow> go_error option \<times> 'w" where
  "Local_PublishSubnetUpdated p r1 r2 w = holder_ReloadSubnets (local_holder p) r1 r2 w"

type_synonym 'w redis_publish = "string \<Rightarrow> string \<Rightarrow> 'w \<Rightarrow> go_error option \<times> 'w"

record 'w RedisSubnetUpdatesPublisher =
  pub_rdb :: "'w redis_publish"
  pub_channel :: string

definition NewRedisSubnetUpdatesPublisher ::
  "'w redis_publish \<Rightarrow> string \<Rightarrow> 'w RedisSubnetUpdatesPublisher result" where
  "NewRedisSubnetUpdatesPublisher rdb ch = Inr \<lparr>pub_rdb = rdb, pub_channel = ch\<rparr>"

definition Redis_PublishSubnetUpdated ::
  "'w RedisSubnetUpdatesPublisher \<Rightarrow> range_order \<Rightarrow> range_order \<Rightarrow> 'w \<Rightarrow> go_error option \<times> 'w" where
  "Redis_PublishSubnetUpdated p r1 r2 w = pub_rdb p (pub_channel p) ''reload'' w"

definition local_publisher_port :: "'w LocalSubnetUpdatesPublisher \<Rightarrow> 'w SubnetUpdatesPublisher_port" where
  "local_publisher_port p = \<lparr>PublishSubnetUpdated = Local_PublishSubnetUpdated p\<rparr>"

definition redis_publisher_port :: "'w RedisSubnetUpdatesPublisher \<Rightarrow> 'w SubnetUpdatesPublisher_port" where
  "redis_publisher_port p = \<lparr>PublishSubnetUpdated = Redis_PublishSubnetUpdated p\<rparr>"

lemma publisher_port_simps [port_simps]:
  "PublishSubnetUpdated (local_publisher_port p) = Local_PublishSubnetUpdated p"
  "PublishSubnetUpdated (redis_publisher_port q) = Redis_PublishSubnetUpdated q"
  "local_holder (NewLocalSubnetUpdatesPublisher h) = h"
  by (simp_all add: local_publisher_port_def redis_publisher_port_def NewLocalSubnetUpdatesPublisher_def)

section \<open>The subscriber\<close>

text \<open>
  What one round of the \<open>select\<close> picks: the end of the context with its error, the closing of the
  channel, or a message (whose text is ignored) together with the orders in which the reload it
  triggers walks the maps, and the changes the rest of the world made before it.
\<close>

datatype 'w pubsub_event =
    CtxDone go_error
  | ChannelClosed
  | Message range_order range_order "'w \<Rightarrow> 'w"

record 'w SubnetUpdatesSubscriber =
  sub_channel :: string
  subnetHolder :: "'w SubnetHolder_port"

definition NewSubnetUpdatesSubscriber ::
  "'w SubnetHolder_port \<Rightarrow> string \<Rightarrow> 'w SubnetUpdatesSubscriber" where
  "NewSubnetUpdatesSubscriber h ch = \<lparr>sub_channel = ch, subnetHolder = h\<rparr>"

text \<open>
  The loop on a finite sequence of events: \<open>Some err\<close> when it has returned \<open>err\<close>, \<open>None\<close> when it
  still waits after the last event.
\<close>

fun Start :: "'w SubnetUpdatesSubscriber \<Rightarrow> 'w pubsub_event list \<Rightarrow> 'w \<Rightarrow> go_error option \<times> 'w" where
  "Start s [] w = (None, w)"
| "Start s (CtxDone err # es) w = (Some err, w)"
| "Start s (ChannelClosed # es) w = (Some (Errorf ''redis pubsub channel closed''), w)"
| "Start s (Message r1 r2 before # es) w =
     (case holder_ReloadSubnets (subnetHolder s) r1 r2 (before w) of
        (Some err, w1) \<Rightarrow> (Some (Wrapf ''reload subnet policy'' err), w1)
      | (None, w1) \<Rightarrow> Start s es w1)"

end
