(* ===== verification/Local_System.thy ===== *)
theory Local_System
  imports Memory_Buckets Memory_Subnets Grpc_Server Adapters "HOL-Library.Sublist"
begin

text \<open>
  The server as \<open>run\<close> in \<open>cmd/anti-bruteforce/main.go\<close> assembles it when the work mode is local: both
  stores in memory, the publisher reloading the policer directly. The world holds the two stores
  and the policer; requests are served one at a time.
\<close>

section \<open>Wiring\<close>

record local_world =
  limit_db :: BucketsDB
  subnet_db :: SubnetListDB
  policer :: SubnetPolicer

abbreviation put_limit_db :: "BucketsDB \<Rightarrow> local_world \<Rightarrow> local_world" where
  "put_limit_db db w \<equiv> w\<lparr>limit_db := db\<rparr>"

abbreviation put_subnet_db :: "SubnetListDB \<Rightarrow> local_world \<Rightarrow> local_world" where
  "put_subnet_db db w \<equiv> w\<lparr>subnet_db := db\<rparr>"

abbreviation put_policer :: "SubnetPolicer \<Rightarrow> local_world \<Rightarrow> local_world" where
  "put_policer sp w \<equiv> w\<lparr>policer := sp\<rparr>"

definition local_LimiterRepo :: "local_world LimiterRepo_port" where
  "local_LimiterRepo =
     \<lparr>limiter_Allow = (\<lambda>m k l win. on_part limit_db put_limit_db (limiter_Allow memory_LimiterRepo m k l win)),
      limiter_Reset = (\<lambda>k. on_part limit_db put_limit_db (limiter_Reset memory_LimiterRepo k))\<rparr>"

definition local_SubnetRepo :: "local_world SubnetRepo_port" where
  "local_SubnetRepo =
     \<lparr>repo_GetSubnetLists = (\<lambda>r lt. on_part subnet_db put_subnet_db (repo_GetSubnetLists memory_SubnetRepo r lt)),
      repo_SaveSubnetList = (\<lambda>lt cs. on_part subnet_db put_subnet_db (repo_SaveSubnetList memory_SubnetRepo lt cs)),
      repo_ClearSubnetList = (\<lambda>lt. on_part subnet_db put_subnet_db (repo_ClearSubnetList memory_SubnetRepo lt)),
      repo_AddCIDR = (\<lambda>lt c. on_part subnet_db put_subnet_db (repo_AddCIDR memory_SubnetRepo lt c)),
      repo_RemoveCIDR = (\<lambda>lt c. on_part subnet_db put_subnet_db (repo_RemoveCIDR memory_SubnetRepo lt c))\<rparr>"

lemma local_port_simps [wiring_simps]:
  "limiter_Allow local_LimiterRepo m k l win = on_part limit_db put_limit_db (BucketsDB_Allow m k l win)"
  "limiter_Reset local_LimiterRepo k = on_part limit_db put_limit_db (BucketsDB_Reset k)"
  "repo_GetSubnetLists local_SubnetRepo r lt = on_part subnet_db put_subnet_db (GetSubnetLists r lt)"
  "repo_AddCIDR local_SubnetRepo lt c = on_part subnet_db put_subnet_db (AddCIDRToSubnetList lt c)"
  "repo_RemoveCIDR local_SubnetRepo lt c = on_part subnet_db put_subnet_db (RemoveCIDRFromSubnetList lt c)"
  by (simp_all add: local_LimiterRepo_def local_SubnetRepo_def port_simps)

text \<open>The objects that exist before the services do: empty stores and no policer.\<close>

definition local_heap :: local_world where
  "local_heap =
     \<lparr>limit_db = NewBucketsDB, subnet_db = NewSubnetListDB,
      policer = \<lparr>pol_Whitelist = None, pol_Blacklist = None\<rparr>\<rparr>"

section \<open>The assembled server\<close>

definition local_rate :: "config_Limits \<Rightarrow> local_world RateLimiterService" where
  "local_rate cfg =
     \<lparr>subnetPolicer = SubnetPolicer_as_port policer put_policer local_SubnetRepo,
      limitChecker = LimitChecker_as_port (NewLimitChecker local_LimiterRepo (LimitsFromConfig cfg))\<rparr>"

definition local_publisher :: "config_Limits \<Rightarrow> local_world SubnetUpdatesPublisher_port" where
  "local_publisher cfg =
     local_publisher_port (NewLocalSubnetUpdatesPublisher (RateLimiterService_as_holder (local_rate cfg)))"

definition local_server :: "config_Limits \<Rightarrow> local_world Server" where
  "local_server cfg =
     NewServer (Some (RateLimiterService_as_usecase (local_rate cfg)))
       (Some (SubnetListService_as_usecase (NewSubnetListService local_SubnetRepo (local_publisher cfg))))"

definition local_init :: local_world where
  "local_init = local_heap\<lparr>policer := projr NewSubnetPolicer\<rparr>"

interpretation local_lists: subnet_repo local_SubnetRepo
  "\<lambda>w. distinct_lists (subnet_db w)" "\<lambda>w. stored (subnet_db w)"
proof unfold_locales
  fix w w' :: local_world and r lt cs
  assume "distinct_lists (subnet_db w)" "fair_order r"
    and "repo_GetSubnetLists local_SubnetRepo r lt w = (Inr cs, w')"
  then show "set cs = stored (subnet_db w) lt"
    using GetSubnetLists_result [of r lt "subnet_db w"]
    by (auto simp: wiring_simps on_part_def split: prod.splits)
next
  fix w w' :: local_world and lt c
  assume "repo_AddCIDR local_SubnetRepo lt c w = (None, w')"
  then show "stored (subnet_db w') = (stored (subnet_db w))(lt := insert c (stored (subnet_db w) lt))"
    using stored_Add [of lt c "subnet_db w"] by (auto simp: wiring_simps on_part_def split: prod.splits)
next
  fix w w' :: local_world and lt c
  assume "repo_RemoveCIDR local_SubnetRepo lt c w = (None, w')"
  then show "stored (subnet_db w') = (stored (subnet_db w))(lt := stored (subnet_db w) lt - {c})"
    using stored_Remove [of lt c "subnet_db w"] by (auto simp: wiring_simps on_part_def split: prod.splits)
qed (simp_all add: wiring_simps distinct_lists_ops)

interpretation local_limits: limiter_repo local_LimiterRepo
  "\<lambda>_ win. 0 < win" "\<lambda>_. True" "\<lambda>w. live (limit_db w)" memory_horizon
proof unfold_locales
  fix w w' :: local_world and m k l win
  assume "0 < win" "limiter_Allow local_LimiterRepo m k l win w = (Inr True, w')"
  then have "limiter_Allow memory_LimiterRepo m k l win (limit_db w) = (Inr True, limit_db w')"
    by (auto simp: wiring_simps port_simps on_part_def split: prod.splits)
  with mem.allow_bound [OF TrueI \<open>0 < win\<close>] show "int (live (limit_db w') k (memory_horizon m win)) \<le> l"
    by blast
next
  fix w :: local_world and m k l win
  assume "0 < win" "fst (limiter_Allow local_LimiterRepo m k l win w) = Inr False" "0 < l"
  then show "l \<le> int (live (limit_db w) k (memory_horizon m win))"
    using mem.allow_refused [OF TrueI, of win m k l "limit_db w"] by (simp add: wiring_simps port_simps)
next
  fix w w' :: local_world and k c
  assume "limiter_Reset local_LimiterRepo k w = (None, w')"
  then have "limiter_Reset memory_LimiterRepo k (limit_db w) = (None, limit_db w')"
    by (auto simp: wiring_simps port_simps on_part_def split: prod.splits)
  with mem.reset_clears [OF TrueI] show "live (limit_db w') k c = 0" by blast
next
  fix w :: local_world and k' k :: string and m l and win :: int
  assume "0 < win" "k' \<noteq> k"
  then show "live (limit_db (snd (limiter_Allow local_LimiterRepo m k l win w))) k' = live (limit_db w) k'"
    using mem.allow_frame [OF TrueI, of win k' k m l "limit_db w"] by (simp add: wiring_simps port_simps)
next
  fix w :: local_world and k' k :: string
  assume "k' \<noteq> k"
  then show "live (limit_db (snd (limiter_Reset local_LimiterRepo k w))) k' = live (limit_db w) k'"
    using mem.reset_frame [OF TrueI, of k' k "limit_db w"] by (simp add: wiring_simps port_simps)
qed simp_all

section \<open>The parts of the local server\<close>

lemma local_reload:
  "RateLimiterService_ReloadSubnets (local_rate cfg) r1 r2 w =
    (case SubnetPolicer_ReloadSubnets local_SubnetRepo r1 r2 (policer w) w of
       ((err, sp), w') \<Rightarrow> (err, put_policer sp w'))"
  by (simp add: RateLimiterService_ReloadSubnets_def local_rate_def port_simps)

lemma local_publish:
  "PublishSubnetUpdated (local_publisher cfg) = RateLimiterService_ReloadSubnets (local_rate cfg)"
  by (simp add: local_publisher_def port_simps Local_PublishSubnetUpdated_def fun_eq_iff)

definition local_ok :: "local_world \<Rightarrow> bool" where
  "local_ok w \<longleftrightarrow> distinct_lists (subnet_db w) \<and> policer_wired (policer w)"

lemma reload_state:
  "limit_db (snd (SubnetPolicer_ReloadSubnets local_SubnetRepo r1 r2 sp w)) = limit_db w"
  "subnet_db (snd (SubnetPolicer_ReloadSubnets local_SubnetRepo r1 r2 sp w)) = subnet_db w"
  "policer (snd (SubnetPolicer_ReloadSubnets local_SubnetRepo r1 r2 sp w)) = policer w"
  by (auto simp: SubnetPolicer_ReloadSubnets_def reload_list_def SubnetList_Load_def wiring_simps
      on_part_def GetSubnetLists_def split: prod.splits option.splits sum.splits)

end
