(* ===== verification/Local_Behaviour.thy ===== *)
theory Local_Behaviour
  imports Local_System
begin

text \<open>
  The behaviour of the local server: starting it, the invariant of its reachable worlds, editing the
  lists and checking attempts. The lists side rests on the contract of the store of lists, the
  counting side on the runs of the store of attempts.
\<close>

section \<open>Starting\<close>

lemma local_init_ok:
  "local_ok local_init" "stored (subnet_db local_init) lt = {}"
  "white_texts (policer local_init) = {}" "black_texts (policer local_init) = {}"
  "limit_db local_init = NewBucketsDB"
  using NewSubnetPolicer_wired [of "projr NewSubnetPolicer"]
  by (simp_all add: local_ok_def local_init_def local_heap_def distinct_lists_ops NewSubnetPolicer_def)

lemma reload_empty:
  "RateLimiterService_Init (local_rate cfg) r1 r2 local_init = (None, local_init)"
  by (simp add: RateLimiterService_Init_def local_rate_def port_simps wiring_simps
      SubnetPolicer_ReloadSubnets_def reload_list_def SubnetList_Load_def on_part_def GetSubnetLists_def
      NewSubnetListDB_def local_init_def local_heap_def NewSubnetPolicer_def NewSubnetList_def
      SubnetList_Clear_def)

section \<open>Runs of requests\<close>

fun serve_all :: "'w Server \<Rightarrow> request list \<Rightarrow> 'w \<Rightarrow> response list \<times> 'w" where
  "serve_all s [] w = ([], w)"
| "serve_all s (r # rs) w =
     (case serve s r w of (a, w1) \<Rightarrow> (case serve_all s rs w1 of (as, w2) \<Rightarrow> (a # as, w2)))"

abbreviation after :: "config_Limits \<Rightarrow> request list \<Rightarrow> local_world" where
  "after cfg rs \<equiv> snd (serve_all (local_server cfg) rs local_init)"

text \<open>The runtime may walk a map in any order, but visits every key once.\<close>

fun fair_request :: "request \<Rightarrow> bool" where
  "fair_request (ManageCIDR e r1 r2) \<longleftrightarrow> fair_order r1 \<and> fair_order r2"
| "fair_request _ \<longleftrightarrow> True"

lemma serve_all_Cons_snd:
  "snd (serve_all s (r # rs) w) = snd (serve_all s rs (snd (serve s r w)))"
  by (simp split: prod.split)

declare serve_all.simps(2) [simp del]

lemma serve_all_append:
  "snd (serve_all s (rs @ rs') w) = snd (serve_all s rs' (snd (serve_all s rs w)))"
  by (induction rs arbitrary: w) (simp_all add: serve_all_Cons_snd)

section \<open>Counting attempts\<close>

definition attempt_event ::
  "config_Limits \<Rightarrow> moments \<Rightarrow> string \<Rightarrow> string \<Rightarrow> IP \<Rightarrow> LimitType \<Rightarrow> bucket_event" where
  "attempt_event cfg m login password ip lt =
     AllowAt (moment_of lt m) (attempt_key lt login password ip) (attempts cfg lt) (config_Window cfg)"

fun event_ok :: "bucket_event \<Rightarrow> BucketsDB \<Rightarrow> bool" where
  "event_ok (AllowAt m k l win) db \<longleftrightarrow> fst (BucketsDB_Allow m k l win db) = Inr True"
| "event_ok (ResetKey k) db \<longleftrightarrow> True"

text \<open>Attempts in turn until one is refused: whether all are allowed, and which are made.\<close>

fun all_ok :: "bucket_event list \<Rightarrow> BucketsDB \<Rightarrow> bool" where
  "all_ok [] db \<longleftrightarrow> True"
| "all_ok (e # es) db \<longleftrightarrow> event_ok e db \<and> all_ok es (bucket_step e db)"

fun made :: "bucket_event list \<Rightarrow> BucketsDB \<Rightarrow> bucket_event list" where
  "made [] db = []"
| "made (e # es) db = e # (if event_ok e db then made es (bucket_step e db) else [])"

abbreviation three_events :: "config_Limits \<Rightarrow> moments \<Rightarrow> string \<Rightarrow> string \<Rightarrow> IP \<Rightarrow> bucket_event list" where
  "three_events cfg m login password ip \<equiv>
     map (attempt_event cfg m login password ip) [LoginLimit, PasswordLimit, IPLimit]"

lemma checker_local:
  "checker_Allow (limitChecker (local_rate cfg)) m lt key w =
    (case LimitsFromConfig cfg lt of
       None \<Rightarrow> (Inr False, w)
     | Some r \<Rightarrow> on_part limit_db put_limit_db (BucketsDB_Allow m (bucket_key lt key) (Limit r) (Window r)) w)"
  "checker_Reset (limitChecker (local_rate cfg)) lt key w =
    (case LimitsFromConfig cfg lt of
       None \<Rightarrow> (None, w)
     | Some r \<Rightarrow> on_part limit_db put_limit_db (BucketsDB_Reset (bucket_key lt key)) w)"
  by (auto simp: local_rate_def port_simps wiring_simps LimitChecker_Allow_def LimitChecker_Reset_def
      NewLimitChecker_def NewLimiter_def Limiter_Allow_def Limiter_Reset_def split: option.split)

lemma Allow_result_cases:
  obtains b where "BucketsDB_Allow m k l win db = (Inr b, snd (BucketsDB_Allow m k l win db))"
  using Allow_decision [of m k l win db] by (metis prod.collapse)

lemma attempt_event_steps:
  "event_ok (attempt_event cfg m login password ip lt) db \<longleftrightarrow>
    fst (BucketsDB_Allow (moment_of lt m) (attempt_key lt login password ip) (attempts cfg lt) (config_Window cfg) db)
      = Inr True"
  "bucket_step (attempt_event cfg m login password ip lt) db =
    snd (BucketsDB_Allow (moment_of lt m) (attempt_key lt login password ip) (attempts cfg lt) (config_Window cfg) db)"
  by (simp_all add: attempt_event_def)

text \<open>The check of the local server, over the store of attempts.\<close>

lemma local_Check:
  "RateLimiterService_Check (local_rate cfg) m login password ip w =
    (case SubnetPolicer_Check (policer w) ip of
       DecisionDeny \<Rightarrow> (Inr False, w)
     | DecisionAllow \<Rightarrow> (Inr True, w)
     | DecisionContinue \<Rightarrow>
         (let es = three_events cfg m login password ip in
          (Inr (all_ok es (limit_db w)), put_limit_db (bucket_run (made es (limit_db w)) (limit_db w)) w)))"
proof (cases "SubnetPolicer_Check (policer w) ip")
  case DecisionContinue
  let ?win = "config_Window cfg"
  obtain b1 db1 where s1: "BucketsDB_Allow (at_login m) (bucket_key LoginLimit login) (LoginAttempts cfg) ?win
      (limit_db w) = (Inr b1, db1)" by (metis Allow_result_cases)
  obtain b2 db2 where s2: "BucketsDB_Allow (at_password m) (bucket_key PasswordLimit (hashPassword password))
      (PasswordAttempts cfg) ?win db1 = (Inr b2, db2)" by (metis Allow_result_cases)
  obtain b3 db3 where s3: "BucketsDB_Allow (at_ip m) (bucket_key IPLimit (IP_String ip))
      (IPAttempts cfg) ?win db2 = (Inr b3, db3)" by (metis Allow_result_cases)
  have policy: "policer_Check (subnetPolicer (local_rate cfg)) ip w = DecisionContinue"
    by (simp add: local_rate_def port_simps DecisionContinue)
  show ?thesis
    unfolding RateLimiterService_Check_def policy DecisionContinue
    by (simp add: checker_local on_part_def s1 s2 s3 attempt_event_def attempt_key_def attempts_def
        moment_of_def Let_def)
qed (simp_all add: RateLimiterService_Check_def local_rate_def port_simps)

lemma local_Reset:
  "RateLimiterService_Reset (local_rate cfg) login password ip w =
    (None, put_limit_db (bucket_run (map (\<lambda>lt. ResetKey (attempt_key lt login password ip))
      [LoginLimit, PasswordLimit, IPLimit]) (limit_db w)) w)"
proof -
  have "BucketsDB_Reset k db = (None, snd (BucketsDB_Reset k db))" for k db
    by (metis Reset_result prod.collapse)
  then have part: "on_part limit_db put_limit_db (BucketsDB_Reset k) v
      = (None, put_limit_db (snd (BucketsDB_Reset k (limit_db v))) v)" for k v
    by (metis case_prod_conv on_part_def)
  show ?thesis
    by (simp add: RateLimiterService_Reset_def checker_local part attempt_key_def Let_def)
qed

section \<open>Checking an attempt\<close>

text \<open>
  C13. The answer to \<open>CheckAttempt\<close> and all that serving it changes: a text that is no address is
  refused with \<open>ErrInvalidIP\<close>, a listed address is answered by the lists alone and nothing is
  counted, and otherwise the login, the password hash and the address are counted in this order up
  to the first refusal, the attempt being allowed when none refuses.
\<close>

theorem check_attempt_outcome:
  "serve (local_server cfg) (CheckAttempt m req) w =
    (case ParseIP (req_Ip req) of
       None \<Rightarrow> (Failed (Sentinel (GrpcErr ErrInvalidIPAddress)), w)
     | Some ip \<Rightarrow>
         (case SubnetPolicer_Check (policer w) ip of
            DecisionAllow \<Rightarrow> (Checked True, w)
          | DecisionDeny \<Rightarrow> (Checked False, w)
          | DecisionContinue \<Rightarrow>
              (let es = three_events cfg m (req_Login req) (req_Password req) ip in
               (Checked (all_ok es (limit_db w)),
                put_limit_db (bucket_run (made es (limit_db w)) (limit_db w)) w))))"
  by (simp add: local_server_def NewServer_def serve.simps Server_CheckAttempt_def port_simps local_Check Let_def
      split: option.split PolicyDecision.split)

text \<open>The same equation for the proofs below.\<close>

lemma serve_check:
  assumes "ParseIP (req_Ip req) = Some ip"
  shows "serve (local_server cfg) (CheckAttempt m req) w =
    (case SubnetPolicer_Check (policer w) ip of
       DecisionAllow \<Rightarrow> (Checked True, w)
     | DecisionDeny \<Rightarrow> (Checked False, w)
     | DecisionContinue \<Rightarrow>
         (let es = three_events cfg m (req_Login req) (req_Password req) ip in
          (Checked (all_ok es (limit_db w)),
           put_limit_db (bucket_run (made es (limit_db w)) (limit_db w)) w)))"
  using assms
  by (simp add: local_server_def NewServer_def serve.simps Server_CheckAttempt_def port_simps local_Check Let_def
      split: PolicyDecision.split)

lemma serve_check_bad_ip:
  "ParseIP (req_Ip req) = None \<Longrightarrow> serve (local_server cfg) (CheckAttempt m req) w
    = (Failed (Sentinel (GrpcErr ErrInvalidIPAddress)), w)"
  by (simp add: local_server_def NewServer_def serve.simps Server_CheckAttempt_def port_simps)

lemma serve_reset:
  "serve (local_server cfg) (ResetBucket req) w =
    (case ParseIP (reset_Ip req) of
       None \<Rightarrow> (Failed (Sentinel (GrpcErr ErrInvalidIPAddress)), w)
     | Some ip \<Rightarrow>
         (Done, put_limit_db (bucket_run (map (\<lambda>lt. ResetKey
            (attempt_key lt (reset_Login req) (reset_Password req) ip))
            [LoginLimit, PasswordLimit, IPLimit]) (limit_db w)) w))"
  by (simp add: local_server_def NewServer_def serve.simps Server_ResetBucket_def port_simps local_Reset
      split: option.split)

section \<open>Editing the lists\<close>

fun write_of :: "edit \<Rightarrow> list_write" where
  "write_of (AddW c) = WAdd Whitelist c"
| "write_of (AddB c) = WAdd Blacklist c"
| "write_of (RemoveW c) = WRemove Whitelist c"
| "write_of (RemoveB c) = WRemove Blacklist c"

lemma set_write_of: "set_write (write_of e) S = edit_sets e S"
  by (cases e) simp_all

lemma stored_write: "stored (store_write (write_of e) db) = edit_sets e (stored db)"
  "distinct_lists db \<Longrightarrow> distinct_lists (store_write (write_of e) db)"
  using store_write_refines [of "write_of e" db] by (simp_all add: set_write_of)

text \<open>An edit always changes the store; its answer is that of the reload it triggers.\<close>

lemma serve_manage:
  "serve (local_server cfg) (ManageCIDR e r1 r2) w =
    (let w1 = put_subnet_db (store_write (write_of e) (subnet_db w)) w in
     case SubnetPolicer_ReloadSubnets local_SubnetRepo r1 r2 (policer w) w1 of
       ((Some err, sp), w2) \<Rightarrow> (Failed (Wrapf ''publish subnet update'' err), put_policer sp w2)
     | ((None, sp), w2) \<Rightarrow> (Done, put_policer sp w2))"
proof -
  have add: "AddCIDRToSubnetList lt c db = (None, snd (AddCIDRToSubnetList lt c db))"
    and remove: "RemoveCIDRFromSubnetList lt c db = (None, snd (RemoveCIDRFromSubnetList lt c db))"
    for lt c db by (metis memory_never_fails prod.collapse)+
  have part: "on_part subnet_db put_subnet_db (AddCIDRToSubnetList lt c) w
      = (None, put_subnet_db (snd (AddCIDRToSubnetList lt c (subnet_db w))) w)"
    "on_part subnet_db put_subnet_db (RemoveCIDRFromSubnetList lt c) w
      = (None, put_subnet_db (snd (RemoveCIDRFromSubnetList lt c (subnet_db w))) w)" for lt c
    unfolding on_part_def by (subst add, simp) (subst remove, simp)
  show ?thesis
    unfolding local_server_def serve_edit
    by (cases e; cases "SubnetPolicer_ReloadSubnets local_SubnetRepo r1 r2 (policer w)
        (put_subnet_db (store_write (write_of e) (subnet_db w)) w)")
      (auto simp: list_service_defs NewSubnetListService_def local_publish local_reload wiring_simps
        part Let_def split: option.splits)
qed

section \<open>Reachable worlds\<close>

fun edits_of :: "request list \<Rightarrow> edit list" where
  "edits_of [] = []"
| "edits_of (ManageCIDR e _ _ # rs) = e # edits_of rs"
| "edits_of (_ # rs) = edits_of rs"

lemma serve_manage_facts:
  assumes "local_ok w" "fair_order r1" "fair_order r2"
    and "serve (local_server cfg) (ManageCIDR e r1 r2) w = (a, w')"
  shows "local_ok w'" "limit_db w' = limit_db w"
    and "stored (subnet_db w') = edit_sets e (stored (subnet_db w))"
    and "a = Done \<Longrightarrow> white_texts (policer w') = stored (subnet_db w') Whitelist \<and>
      black_texts (policer w') = stored (subnet_db w') Blacklist \<and>
      (\<forall>c \<in> stored (subnet_db w') Whitelist \<union> stored (subnet_db w') Blacklist. valid_cidr c)"
proof -
  let ?w1 = "put_subnet_db (store_write (write_of e) (subnet_db w)) w"
  obtain err sp w2 where r: "SubnetPolicer_ReloadSubnets local_SubnetRepo r1 r2 (policer w) ?w1 = ((err, sp), w2)"
    by (metis prod.exhaust)
  have w2: "limit_db w2 = limit_db w" "subnet_db w2 = store_write (write_of e) (subnet_db w)"
    using reload_state [of r1 r2 "policer w" ?w1] by (simp_all add: r)
  from assms(4) have res: "w' = put_policer sp w2" "a = Done \<Longrightarrow> err = None"
    by (auto simp: serve_manage r split: option.splits)
  have ok: "distinct_lists (subnet_db ?w1)" "policer_wired (policer w)"
    using assms(1) stored_write(2) by (simp_all add: local_ok_def)
  note c = local_lists.reload_cases [OF ok(1) assms(2,3) ok(2) r]
  show "local_ok w'" "limit_db w' = limit_db w"
    using c w2 by (simp_all add: res(1) local_ok_def)
  show st: "stored (subnet_db w') = edit_sets e (stored (subnet_db w))"
    using stored_write(1) by (simp add: res(1) w2)
  show "a = Done \<Longrightarrow> white_texts (policer w') = stored (subnet_db w') Whitelist \<and>
      black_texts (policer w') = stored (subnet_db w') Blacklist \<and>
      (\<forall>c \<in> stored (subnet_db w') Whitelist \<union> stored (subnet_db w') Blacklist. valid_cidr c)"
    using c res st by (simp add: stored_write(1))
qed

lemma serve_check_lists:
  "subnet_db (snd (serve (local_server cfg) (CheckAttempt m req) w)) = subnet_db w \<and>
    policer (snd (serve (local_server cfg) (CheckAttempt m req) w)) = policer w"
  by (cases "ParseIP (req_Ip req)")
    (simp_all add: serve_check serve_check_bad_ip Let_def split: PolicyDecision.split)

lemma serve_reset_lists:
  "subnet_db (snd (serve (local_server cfg) (ResetBucket req) w)) = subnet_db w \<and>
    policer (snd (serve (local_server cfg) (ResetBucket req) w)) = policer w"
  by (simp add: serve_reset split: option.split)

text \<open>The invariant of the served worlds, and the stored lists as the outcome of all edits.\<close>

lemma run_facts:
  assumes "local_ok w" "\<forall>r \<in> set rs. fair_request r"
  shows "local_ok (snd (serve_all (local_server cfg) rs w)) \<and>
    stored (subnet_db (snd (serve_all (local_server cfg) rs w))) = fold edit_sets (edits_of rs) (stored (subnet_db w))"
  using assms
proof (induction rs arbitrary: w)
  case Nil
  then show ?case by simp
next
  case (Cons r rs)
  show ?case
  proof (cases r)
    case (ManageCIDR e r1 r2)
    obtain a w1 where s: "serve (local_server cfg) r w = (a, w1)" by fastforce
    with serve_manage_facts [of w r1 r2 cfg e a w1] Cons.IH [of w1] Cons.prems ManageCIDR
    show ?thesis by (simp add: serve_all_Cons_snd)
  next
    case (CheckAttempt m req)
    with serve_check_lists [of cfg m req w] Cons.IH [of "snd (serve (local_server cfg) r w)"] Cons.prems
    show ?thesis by (simp add: serve_all_Cons_snd local_ok_def)
  next
    case (ResetBucket req)
    with serve_reset_lists [of cfg req w] Cons.IH [of "snd (serve (local_server cfg) r w)"] Cons.prems
    show ?thesis by (simp add: serve_all_Cons_snd local_ok_def)
  qed
qed

text \<open>
  The answer to an edit: it succeeds exactly when every text that is stored after it is valid, and
  otherwise reports \<open>ErrInvalidCIDR\<close>.
\<close>

lemma reload_none_iff:
  assumes "distinct_lists (subnet_db w)" "fair_order r1" "fair_order r2" "policer_wired sp"
    and "SubnetPolicer_ReloadSubnets local_SubnetRepo r1 r2 sp w = ((err, sp'), w')"
  shows "(err = None \<longleftrightarrow>
      (\<forall>c \<in> stored (subnet_db w) Whitelist \<union> stored (subnet_db w) Blacklist. valid_cidr c)) \<and>
    (\<forall>e. err = Some e \<longrightarrow> errors_Is e (SubnetlistErr ErrInvalidCIDR))"
proof -
  let ?S = "stored (subnet_db w)"
  from assms(4) obtain wl bl where sp: "sp = \<lparr>pol_Whitelist = Some wl, pol_Blacklist = Some bl\<rparr>"
      and wl: "listType wl = Whitelist" "list_ok wl" and bl: "listType bl = Blacklist" "list_ok bl"
    by (auto simp: policer_wired_def)
  have read: "\<exists>cs. fst (repo_GetSubnetLists local_SubnetRepo r lt v) = Inr cs" for r lt v
    using GetSubnetLists_result [of r lt "subnet_db v"] by (auto simp: wiring_simps)
  obtain e1 wl1 w1 where l1: "SubnetList_Load local_SubnetRepo r1 wl w = ((e1, wl1), w1)"
    by (metis prod.exhaust)
  obtain e2 bl2 w2 where l2: "SubnetList_Load local_SubnetRepo r2 bl w1 = ((e2, bl2), w2)"
    by (metis prod.exhaust)
  note c1 = local_lists.Load_cases [OF assms(1,2) wl(2) l1, unfolded wl(1)]
  from c1 have "distinct_lists (subnet_db w1)" by blast
  note c2 = local_lists.Load_cases [OF this assms(3) bl(2) l2, unfolded bl(1)]
  have e1: "(e1 = None \<longleftrightarrow> (\<forall>c \<in> ?S Whitelist. valid_cidr c)) \<and>
      (\<forall>e. e1 = Some e \<longrightarrow> errors_Is e (SubnetlistErr ErrInvalidCIDR))"
    using c1 read [of r1 Whitelist w] by (cases e1) auto
  have e2: "(e2 = None \<longleftrightarrow> (\<forall>c \<in> ?S Blacklist. valid_cidr c)) \<and>
      (\<forall>e. e2 = Some e \<longrightarrow> errors_Is e (SubnetlistErr ErrInvalidCIDR))"
    using c1 c2 read [of r2 Blacklist w1] by (cases e2) auto
  have "err = (case e1 of None \<Rightarrow> map_option (Wrapf ''update blacklist'') e2
      | Some e \<Rightarrow> Some (Wrapf ''update whitelist'' e))"
    using assms(5) by (auto simp: SubnetPolicer_ReloadSubnets_def reload_list_def sp l1 l2 split: option.splits)
  with e1 e2 show ?thesis by (auto split: option.splits)
qed

lemma manage_answer:
  assumes "local_ok w" "fair_order r1" "fair_order r2"
    and "S = edit_sets e (stored (subnet_db w))"
  shows "(fst (serve (local_server cfg) (ManageCIDR e r1 r2) w) = Done \<longleftrightarrow>
      (\<forall>c \<in> S Whitelist \<union> S Blacklist. valid_cidr c)) \<and>
    (fst (serve (local_server cfg) (ManageCIDR e r1 r2) w) = Done \<or>
      (\<exists>err. fst (serve (local_server cfg) (ManageCIDR e r1 r2) w) = Failed err \<and>
        errors_Is err (SubnetlistErr ErrInvalidCIDR)))"
proof -
  let ?w1 = "put_subnet_db (store_write (write_of e) (subnet_db w)) w"
  obtain err sp w2 where r: "SubnetPolicer_ReloadSubnets local_SubnetRepo r1 r2 (policer w) ?w1 = ((err, sp), w2)"
    by (metis prod.exhaust)
  have "distinct_lists (subnet_db ?w1)" "policer_wired (policer w)"
    using assms(1) stored_write(2) by (simp_all add: local_ok_def)
  from reload_none_iff [OF this(1) assms(2,3) this(2) r] show ?thesis
    by (cases err) (simp_all add: serve_manage r Let_def stored_write(1) assms(4))
qed

text \<open>While a stored white-list text is invalid, an edit leaves the black list in effect as it is.\<close>

lemma manage_poisoned:
  assumes "local_ok w" "fair_order r1" "fair_order r2"
    and "c \<in> edit_sets e (stored (subnet_db w)) Whitelist" "\<not> valid_cidr c"
  shows "black_texts (policer (snd (serve (local_server cfg) (ManageCIDR e r1 r2) w)))
    = black_texts (policer w)"
proof -
  let ?w1 = "put_subnet_db (store_write (write_of e) (subnet_db w)) w"
  obtain err sp w2 where r: "SubnetPolicer_ReloadSubnets local_SubnetRepo r1 r2 (policer w) ?w1 = ((err, sp), w2)"
    by (metis prod.exhaust)
  have ok: "distinct_lists (subnet_db ?w1)" "policer_wired (policer w)"
    using assms(1) stored_write(2) by (simp_all add: local_ok_def)
  obtain cs where cs: "fst (repo_GetSubnetLists local_SubnetRepo r1 Whitelist ?w1) = Inr cs"
    using GetSubnetLists_result [of r1 Whitelist "subnet_db ?w1"] by (auto simp: wiring_simps)
  have "c \<in> stored (subnet_db ?w1) Whitelist"
    using assms(4) by (simp add: stored_write(1))
  from local_lists.reload_poisoned [OF ok(1) assms(2) ok(2) this assms(5) cs r] show ?thesis
    by (auto simp: serve_manage r Let_def)
qed

text \<open>What the lists say of an address is what the server answers.\<close>

lemma serve_listed:
  assumes "ParseIP (req_Ip req) = Some ip"
  shows "SubnetPolicer_Check (policer w) ip = DecisionAllow \<Longrightarrow>
      serve (local_server cfg) (CheckAttempt m req) w = (Checked True, w)"
    and "SubnetPolicer_Check (policer w) ip = DecisionDeny \<Longrightarrow>
      serve (local_server cfg) (CheckAttempt m req) w = (Checked False, w)"
  by (simp_all add: serve_check [OF assms])

end
