(* ===== verification/Local_Counting.thy ===== *)
theory Local_Counting
  imports Local_Behaviour
begin

text \<open>
  The counting side of the local server: a run of requests is, for the store of attempts, a run of
  bucket events, so what is proved of the store's runs holds of the attempts the server answers.
\<close>

section \<open>The events of a request\<close>

fun request_events :: "config_Limits \<Rightarrow> request \<Rightarrow> local_world \<Rightarrow> bucket_event list" where
  "request_events cfg (CheckAttempt m req) w =
     (case ParseIP (req_Ip req) of
        None \<Rightarrow> []
      | Some ip \<Rightarrow>
          if SubnetPolicer_Check (policer w) ip = DecisionContinue
          then made (three_events cfg m (req_Login req) (req_Password req) ip) (limit_db w)
          else [])"
| "request_events cfg (ResetBucket req) w =
     (case ParseIP (reset_Ip req) of
        None \<Rightarrow> []
      | Some ip \<Rightarrow>
          map (\<lambda>lt. ResetKey (attempt_key lt (reset_Login req) (reset_Password req) ip))
            [LoginLimit, PasswordLimit, IPLimit])"
| "request_events cfg (ManageCIDR e r1 r2) w = []"

fun run_events :: "config_Limits \<Rightarrow> request list \<Rightarrow> local_world \<Rightarrow> bucket_event list" where
  "run_events cfg [] w = []"
| "run_events cfg (r # rs) w =
     request_events cfg r w @ run_events cfg rs (snd (serve (local_server cfg) r w))"

lemma event_times_append: "event_times (es @ es') = event_times es @ event_times es'"
  by (induction es rule: event_times.induct) simp_all

lemma serve_manage_limit_db:
  "limit_db (snd (serve (local_server cfg) (ManageCIDR e r1 r2) w)) = limit_db w"
  using reload_state [of r1 r2 "policer w" "put_subnet_db (store_write (write_of e) (subnet_db w)) w"]
  by (auto simp: serve_manage Let_def split: prod.split option.split)

lemma serve_limit_db:
  "limit_db (snd (serve (local_server cfg) r w)) = bucket_run (request_events cfg r w) (limit_db w)"
proof (cases r)
  case (CheckAttempt m req)
  then show ?thesis
    by (cases "ParseIP (req_Ip req)")
      (auto simp: serve_check serve_check_bad_ip Let_def split: PolicyDecision.split)
next
  case (ResetBucket req)
  then show ?thesis
    by (simp add: serve_reset split: option.split)
next
  case (ManageCIDR e r1 r2)
  then show ?thesis by (simp add: serve_manage_limit_db)
qed

lemma run_limit_db:
  "limit_db (snd (serve_all (local_server cfg) rs w)) = bucket_run (run_events cfg rs w) (limit_db w)"
  by (induction rs arbitrary: w) (simp_all add: serve_all_Cons_snd serve_limit_db bucket_run_append)

section \<open>The attempts that were counted and allowed\<close>

definition counted :: "request \<Rightarrow> local_world \<Rightarrow> bool" where
  "counted r w = (case r of
     CheckAttempt m req \<Rightarrow>
       (case ParseIP (req_Ip req) of
          None \<Rightarrow> False
        | Some ip \<Rightarrow> SubnetPolicer_Check (policer w) ip = DecisionContinue)
   | _ \<Rightarrow> False)"

text \<open>The key of an attempt under a limit type; no key when its address does not parse.\<close>

fun request_key :: "LimitType \<Rightarrow> request \<Rightarrow> string option" where
  "request_key lt (CheckAttempt m req) =
     map_option (attempt_key lt (req_Login req) (req_Password req)) (ParseIP (req_Ip req))"
| "request_key lt (ResetBucket req) =
     map_option (attempt_key lt (reset_Login req) (reset_Password req)) (ParseIP (reset_Ip req))"
| "request_key lt (ManageCIDR e r1 r2) = None"

fun request_time :: "LimitType \<Rightarrow> request \<Rightarrow> int" where
  "request_time lt (CheckAttempt m req) = now (moment_of lt m)"
| "request_time lt _ = 0"

text \<open>When the attempts on a key were made that the lists left to the counters and that were allowed.\<close>

fun granted :: "config_Limits \<Rightarrow> LimitType \<Rightarrow> string \<Rightarrow> request list \<Rightarrow> local_world \<Rightarrow> int list" where
  "granted cfg lt k [] w = []"
| "granted cfg lt k (r # rs) w =
     (if counted r w \<and> fst (serve (local_server cfg) r w) = Checked True \<and> request_key lt r = Some k
      then [request_time lt r] else [])
     @ granted cfg lt k rs (snd (serve (local_server cfg) r w))"

lemma all_ok_made: "all_ok es db \<Longrightarrow> made es db = es"
  by (induction es arbitrary: db) auto

lemma subseq_made_accepted:
  assumes "all_ok es db" "AllowAt m k l win \<in> set es"
  shows "now m \<in> set (accepted k es db)"
  using assms
proof (induction es arbitrary: db)
  case (Cons e es)
  then show ?case by (cases "e = AllowAt m k l win") auto
qed simp

lemma granted_accepted:
  assumes "lt \<in> limit_types"
  shows "subseq (granted cfg lt k rs w) (accepted k (run_events cfg rs w) (limit_db w))"
proof (induction rs arbitrary: w)
  case (Cons r rs)
  let ?w = "snd (serve (local_server cfg) r w)"
  have "subseq (if counted r w \<and> fst (serve (local_server cfg) r w) = Checked True \<and> request_key lt r = Some k
      then [request_time lt r] else []) (accepted k (request_events cfg r w) (limit_db w))"
  proof (cases "counted r w \<and> fst (serve (local_server cfg) r w) = Checked True \<and> request_key lt r = Some k")
    case True
    then obtain m req ip where r: "r = CheckAttempt m req" "ParseIP (req_Ip req) = Some ip"
      and continue: "SubnetPolicer_Check (policer w) ip = DecisionContinue"
      and key: "attempt_key lt (req_Login req) (req_Password req) ip = k"
      by (cases r) (auto simp: counted_def split: option.splits)
    let ?es = "three_events cfg m (req_Login req) (req_Password req) ip"
    have ok: "all_ok ?es (limit_db w)"
      using True by (simp add: r serve_check continue Let_def del: all_ok.simps)
    have "AllowAt (moment_of lt m) k (attempts cfg lt) (config_Window cfg) \<in> set ?es"
      unfolding key [symmetric] using assms by (auto simp: limit_types_def attempt_event_def)
    from subseq_made_accepted [OF ok this] have "now (moment_of lt m) \<in> set (accepted k ?es (limit_db w))" .
    moreover have "request_events cfg r w = ?es"
      by (simp only: r request_events.simps option.case continue refl if_True all_ok_made [OF ok])
    moreover have "request_time lt r = now (moment_of lt m)"
      by (simp add: r)
    ultimately show ?thesis
      using True by (simp only: simp_thms if_True subseq_singleton_left)
  next
    case False
    then show ?thesis by (simp only: if_False list_emb_Nil)
  qed
  with Cons.IH [of ?w] show ?case
    by (simp only: granted.simps run_events.simps accepted_append serve_limit_db [symmetric] list_emb_append_mono)
qed simp

section \<open>The clock and the rules of a run\<close>

fun request_times :: "request \<Rightarrow> int list" where
  "request_times (CheckAttempt m req) = [now (at_login m), now (at_password m), now (at_ip m)]"
| "request_times _ = []"

lemma made_prefix: "prefix (made es db) es"
  by (induction es arbitrary: db) auto

lemma event_times_subseq: "subseq es es' \<Longrightarrow> subseq (event_times es) (event_times es')"
proof (induction rule: list_emb.induct)
  case (list_emb_Cons xs ys y)
  then show ?case by (cases y) auto
next
  case (list_emb_Cons2 x y xs ys)
  then show ?case by (cases y) auto
qed simp

lemma run_event_times:
  "subseq (event_times (run_events cfg rs w)) (concat (map request_times rs))"
proof (induction rs arbitrary: w)
  case (Cons r rs)
  have "subseq (event_times (request_events cfg r w)) (request_times r)"
  proof (cases r)
    case (CheckAttempt m req)
    have "subseq (event_times (made (three_events cfg m (req_Login req) (req_Password req) ip) (limit_db w)))
        (event_times (three_events cfg m (req_Login req) (req_Password req) ip))" for ip
      by (rule event_times_subseq) (rule prefix_imp_subseq [OF made_prefix])
    moreover have "event_times (three_events cfg m (req_Login req) (req_Password req) ip) = request_times r" for ip
      by (simp add: CheckAttempt attempt_event_def moment_of_def)
    ultimately show ?thesis
      by (simp add: CheckAttempt del: made.simps list.map split: option.split)
  qed (auto split: option.split)
  with Cons.IH show ?case
    by (simp add: event_times_append list_emb_append_mono)
qed simp

lemma sorted_subseq: "subseq xs ys \<Longrightarrow> sorted ys \<Longrightarrow> sorted (xs :: int list)"
proof (induction rule: list_emb.induct)
  case (list_emb_Cons2 x y xs ys)
  then show ?case by (auto dest: list_emb_set)
qed simp_all

lemma request_ruled:
  assumes "lt \<in> limit_types" "k = attempt_key lt l0 p0 ip0"
    and "\<forall>req. r = ResetBucket req \<longrightarrow> request_key lt r \<noteq> Some k"
    and "e \<in> set (request_events cfg r w)"
  shows "ruled k (attempts cfg lt) (config_Window cfg) e"
proof (cases r)
  case (CheckAttempt m req)
  with assms(4) obtain ip where
    "e \<in> set (made (three_events cfg m (req_Login req) (req_Password req) ip) (limit_db w))"
    by (auto simp del: made.simps list.map split: option.splits if_splits)
  with set_mono_prefix [OF made_prefix] obtain lt' where lt': "lt' \<in> limit_types"
    "e = attempt_event cfg m (req_Login req) (req_Password req) ip lt'"
    by (fastforce simp: limit_types_def)
  have "lt = lt'" if "attempt_key lt' (req_Login req) (req_Password req) ip = k"
    using attempt_key_inject_type [OF assms(1) lt'(1)] assms(2) that by metis
  then show ?thesis
    using lt'(2) by (auto simp: attempt_event_def)
next
  case (ResetBucket req)
  with assms(4) obtain ip where parsed: "ParseIP (reset_Ip req) = Some ip"
    and "e \<in> (\<lambda>lt. ResetKey (attempt_key lt (reset_Login req) (reset_Password req) ip)) ` limit_types"
    by (cases "ParseIP (reset_Ip req)") (auto simp: limit_types_def)
  then obtain lt' where ip: "ParseIP (reset_Ip req) = Some ip" "lt' \<in> limit_types"
    and e: "e = ResetKey (attempt_key lt' (reset_Login req) (reset_Password req) ip)"
    by blast
  have "lt = lt'" if "k = attempt_key lt' (reset_Login req) (reset_Password req) ip"
    using attempt_key_inject_type [OF assms(1) ip(2)] assms(2) that by metis
  with assms(3) ResetBucket ip e show ?thesis by auto
qed (use assms(4) in simp)

lemma run_ruled:
  assumes "lt \<in> limit_types" "k = attempt_key lt l0 p0 ip0"
    and "\<forall>req. ResetBucket req \<in> set rs \<longrightarrow> request_key lt (ResetBucket req) \<noteq> Some k"
  shows "\<forall>e \<in> set (run_events cfg rs w). ruled k (attempts cfg lt) (config_Window cfg) e"
  using assms(3)
proof (induction rs arbitrary: w)
  case (Cons r rs)
  then show ?case
    using request_ruled [OF assms(1,2), of r _ cfg w] by auto
qed simp

lemma filter_length_subseq: "subseq xs ys \<Longrightarrow> length (filter P xs) \<le> length (filter P ys)"
  by (rule list_emb_length) (rule subseq_filter)

section \<open>The three counters of one attempt\<close>

text \<open>
  A counter as a list of stamps, what of it is live at a moment, whether one more attempt fits, and
  the counter with the attempt recorded.
\<close>

definition counter :: "local_world \<Rightarrow> string \<Rightarrow> int list" where
  "counter w k = stamps (limit_db w) k"

definition live_stamps :: "config_Limits \<Rightarrow> moment \<Rightarrow> local_world \<Rightarrow> string \<Rightarrow> int list" where
  "live_stamps cfg m w k = dropWhile (\<lambda>t. t \<le> UnixMilli (now m - config_Window cfg)) (counter w k)"

definition has_room :: "config_Limits \<Rightarrow> LimitType \<Rightarrow> moment \<Rightarrow> local_world \<Rightarrow> string \<Rightarrow> bool" where
  "has_room cfg lt m w k \<longleftrightarrow> int (length (live_stamps cfg m w k)) < attempts cfg lt"

definition recorded :: "config_Limits \<Rightarrow> moment \<Rightarrow> local_world \<Rightarrow> string \<Rightarrow> int list" where
  "recorded cfg m w k = live_stamps cfg m w k @ [UnixMilli (now m)]"

lemma distinct_attempt_keys:
  "attempt_key LoginLimit l p ip \<noteq> attempt_key PasswordLimit l' p' ip'"
  "attempt_key LoginLimit l p ip \<noteq> attempt_key IPLimit l' p' ip'"
  "attempt_key PasswordLimit l p ip \<noteq> attempt_key IPLimit l' p' ip'"
  using attempt_key_inject_type [of LoginLimit PasswordLimit l p ip l' p' ip']
    attempt_key_inject_type [of LoginLimit IPLimit l p ip l' p' ip']
    attempt_key_inject_type [of PasswordLimit IPLimit l p ip l' p' ip']
  by (auto simp: limit_types_def)

lemma attempt_other_key:
  "k \<noteq> attempt_key lt login password ip \<Longrightarrow>
    stamps (bucket_step (attempt_event cfg m login password ip lt) db) k = stamps db k"
  by (simp add: attempt_event_def bucket_frame)

lemma made_other_key:
  assumes "\<forall>lt \<in> limit_types. k \<noteq> attempt_key lt login password ip"
  shows "stamps (bucket_run (made (three_events cfg m login password ip) db) db) k = stamps db k"
  using assms by (simp add: limit_types_def attempt_other_key)

lemma attempt_own_key:
  assumes "0 < config_Window cfg" "0 < attempts cfg lt" "stamps db k = counter w k"
    and "k = attempt_key lt login password ip"
  shows "event_ok (attempt_event cfg m login password ip lt) db \<longleftrightarrow> has_room cfg lt (moment_of lt m) w k"
    and "stamps (bucket_step (attempt_event cfg m login password ip lt) db) k =
      (if has_room cfg lt (moment_of lt m) w k then recorded cfg (moment_of lt m) w k
       else live_stamps cfg (moment_of lt m) w k)"
  using assms
  by (simp_all add: attempt_event_def Allow_decision Allow_stamps has_room_def live_stamps_def
      recorded_def evict_dropWhile Let_def)

text \<open>With its three counters empty an attempt is allowed exactly when every limit is positive.\<close>

lemma fresh_three:
  assumes "\<forall>lt \<in> limit_types. stamps db (attempt_key lt login password ip) = []"
  shows "all_ok (three_events cfg m login password ip) db \<longleftrightarrow> (\<forall>lt \<in> limit_types. 0 < attempts cfg lt)"
proof -
  have fresh: "event_ok (attempt_event cfg m login password ip lt) db' \<longleftrightarrow> 0 < attempts cfg lt"
    if "stamps db' (attempt_key lt login password ip) = []" for lt db'
    using that by (auto simp: attempt_event_def Allow_decision evict_dropWhile)
  show ?thesis
    using assms fresh attempt_other_key distinct_attempt_keys distinct_attempt_keys [THEN not_sym]
    by (simp add: limit_types_def)
qed

text \<open>
  What an attempt does to the three counters: they are asked in turn, a counter that has room
  records the attempt, and the first without room ends it, the later ones staying as they were.
\<close>

lemma three_counters:
  assumes "0 < config_Window cfg" "\<forall>lt \<in> limit_types. 0 < attempts cfg lt"
    and "kl = attempt_key LoginLimit login password ip" "kp = attempt_key PasswordLimit login password ip"
      "ki = attempt_key IPLimit login password ip"
    and "w' = put_limit_db (bucket_run (made (three_events cfg m login password ip) (limit_db w)) (limit_db w)) w"
    and "ok = all_ok (three_events cfg m login password ip) (limit_db w)"
  shows "if \<not> has_room cfg LoginLimit (at_login m) w kl then
      \<not> ok \<and> counter w' kl = live_stamps cfg (at_login m) w kl \<and>
      counter w' kp = counter w kp \<and> counter w' ki = counter w ki
    else if \<not> has_room cfg PasswordLimit (at_password m) w kp then
      \<not> ok \<and> counter w' kl = recorded cfg (at_login m) w kl \<and>
      counter w' kp = live_stamps cfg (at_password m) w kp \<and> counter w' ki = counter w ki
    else if \<not> has_room cfg IPLimit (at_ip m) w ki then
      \<not> ok \<and> counter w' kl = recorded cfg (at_login m) w kl \<and>
      counter w' kp = recorded cfg (at_password m) w kp \<and> counter w' ki = live_stamps cfg (at_ip m) w ki
    else
      ok \<and> counter w' kl = recorded cfg (at_login m) w kl \<and>
      counter w' kp = recorded cfg (at_password m) w kp \<and> counter w' ki = recorded cfg (at_ip m) w ki"
proof -
  let ?e = "attempt_event cfg m login password ip"
  let ?d0 = "limit_db w"
  let ?d1 = "bucket_step (?e LoginLimit) ?d0"
  let ?d2 = "bucket_step (?e PasswordLimit) ?d1"
  let ?d3 = "bucket_step (?e IPLimit) ?d2"
  have pos: "0 < attempts cfg LoginLimit" "0 < attempts cfg PasswordLimit" "0 < attempts cfg IPLimit"
    using assms(2) by (simp_all add: limit_types_def)
  have keys: "kl \<noteq> kp" "kl \<noteq> ki" "kp \<noteq> ki"
    unfolding assms(3-5) by (rule distinct_attempt_keys)+
  note off = attempt_other_key [of _ LoginLimit login password ip cfg m, folded assms(3)]
    attempt_other_key [of _ PasswordLimit login password ip cfg m, folded assms(4)]
    attempt_other_key [of _ IPLimit login password ip cfg m, folded assms(5)]
  have s: "stamps ?d0 kl = counter w kl" "stamps ?d1 kp = counter w kp" "stamps ?d2 ki = counter w ki"
    using keys by (simp_all add: counter_def off)
  note l = attempt_own_key [OF assms(1) pos(1) s(1) assms(3), of m]
    and p = attempt_own_key [OF assms(1) pos(2) s(2) assms(4), of m]
    and i = attempt_own_key [OF assms(1) pos(3) s(3) assms(5), of m]
  have m: "moment_of LoginLimit m = at_login m" "moment_of PasswordLimit m = at_password m"
    "moment_of IPLimit m = at_ip m" by (simp_all add: moment_of_def)
  show ?thesis
    using keys by (simp add: assms(6,7) l p i m off counter_def)
qed

section \<open>A configuration and an attempt for examples\<close>

lemma witness_address: "ParseIP ''1.2.3.4'' = Some (v4InV6Prefix @ [1, 2, 3, 4])"
  by (simp add: ParseIP_def ParseAddr_def parseIPv4_def digit_val_def Let_def)

abbreviation witness_limits :: config_Limits where
  "witness_limits \<equiv>
     \<lparr>LoginAttempts = 1, PasswordAttempts = 10, IPAttempts = 10, config_Window = 1000000000\<rparr>"

abbreviation witness_at :: "int \<Rightarrow> moments" where
  "witness_at t \<equiv> \<lparr>at_login = \<lparr>now = t, rnd = Inr 0\<rparr>, at_password = \<lparr>now = t, rnd = Inr 0\<rparr>,
     at_ip = \<lparr>now = t, rnd = Inr 0\<rparr>\<rparr>"

abbreviation witness_req :: CheckAttemptRequest where
  "witness_req \<equiv> \<lparr>req_Login = ''u'', req_Password = ''p'', req_Ip = ''1.2.3.4''\<rparr>"

lemma init_continue: "SubnetPolicer_Check (policer local_init) ip = DecisionContinue"
  using Check_decides [of "policer local_init" ip] local_init_ok by (simp add: local_ok_def decide_def)

lemma init_counter [simp]: "counter local_init k = []"
  by (simp add: counter_def local_init_ok)

end
