(* ===== verification/Postgres_Subnets.thy ===== *)
theory Postgres_Subnets
  imports Memory_Subnets Config
begin

text \<open>
  \<open>internal/storage/postgresdb\<close>: the store of the subnet lists in one table of pairs of text and
  list type, and the opening of the database. The driver is a third party: running a statement is a
  field of a record, with one constructor for each query text of the file, and what the store
  relies on is the predicate \<open>lawful_sql\<close>.
\<close>

section \<open>Statements and the store\<close>

record subnetRow =
  row_CIDR :: string
  row_ListType :: string

datatype sql_stmt =
    SelectCidrs string
  | InsertRows "subnetRow list"
  | DeleteByType string
  | DeleteRow subnetRow

record 'w sql_db =
  db_Select :: "sql_stmt \<Rightarrow> 'w \<Rightarrow> string list result \<times> 'w"
  db_Exec :: "sql_stmt \<Rightarrow> 'w \<Rightarrow> go_error option \<times> 'w"
  db_Close :: "'w \<Rightarrow> go_error option \<times> 'w"

record 'w Pg_SubnetListDB =
  db :: "'w sql_db"

definition Pg_GetSubnetLists ::
  "'w Pg_SubnetListDB \<Rightarrow> range_order \<Rightarrow> ListType \<Rightarrow> 'w \<Rightarrow> string list result \<times> 'w" where
  "Pg_GetSubnetLists s r lt w =
     (case db_Select (db s) (SelectCidrs lt) w of
        (Inl err, w1) \<Rightarrow> (Inl err, w1)
      | (Inr cidrs, w1) \<Rightarrow> (Inr cidrs, w1))"

definition Pg_SaveSubnetList ::
  "'w Pg_SubnetListDB \<Rightarrow> ListType \<Rightarrow> string list \<Rightarrow> 'w \<Rightarrow> go_error option \<times> 'w" where
  "Pg_SaveSubnetList s lt cidrs w =
     (if length cidrs = 0 then (None, w)
      else let rows = map (\<lambda>cidr. \<lparr>row_CIDR = cidr, row_ListType = lt\<rparr>) cidrs
        in db_Exec (db s) (InsertRows rows) w)"

definition Pg_ClearSubnetList :: "'w Pg_SubnetListDB \<Rightarrow> ListType \<Rightarrow> 'w \<Rightarrow> go_error option \<times> 'w" where
  "Pg_ClearSubnetList s lt w = db_Exec (db s) (DeleteByType lt) w"

definition Pg_AddCIDR :: "'w Pg_SubnetListDB \<Rightarrow> ListType \<Rightarrow> string \<Rightarrow> 'w \<Rightarrow> go_error option \<times> 'w" where
  "Pg_AddCIDR s lt cidr w =
     (if cidr = [] then (Some (Sentinel (PostgresErr ErrEmptyCIDR)), w)
      else db_Exec (db s) (InsertRows [\<lparr>row_CIDR = cidr, row_ListType = lt\<rparr>]) w)"

definition Pg_RemoveCIDR :: "'w Pg_SubnetListDB \<Rightarrow> ListType \<Rightarrow> string \<Rightarrow> 'w \<Rightarrow> go_error option \<times> 'w" where
  "Pg_RemoveCIDR s lt cidr w =
     (if cidr = [] then (Some (Sentinel (PostgresErr ErrEmptyCIDR)), w)
      else db_Exec (db s) (DeleteRow \<lparr>row_CIDR = cidr, row_ListType = lt\<rparr>) w)"

definition Pg_Close :: "'w Pg_SubnetListDB \<Rightarrow> 'w \<Rightarrow> go_error option \<times> 'w" where
  "Pg_Close s w = db_Close (db s) w"

definition postgres_SubnetRepo :: "'w Pg_SubnetListDB \<Rightarrow> 'w SubnetRepo_port" where
  "postgres_SubnetRepo s =
     \<lparr>repo_GetSubnetLists = Pg_GetSubnetLists s,
      repo_SaveSubnetList = Pg_SaveSubnetList s,
      repo_ClearSubnetList = Pg_ClearSubnetList s,
      repo_AddCIDR = Pg_AddCIDR s,
      repo_RemoveCIDR = Pg_RemoveCIDR s\<rparr>"

lemma postgres_SubnetRepo_simps [port_simps]:
  "repo_GetSubnetLists (postgres_SubnetRepo s) = Pg_GetSubnetLists s"
  "repo_SaveSubnetList (postgres_SubnetRepo s) = Pg_SaveSubnetList s"
  "repo_ClearSubnetList (postgres_SubnetRepo s) = Pg_ClearSubnetList s"
  "repo_AddCIDR (postgres_SubnetRepo s) = Pg_AddCIDR s"
  "repo_RemoveCIDR (postgres_SubnetRepo s) = Pg_RemoveCIDR s"
  by (simp_all add: postgres_SubnetRepo_def)

section \<open>Opening the database\<close>

text \<open>The driver and the pool settings of a handle; \<open>'db\<close> is the handle.\<close>

record ('db, 'w) sqlx =
  sqlx_Open :: "string \<Rightarrow> string \<Rightarrow> 'w \<Rightarrow> 'db result \<times> 'w"
  sqlx_Ping :: "'db \<Rightarrow> 'w \<Rightarrow> go_error option \<times> 'w"
  sqlx_Close :: "'db \<Rightarrow> 'w \<Rightarrow> 'w"
  sqlx_SetMaxOpenConns :: "int \<Rightarrow> 'db \<Rightarrow> 'w \<Rightarrow> 'w"
  sqlx_SetMaxIdleConns :: "int \<Rightarrow> 'db \<Rightarrow> 'w \<Rightarrow> 'w"
  sqlx_SetConnMaxLifetime :: "int \<Rightarrow> 'db \<Rightarrow> 'w \<Rightarrow> 'w"
  sqlx_SetConnMaxIdleTime :: "int \<Rightarrow> 'db \<Rightarrow> 'w \<Rightarrow> 'w"

definition built_dsn :: "config_Postgresql \<Rightarrow> string" where
  "built_dsn p = ''postgres://'' @ pg_User p @ '':'' @ pg_Password p @ ''@'' @ pg_Host p @ '':'' @
     Sprint_int (pg_Port p) @ ''/'' @ pg_Name p"

definition OpenDB :: "('db, 'w) sqlx \<Rightarrow> config_Database \<Rightarrow> 'w \<Rightarrow> 'db result \<times> 'w" where
  "OpenDB x cfg w =
     (let dsn = pg_Dsn (Postgresql cfg);
          dsn' = (if dsn = [] then built_dsn (Postgresql cfg) else dsn)
      in if dsn = [] \<and> dsn' = [] then (Inl (Errorf ''empty DSN''), w)
         else case sqlx_Open x ''pgx'' dsn' w of
           (Inl err, w1) \<Rightarrow> (Inl err, w1)
         | (Inr d, w1) \<Rightarrow>
             (case sqlx_Ping x d w1 of
                (Some err, w2) \<Rightarrow> (Inl err, sqlx_Close x d w2)
              | (None, w2) \<Rightarrow> (Inr d, w2)))"

definition Pg_NewSubnetListDB ::
  "('db, 'w) sqlx \<Rightarrow> ('db \<Rightarrow> 'w sql_db) \<Rightarrow> config_Database \<Rightarrow> 'w \<Rightarrow> 'w Pg_SubnetListDB result \<times> 'w" where
  "Pg_NewSubnetListDB x handle cfg w =
     (case OpenDB x cfg w of
        (Inl err, w1) \<Rightarrow> (Inl err, w1)
      | (Inr d, w1) \<Rightarrow>
          (let pool = pg_Pool (Postgresql cfg);
               w2 = sqlx_SetMaxOpenConns x (MaxOpenConns pool) d w1;
               w3 = sqlx_SetMaxIdleConns x (MaxIdleConns pool) d w2;
               w4 = sqlx_SetConnMaxLifetime x (ConnMaxLifetime pool) d w3;
               w5 = sqlx_SetConnMaxIdleTime x (ConnMaxIdleTime pool) d w4
           in (Inr \<lparr>db = handle d\<rparr>, w5)))"

section \<open>What the store relies on\<close>

text \<open>
  The table as a set of pairs, and the effect of the statements on it: an insertion that ignores
  conflicts, and two deletions. A statement that fails has its effect entirely or not at all.
\<close>

type_synonym table = "(string \<times> string) set"

fun sql_effect :: "sql_stmt \<Rightarrow> table \<Rightarrow> table" where
  "sql_effect (SelectCidrs lt) T = T"
| "sql_effect (InsertRows rows) T = T \<union> set (map (\<lambda>r. (row_CIDR r, row_ListType r)) rows)"
| "sql_effect (DeleteByType lt) T = {r \<in> T. snd r \<noteq> lt}"
| "sql_effect (DeleteRow row) T = T - {(row_CIDR row, row_ListType row)}"

definition lawful_sql :: "'w sql_db \<Rightarrow> ('w \<Rightarrow> table) \<Rightarrow> bool" where
  "lawful_sql d tab \<longleftrightarrow>
     (\<forall>lt w. case db_Select d (SelectCidrs lt) w of
        (Inl err, w') \<Rightarrow> tab w' = tab w
      | (Inr cs, w') \<Rightarrow> tab w' = tab w \<and> distinct cs \<and> set cs = {c. (c, lt) \<in> tab w}) \<and>
     (\<forall>stmt w. case db_Exec d stmt w of
        (None, w') \<Rightarrow> tab w' = sql_effect stmt (tab w)
      | (Some err, w') \<Rightarrow> tab w' = tab w \<or> tab w' = sql_effect stmt (tab w))"

definition pg_stored :: "('w \<Rightarrow> table) \<Rightarrow> 'w \<Rightarrow> ListType \<Rightarrow> string set" where
  "pg_stored tab w lt = {c. (c, lt) \<in> tab w}"

lemma lawful_select:
  assumes "lawful_sql d tab" "db_Select d (SelectCidrs lt) w = (r, w')"
  shows "tab w' = tab w" "r = Inr cs \<Longrightarrow> distinct cs \<and> set cs = pg_stored tab w lt"
  using assms(1) [unfolded lawful_sql_def, THEN conjunct1, THEN spec [of _ lt], THEN spec [of _ w]]
  by (auto simp: assms(2) pg_stored_def split: sum.splits)

lemma lawful_exec:
  assumes "lawful_sql d tab" "db_Exec d stmt w = (err, w')"
  shows "tab w' = sql_effect stmt (tab w) \<or> (err \<noteq> None \<and> tab w' = tab w)"
  using assms(1) [unfolded lawful_sql_def, THEN conjunct2, THEN spec [of _ stmt], THEN spec [of _ w]]
  by (auto simp: assms(2) split: option.splits)

lemma Pg_Get_select: "Pg_GetSubnetLists s r lt w = db_Select (db s) (SelectCidrs lt) w"
  by (simp add: Pg_GetSubnetLists_def split: prod.split sum.split)

lemma postgres_contract:
  assumes "lawful_sql d tab"
  shows "subnet_repo (postgres_SubnetRepo \<lparr>db = d\<rparr>) (\<lambda>_. True) (pg_stored tab)"
proof (unfold_locales, unfold port_simps Pg_Get_select)
  fix w w' r lt cs
  assume "db_Select (db \<lparr>db = d\<rparr>) (SelectCidrs lt) w = (Inr cs, w')"
  with lawful_select(2) [OF assms, of lt w] show "set cs = pg_stored tab w lt" by simp
next
  fix w lt
  show "pg_stored tab (snd (db_Select (db \<lparr>db = d\<rparr>) (SelectCidrs lt) w)) = pg_stored tab w"
    using lawful_select(1) [OF assms prod.collapse [symmetric]] by (simp add: pg_stored_def fun_eq_iff)
next
  fix w w' lt c
  assume "Pg_AddCIDR \<lparr>db = d\<rparr> lt c w = (None, w')"
  then have "db_Exec d (InsertRows [\<lparr>row_CIDR = c, row_ListType = lt\<rparr>]) w = (None, w')"
    by (auto simp: Pg_AddCIDR_def split: if_splits)
  from lawful_exec [OF assms this]
  show "pg_stored tab w' = (pg_stored tab w)(lt := insert c (pg_stored tab w lt))"
    by (auto simp: pg_stored_def fun_eq_iff)
next
  fix w w' lt c
  assume "Pg_RemoveCIDR \<lparr>db = d\<rparr> lt c w = (None, w')"
  then have "db_Exec d (DeleteRow \<lparr>row_CIDR = c, row_ListType = lt\<rparr>) w = (None, w')"
    by (auto simp: Pg_RemoveCIDR_def split: if_splits)
  from lawful_exec [OF assms this]
  show "pg_stored tab w' = (pg_stored tab w)(lt := pg_stored tab w lt - {c})"
    by (auto simp: pg_stored_def fun_eq_iff)
qed simp_all

text \<open>
  C36. The PostgreSQL store keeps the contract of the lists: what was proved of loading, checking
  and editing over that contract holds on it as on the in-memory store.
\<close>

theorem postgres_keeps_contract:
  assumes "lawful_sql d tab"
  shows "subnet_repo (postgres_SubnetRepo \<lparr>db = d\<rparr>) (\<lambda>_. True) (pg_stored tab)"
  by (rule postgres_contract [OF assms])

text \<open>A database that keeps the laws on tables given as lists.\<close>

definition ideal_db :: "(string \<times> string) list sql_db" where
  "ideal_db =
     \<lparr>db_Select = (\<lambda>stmt T. case stmt of
        SelectCidrs lt \<Rightarrow> (Inr (remdups (map fst (filter (\<lambda>r. snd r = lt) T))), T)
      | _ \<Rightarrow> (Inl (Foreign ''not a query''), T)),
      db_Exec = (\<lambda>stmt T. case stmt of
        SelectCidrs lt \<Rightarrow> (None, T)
      | InsertRows rows \<Rightarrow> (None, T @ map (\<lambda>r. (row_CIDR r, row_ListType r)) rows)
      | DeleteByType lt \<Rightarrow> (None, filter (\<lambda>r. snd r \<noteq> lt) T)
      | DeleteRow row \<Rightarrow> (None, removeAll (row_CIDR row, row_ListType row) T)),
      db_Close = (\<lambda>T. (None, T))\<rparr>"

lemma lawful_ideal_db: "lawful_sql ideal_db set"
  by (force simp: lawful_sql_def ideal_db_def split: sql_stmt.split)

theorem postgres_keeps_contract_witness:
  "subnet_repo (postgres_SubnetRepo \<lparr>db = ideal_db\<rparr>) (\<lambda>_. True) (pg_stored set)"
  by (rule postgres_keeps_contract [OF lawful_ideal_db])

text \<open>
  \<open>SaveSubnetList\<close> means different things in the two stores: in PostgreSQL it adds to the
  list, and with no texts does nothing, while in memory it replaces the list.
\<close>

theorem save_differs:
  assumes "lawful_sql d tab" "Pg_SaveSubnetList \<lparr>db = d\<rparr> lt cs w = (None, w')"
  shows "pg_stored tab w' = (pg_stored tab w)(lt := pg_stored tab w lt \<union> set cs) \<and>
    stored (snd (SaveSubnetList lt cs m)) = (stored m)(lt := set cs)"
proof (cases "cs = []")
  case True
  with assms(2) show ?thesis by (auto simp: Pg_SaveSubnetList_def stored_Save)
next
  case False
  with assms(2) have "db_Exec d (InsertRows (map (\<lambda>c. \<lparr>row_CIDR = c, row_ListType = lt\<rparr>) cs)) w = (None, w')"
    by (simp add: Pg_SaveSubnetList_def)
  from lawful_exec [OF assms(1) this] show ?thesis
    by (auto simp: pg_stored_def fun_eq_iff stored_Save)
qed

theorem save_differs_witness:
  "pg_stored set (snd (Pg_SaveSubnetList \<lparr>db = ideal_db\<rparr> Whitelist [''b''] [(''a'', Whitelist)])) Whitelist = {''a'', ''b''}"
proof -
  have "Pg_SaveSubnetList \<lparr>db = ideal_db\<rparr> Whitelist [''b''] [(''a'', Whitelist)]
      = (None, [(''a'', Whitelist), (''b'', Whitelist)])"
    by (simp add: Pg_SaveSubnetList_def ideal_db_def)
  from save_differs [OF lawful_ideal_db this] show ?thesis
    by (simp add: \<open>Pg_SaveSubnetList \<lparr>db = ideal_db\<rparr> Whitelist [''b''] [(''a'', Whitelist)] = _\<close> pg_stored_def insert_commute)
qed

section \<open>No handle is leaked\<close>

text \<open>
  The connection string built from the single parameters is never empty, so the inner test of
  \<open>OpenDB\<close> is dead code.
\<close>

lemma built_dsn_nonempty [simp]: "built_dsn p \<noteq> []"
  by (simp add: built_dsn_def)

lemma OpenDB_eq:
  "OpenDB x cfg w =
    (case sqlx_Open x ''pgx'' (if pg_Dsn (Postgresql cfg) = [] then built_dsn (Postgresql cfg)
        else pg_Dsn (Postgresql cfg)) w of
       (Inl err, w1) \<Rightarrow> (Inl err, w1)
     | (Inr d, w1) \<Rightarrow>
         (case sqlx_Ping x d w1 of
            (Some err, w2) \<Rightarrow> (Inl err, sqlx_Close x d w2)
          | (None, w2) \<Rightarrow> (Inr d, w2)))"
  by (simp add: OpenDB_def Let_def)

text \<open>What is known of a driver: \<open>opened w\<close> are the handles opened and not closed in \<open>w\<close>.\<close>

definition lawful_sqlx :: "('db, 'w) sqlx \<Rightarrow> ('w \<Rightarrow> 'db set) \<Rightarrow> bool" where
  "lawful_sqlx x opened \<longleftrightarrow>
     (\<forall>drv dsn w. case sqlx_Open x drv dsn w of
        (Inl err, w') \<Rightarrow> opened w' = opened w
      | (Inr d, w') \<Rightarrow> d \<notin> opened w \<and> opened w' = insert d (opened w)) \<and>
     (\<forall>d w. opened (snd (sqlx_Ping x d w)) = opened w) \<and>
     (\<forall>d w. opened (sqlx_Close x d w) = opened w - {d}) \<and>
     (\<forall>n d w. opened (sqlx_SetMaxOpenConns x n d w) = opened w) \<and>
     (\<forall>n d w. opened (sqlx_SetMaxIdleConns x n d w) = opened w) \<and>
     (\<forall>n d w. opened (sqlx_SetConnMaxLifetime x n d w) = opened w) \<and>
     (\<forall>n d w. opened (sqlx_SetConnMaxIdleTime x n d w) = opened w)"

lemma lawful_sqlx_facts:
  assumes "lawful_sqlx x opened"
  shows "opened (snd (sqlx_Ping x d w)) = opened w"
    "opened (sqlx_Close x d w) = opened w - {d}"
    "opened (sqlx_SetMaxOpenConns x n d w) = opened w"
    "opened (sqlx_SetMaxIdleConns x n d w) = opened w"
    "opened (sqlx_SetConnMaxLifetime x n d w) = opened w"
    "opened (sqlx_SetConnMaxIdleTime x n d w) = opened w"
  using assms [unfolded lawful_sqlx_def, THEN conjunct2] by simp_all

lemma OpenDB_opened:
  assumes "lawful_sqlx x opened"
  shows "case OpenDB x cfg w of
      (Inl err, w') \<Rightarrow> opened w' = opened w
    | (Inr d, w') \<Rightarrow> d \<notin> opened w \<and> opened w' = insert d (opened w)"
proof -
  let ?dsn = "if pg_Dsn (Postgresql cfg) = [] then built_dsn (Postgresql cfg) else pg_Dsn (Postgresql cfg)"
  obtain r w1 where o: "sqlx_Open x ''pgx'' ?dsn w = (r, w1)" by fastforce
  have law: "case r of Inl err \<Rightarrow> opened w1 = opened w
      | Inr d \<Rightarrow> d \<notin> opened w \<and> opened w1 = insert d (opened w)"
    using assms [unfolded lawful_sqlx_def, THEN conjunct1, THEN spec [of _ "''pgx''"],
        THEN spec [of _ ?dsn], THEN spec [of _ w]]
    by (simp only: o prod.case)
  show ?thesis
  proof (cases r)
    case (Inl err)
    have "OpenDB x cfg w = (Inl err, w1)"
      by (simp only: OpenDB_eq o Inl prod.case sum.case)
    with law Inl show ?thesis by simp
  next
    case (Inr d)
    obtain e w2 where ping: "sqlx_Ping x d w1 = (e, w2)" by fastforce
    have "opened w2 = opened w1"
      using lawful_sqlx_facts(1) [OF assms, of d w1] by (simp add: ping)
    moreover have "opened (sqlx_Close x d w2) = opened w2 - {d}"
      by (rule lawful_sqlx_facts(2) [OF assms])
    moreover have "OpenDB x cfg w = (case e of Some err \<Rightarrow> (Inl err, sqlx_Close x d w2) | None \<Rightarrow> (Inr d, w2))"
      by (simp only: OpenDB_eq o Inr ping prod.case sum.case)
    ultimately show ?thesis
      using law Inr by (auto split: option.split)
  qed
qed

text \<open>
  Opening the store leaks no connection pool: when it fails, because the driver refuses the
  connection string or the database does not answer a ping, no handle is left open; when it
  succeeds, exactly one more is open and the store works on that one.
\<close>

theorem open_leaks_nothing:
  assumes "lawful_sqlx x opened" "Pg_NewSubnetListDB x handle cfg w = (r, w')"
  shows "(case r of
      Inl err \<Rightarrow> opened w' = opened w
    | Inr s \<Rightarrow> \<exists>d. d \<notin> opened w \<and> opened w' = insert d (opened w) \<and> s = \<lparr>db = handle d\<rparr>)"
proof (cases "OpenDB x cfg w")
  case (Pair o1 w1)
  then show ?thesis
    using OpenDB_opened [OF assms(1), where cfg = cfg and w = w] assms
    by (cases o1) (auto simp: Pg_NewSubnetListDB_def Let_def lawful_sqlx_facts [OF assms(1)])
qed

text \<open>A driver whose world is the list of open handles and whose database never answers.\<close>

definition deaf_driver :: "(nat, nat list) sqlx" where
  "deaf_driver =
     \<lparr>sqlx_Open = (\<lambda>drv dsn hs. (Inr (Suc (sum_list hs)), Suc (sum_list hs) # hs)),
      sqlx_Ping = (\<lambda>d hs. (Some (Foreign ''connection refused''), hs)),
      sqlx_Close = (\<lambda>d hs. removeAll d hs),
      sqlx_SetMaxOpenConns = (\<lambda>n d hs. hs), sqlx_SetMaxIdleConns = (\<lambda>n d hs. hs),
      sqlx_SetConnMaxLifetime = (\<lambda>n d hs. hs), sqlx_SetConnMaxIdleTime = (\<lambda>n d hs. hs)\<rparr>"

lemma lawful_deaf_driver: "lawful_sqlx deaf_driver set"
proof -
  have "Suc (sum_list hs) \<notin> set hs" for hs :: "nat list"
    using member_le_sum_list [of "Suc (sum_list hs)" hs] by auto
  then show ?thesis
    by (simp add: lawful_sqlx_def deaf_driver_def set_removeAll)
qed

definition deaf_db :: "nat \<Rightarrow> nat list sql_db" where
  "deaf_db d =
     \<lparr>db_Select = (\<lambda>stmt hs. (Inl (Foreign ''connection refused''), hs)),
      db_Exec = (\<lambda>stmt hs. (Some (Foreign ''connection refused''), hs)),
      db_Close = (\<lambda>hs. (None, removeAll d hs))\<rparr>"

theorem open_leaks_nothing_witness:
  "set (snd (Pg_NewSubnetListDB deaf_driver deaf_db
     \<lparr>Workmode = ''external'',
      Postgresql = \<lparr>pg_Dsn = [], pg_User = ''u'', pg_Password = ''p'', pg_Host = ''h'', pg_Port = 5432,
        pg_Name = ''abf'', pg_Pool = \<lparr>MaxOpenConns = 10, MaxIdleConns = 5, ConnMaxLifetime = 1, ConnMaxIdleTime = 1\<rparr>\<rparr>,
      Redis = undefined\<rparr> [7])) = {7}"
  (is "set (snd ?r) = _")
proof -
  have "?r = (Inl (Foreign ''connection refused''), [7])"
    by (simp add: Pg_NewSubnetListDB_def OpenDB_eq deaf_driver_def)
  from open_leaks_nothing [OF lawful_deaf_driver this] show ?thesis
    by (simp add: \<open>?r = _\<close>)
qed

end
