(* ===== verification/Redis_Buckets.thy ===== *)
theory Redis_Buckets
  imports Memory_Buckets Go_Fmt
begin

text \<open>
  \<open>internal/storage/redisdb/buckets_repo.go\<close>: the store of attempts on Redis, one sorted set per key,
  written and counted in one transaction. The client is a third party: executing a transaction,
  deleting a key and publishing are fields of a record, and what the store relies on is the
  predicate \<open>lawful_redis\<close>, the documented effect of the commands on the sorted sets.
\<close>

section \<open>The client and the store\<close>

datatype redis_cmd =
    ZAdd string int string
  | ZRemRangeByScore string string string
  | ZCard string
  | Expire string int

record 'w redis_client =
  rdb_Exec :: "redis_cmd list \<Rightarrow> 'w \<Rightarrow> int list result \<times> 'w"
  rdb_Del :: "string \<Rightarrow> 'w \<Rightarrow> go_error option \<times> 'w"
  rdb_Publish :: "string \<Rightarrow> string \<Rightarrow> 'w \<Rightarrow> go_error option \<times> 'w"

record 'w BucketsRepo =
  client :: "'w redis_client"

definition NewBucketsRepo :: "'w redis_client \<Rightarrow> 'w BucketsRepo" where
  "NewBucketsRepo rdc = \<lparr>client = rdc\<rparr>"

text \<open>\<open>d.Milliseconds()\<close> of a duration in nanoseconds: Go's division truncates towards zero.\<close>

definition Milliseconds :: "int \<Rightarrow> int" where
  "Milliseconds d = d sdiv 1000000"

definition member_text :: "int \<Rightarrow> int \<Rightarrow> string" where
  "member_text now_ms sfx = Sprint_int now_ms @ '':'' @ Sprint_int sfx"

text \<open>
  The score is the stamp converted to a float64, which is exact below 2^53, that is for every time
  that fits the clock's nanoseconds.
\<close>

definition BucketsRepo_Allow ::
  "'w BucketsRepo \<Rightarrow> moment \<Rightarrow> string \<Rightarrow> int \<Rightarrow> int \<Rightarrow> 'w \<Rightarrow> bool result \<times> 'w" where
  "BucketsRepo_Allow c m key limit window w =
     (let now_ms = UnixMilli (now m) in
      case rnd m of
        Inl err \<Rightarrow> (Inl err, w)
      | Inr sfx \<Rightarrow>
          (let mem_txt = member_text now_ms sfx;
               pipe = [ZAdd key now_ms mem_txt,
                       ZRemRangeByScore key ''0'' (Sprint_int (int64 (now_ms - Milliseconds window))),
                       ZCard key,
                       Expire key (int64 (window * 2))]
           in case rdb_Exec (client c) pipe w of
                (Inl err, w1) \<Rightarrow> (Inl err, w1)
              | (Inr replies, w1) \<Rightarrow>
                  (let n = (if 2 < length replies then replies ! 2 else 0) in (Inr (n \<le> limit), w1))))"

definition BucketsRepo_Reset :: "'w BucketsRepo \<Rightarrow> string \<Rightarrow> 'w \<Rightarrow> go_error option \<times> 'w" where
  "BucketsRepo_Reset c key w = rdb_Del (client c) key w"

definition redis_LimiterRepo :: "'w BucketsRepo \<Rightarrow> 'w LimiterRepo_port" where
  "redis_LimiterRepo c = \<lparr>limiter_Allow = BucketsRepo_Allow c, limiter_Reset = BucketsRepo_Reset c\<rparr>"

lemma redis_LimiterRepo_simps [port_simps]:
  "limiter_Allow (redis_LimiterRepo c) = BucketsRepo_Allow c"
  "limiter_Reset (redis_LimiterRepo c) = BucketsRepo_Reset c"
  by (simp_all add: redis_LimiterRepo_def)

section \<open>What the store relies on\<close>

text \<open>
  The sorted sets by key, each from member to score, and the documented effect and reply of a
  command. A bound that is no number makes the real command fail; the store never sends one.
\<close>

type_synonym zsets = "string \<Rightarrow> string \<rightharpoonup> int"

definition drop_scores :: "int \<Rightarrow> int \<Rightarrow> (string \<rightharpoonup> int) \<Rightarrow> string \<rightharpoonup> int" where
  "drop_scores lo hi z = (\<lambda>mem. case z mem of None \<Rightarrow> None | Some s \<Rightarrow> if lo \<le> s \<and> s \<le> hi then None else Some s)"

fun zcmd :: "redis_cmd \<Rightarrow> zsets \<Rightarrow> int \<times> zsets" where
  "zcmd (ZAdd k s mem) Z = ((if Z k mem = None then 1 else 0), Z(k := (Z k)(mem \<mapsto> s)))"
| "zcmd (ZRemRangeByScore k lo hi) Z =
     (case (read_int lo, read_int hi) of
        (Some a, Some b) \<Rightarrow>
          (int (card (dom (Z k)) - card (dom (drop_scores a b (Z k)))), Z(k := drop_scores a b (Z k)))
      | _ \<Rightarrow> (0, Z))"
| "zcmd (ZCard k) Z = (int (card (dom (Z k))), Z)"
| "zcmd (Expire k d) Z = (if dom (Z k) = {} then (0, Z) else if d \<le> 0 then (1, Z(k := Map.empty)) else (1, Z))"

fun zrun :: "redis_cmd list \<Rightarrow> zsets \<Rightarrow> int list \<times> zsets" where
  "zrun [] Z = ([], Z)"
| "zrun (c # cs) Z = (case zcmd c Z of (r, Z1) \<Rightarrow> (case zrun cs Z1 of (rs, Z2) \<Rightarrow> (r # rs, Z2)))"

text \<open>
  A transaction that succeeds has its documented effect and replies; one that fails has it entirely
  or not at all, since the reply may be lost after the server has executed it.
\<close>

definition lawful_redis :: "'w redis_client \<Rightarrow> ('w \<Rightarrow> zsets) \<Rightarrow> bool" where
  "lawful_redis c zset \<longleftrightarrow>
     (\<forall>cmds w. case rdb_Exec c cmds w of
        (Inr replies, w') \<Rightarrow> (replies, zset w') = zrun cmds (zset w)
      | (Inl err, w') \<Rightarrow> zset w' = zset w \<or> zset w' = snd (zrun cmds (zset w))) \<and>
     (\<forall>k w. case rdb_Del c k w of
        (None, w') \<Rightarrow> zset w' = (zset w)(k := Map.empty)
      | (Some err, w') \<Rightarrow> zset w' = zset w \<or> zset w' = (zset w)(k := Map.empty))"

text \<open>A client that keeps the laws: the world is the sorted sets themselves.\<close>

definition ideal_client :: "zsets redis_client" where
  "ideal_client =
     \<lparr>rdb_Exec = (\<lambda>cmds Z. case zrun cmds Z of (rs, Z') \<Rightarrow> (Inr rs, Z')),
      rdb_Del = (\<lambda>k Z. (None, Z(k := Map.empty))),
      rdb_Publish = (\<lambda>ch msg Z. (None, Z))\<rparr>"

lemma lawful_ideal: "lawful_redis ideal_client (\<lambda>Z. Z)"
  by (simp add: lawful_redis_def ideal_client_def split: prod.split)

section \<open>One attempt\<close>

lemma read_zero: "read_int ''0'' = Some 0"
  by (simp add: read_int_def digit_val_def)

lemma zrun_attempt:
  assumes "0 < d"
  shows "zrun [ZAdd k s mem, ZRemRangeByScore k ''0'' (Sprint_int h), ZCard k, Expire k d] Z =
    ([if Z k mem = None then 1 else 0,
      int (card (dom ((Z k)(mem \<mapsto> s))) - card (dom (drop_scores 0 h ((Z k)(mem \<mapsto> s))))),
      int (card (dom (drop_scores 0 h ((Z k)(mem \<mapsto> s))))),
      if dom (drop_scores 0 h ((Z k)(mem \<mapsto> s))) = {} then 0 else 1],
     Z(k := drop_scores 0 h ((Z k)(mem \<mapsto> s))))"
  using assms by (simp add: read_zero read_Sprint)

text \<open>The moments and windows for which the code's 64-bit arithmetic is exact.\<close>

definition in_range :: "int \<Rightarrow> moment \<Rightarrow> bool" where
  "in_range window m \<longleftrightarrow> 0 < window \<and> window < 2 ^ 62 \<and> 0 \<le> now m \<and> now m < 2 ^ 62"

lemma Milliseconds_pos: "0 \<le> d \<Longrightarrow> Milliseconds d = d div 1000000"
  by (cases "d = 0") (simp_all add: Milliseconds_def signed_divide_int_def)

lemma in_range_exact:
  assumes "in_range window m"
  shows "int64 (UnixMilli (now m) - Milliseconds window) = UnixMilli (now m) - Milliseconds window"
    "int64 (window * 2) = window * 2" "0 \<le> UnixMilli (now m)" "0 \<le> Milliseconds window"
proof -
  have shrink: "x div 1000000 \<le> x" if "0 \<le> x" for x :: int
    using zdiv_mono2 [of x 1 1000000] that by simp
  have bounds: "0 \<le> UnixMilli (now m)" "UnixMilli (now m) \<le> now m" "0 \<le> Milliseconds window"
    "Milliseconds window \<le> window"
    using assms shrink by (simp_all add: in_range_def Milliseconds_pos UnixMilli_def pos_imp_zdiv_nonneg_iff)
  with assms show "int64 (UnixMilli (now m) - Milliseconds window) = UnixMilli (now m) - Milliseconds window"
    "int64 (window * 2) = window * 2"
    by (auto intro!: int64_id simp: in_range_def)
  from bounds show "0 \<le> UnixMilli (now m)" "0 \<le> Milliseconds window" by auto
qed

definition member_of :: "moment \<Rightarrow> string" where
  "member_of m = member_text (UnixMilli (now m)) (projr (rnd m))"

text \<open>The sorted set of the key after an attempt: the attempt added, then the expired dropped.\<close>

definition attempted :: "int \<Rightarrow> moment \<Rightarrow> (string \<rightharpoonup> int) \<Rightarrow> string \<rightharpoonup> int" where
  "attempted window m z =
     drop_scores 0 (UnixMilli (now m) - Milliseconds window) (z(member_of m \<mapsto> UnixMilli (now m)))"

lemma redis_Allow_ok:
  assumes "lawful_redis c zset" "in_range window m"
    and "BucketsRepo_Allow (NewBucketsRepo c) m key limit window w = (Inr b, w')"
  shows "zset w' = (zset w)(key := attempted window m (zset w key)) \<and>
    b = (int (card (dom (attempted window m (zset w key)))) \<le> limit)"
proof -
  obtain sfx where sfx: "rnd m = Inr sfx"
    using assms(3) by (cases "rnd m") (simp_all add: BucketsRepo_Allow_def Let_def)
  let ?n = "UnixMilli (now m)"
  let ?pipe = "[ZAdd key ?n (member_of m), ZRemRangeByScore key ''0'' (Sprint_int (?n - Milliseconds window)),
    ZCard key, Expire key (window * 2)]"
  note exact = in_range_exact [OF assms(2)]
  obtain replies where run: "rdb_Exec c ?pipe w = (Inr replies, w')"
    and b: "b = ((if 2 < length replies then replies ! 2 else 0) \<le> limit)"
    using assms(3) by (auto simp: BucketsRepo_Allow_def NewBucketsRepo_def Let_def sfx exact member_of_def
        split: prod.splits sum.splits)
  have "0 < window * 2"
    using assms(2) by (simp add: in_range_def)
  from zrun_attempt [OF this, of key ?n "member_of m" "?n - Milliseconds window" "zset w"]
    assms(1) run have "replies ! 2 = int (card (dom (attempted window m (zset w key))))" "length replies = 4"
    "zset w' = (zset w)(key := attempted window m (zset w key))"
    unfolding lawful_redis_def attempted_def by (fastforce split: prod.splits)+
  with b show ?thesis by simp
qed

text \<open>An attempt whose transaction fails is reported; it may or may not have been recorded.\<close>

lemma redis_Allow_error:
  assumes "lawful_redis c zset" "in_range window m"
    and "BucketsRepo_Allow (NewBucketsRepo c) m key limit window w = (Inl err, w')"
  shows "zset w' = zset w \<or> zset w' = (zset w)(key := attempted window m (zset w key))"
proof (cases "rnd m")
  case (Inl e)
  with assms(3) show ?thesis by (simp add: BucketsRepo_Allow_def Let_def)
next
  case (Inr sfx)
  let ?n = "UnixMilli (now m)"
  let ?pipe = "[ZAdd key ?n (member_of m), ZRemRangeByScore key ''0'' (Sprint_int (?n - Milliseconds window)),
    ZCard key, Expire key (window * 2)]"
  note exact = in_range_exact [OF assms(2)]
  have run: "rdb_Exec c ?pipe w = (Inl err, w')"
    using assms(3) by (auto simp: BucketsRepo_Allow_def NewBucketsRepo_def Let_def Inr exact member_of_def
        split: prod.splits sum.splits)
  have "0 < window * 2"
    using assms(2) by (simp add: in_range_def)
  from zrun_attempt [OF this, of key ?n "member_of m" "?n - Milliseconds window" "zset w"]
    assms(1) run show ?thesis
    unfolding lawful_redis_def attempted_def by (fastforce split: prod.splits)
qed

section \<open>Runs on one key\<close>

text \<open>
  The log of attempts: every attempt is kept, allowed or not, and one is allowed when with it at
  most \<open>limit\<close> stamps are within the window.
\<close>

fun attempt_log :: "int \<Rightarrow> int \<Rightarrow> int list \<Rightarrow> int list \<Rightarrow> bool list" where
  "attempt_log limit W H [] = []"
| "attempt_log limit W H (n # ns) =
     (int (length (filter (\<lambda>s. n - W < s) (H @ [n]))) \<le> limit) # attempt_log limit W (H @ [n]) ns"

fun redis_answers ::
  "'w redis_client \<Rightarrow> string \<Rightarrow> int \<Rightarrow> int \<Rightarrow> moment list \<Rightarrow> 'w \<Rightarrow> bool result list" where
  "redis_answers c key limit window [] w = []"
| "redis_answers c key limit window (m # ms) w =
     fst (BucketsRepo_Allow (NewBucketsRepo c) m key limit window w)
       # redis_answers c key limit window ms (snd (BucketsRepo_Allow (NewBucketsRepo c) m key limit window w))"

text \<open>
  The sorted set holds the logged attempts (member and stamp) after the last horizon \<open>c\<close>.
\<close>

definition holds_log :: "int \<Rightarrow> (string \<times> int) list \<Rightarrow> (string \<rightharpoonup> int) \<Rightarrow> bool" where
  "holds_log c H z \<longleftrightarrow> distinct (map fst H) \<and> (\<forall>h \<in> set H. 0 \<le> snd h) \<and>
     (\<forall>x s. z x = Some s \<longleftrightarrow> (x, s) \<in> set H \<and> c < s)"

lemma holds_log_attempt:
  assumes "holds_log c H z" "in_range window m" "c \<le> UnixMilli (now m) - Milliseconds window"
    and "member_of m \<notin> fst ` set H"
  shows "holds_log (UnixMilli (now m) - Milliseconds window) (H @ [(member_of m, UnixMilli (now m))])
    (attempted window m z)"
proof -
  let ?n = "UnixMilli (now m)" and ?W = "Milliseconds window"
  from assms(1) have z: "z x = Some s \<longleftrightarrow> (x, s) \<in> set H \<and> c < s" and pos: "h \<in> set H \<Longrightarrow> 0 \<le> snd h" for x s h
    by (auto simp: holds_log_def)
  have n: "0 \<le> ?n" by (rule in_range_exact(3) [OF assms(2)])
  have drop: "attempted window m z x = Some s \<longleftrightarrow>
      (z(member_of m \<mapsto> ?n)) x = Some s \<and> \<not> (0 \<le> s \<and> s \<le> ?n - ?W)" for x s
    by (auto simp: attempted_def drop_scores_def split: option.split)
  have "attempted window m z x = Some s \<longleftrightarrow>
      (x, s) \<in> set (H @ [(member_of m, ?n)]) \<and> ?n - ?W < s" for x s
  proof (cases "x = member_of m")
    case True
    with assms(4) have "(x, s) \<notin> set H" by force
    with True n show ?thesis unfolding drop by auto
  next
    case False
    then have "(z(member_of m \<mapsto> ?n)) x = Some s \<longleftrightarrow> (x, s) \<in> set H \<and> c < s"
      by (simp add: z)
    with False assms(3) pos [of "(x, s)"] show ?thesis unfolding drop by auto
  qed
  with assms(1,4) n show ?thesis by (auto simp: holds_log_def)
qed

lemma holds_log_card:
  assumes "holds_log c H z"
  shows "card (dom z) = length (filter (\<lambda>s. c < s) (map snd H))"
proof -
  let ?L = "filter (\<lambda>h. c < snd h) H"
  have "dom z = fst ` set ?L"
    using assms by (force simp: holds_log_def dom_def)
  moreover have "distinct (map fst ?L)"
    using assms by (simp add: holds_log_def distinct_map_filter)
  ultimately have "card (dom z) = length ?L"
    using distinct_card [of "map fst ?L"] by simp
  then show ?thesis by (simp add: filter_map comp_def)
qed

lemma redis_answers_log:
  assumes "lawful_redis c zset" "holds_log h H (zset w key)"
    and "sorted (map now ms)" "\<forall>m \<in> set ms. in_range window m \<and> h \<le> UnixMilli (now m) - Milliseconds window"
    and "distinct (map fst H @ map member_of ms)"
    and "\<forall>a \<in> set (redis_answers c key limit window ms w). \<not> isl a"
  shows "redis_answers c key limit window ms w =
    map Inr (attempt_log limit (Milliseconds window) (map snd H) (map (\<lambda>m. UnixMilli (now m)) ms))"
  using assms(2-)
proof (induction ms arbitrary: w h H)
  case Nil
  then show ?case by simp
next
  case (Cons m ms)
  let ?n = "UnixMilli (now m)" and ?call = "BucketsRepo_Allow (NewBucketsRepo c) m key limit window w"
  from Cons.prems(5) obtain b w' where call: "?call = (Inr b, w')"
    by (cases ?call; cases "fst ?call") auto
  from Cons.prems have range: "in_range window m" "h \<le> ?n - Milliseconds window" "member_of m \<notin> fst ` set H"
    by auto
  note ok = redis_Allow_ok [OF assms(1) range(1) call]
  have log: "holds_log (?n - Milliseconds window) (H @ [(member_of m, ?n)]) (zset w' key)"
    using holds_log_attempt [OF Cons.prems(1) range] ok by simp
  have "redis_answers c key limit window ms w' =
      map Inr (attempt_log limit (Milliseconds window) (map snd (H @ [(member_of m, ?n)]))
        (map (\<lambda>m. UnixMilli (now m)) ms))"
  proof (rule Cons.IH [OF log])
    show "\<forall>m' \<in> set ms. in_range window m' \<and> ?n - Milliseconds window \<le> UnixMilli (now m') - Milliseconds window"
      using Cons.prems(2,3) by (auto intro: UnixMilli_mono)
    show "\<forall>a \<in> set (redis_answers c key limit window ms w'). \<not> isl a"
      using Cons.prems(5) by (simp add: call)
  qed (use Cons.prems in auto)
  with holds_log_card [OF log] ok show ?case by (simp add: call)
qed

section \<open>The log of attempts\<close>

lemma attempt_log_append:
  "attempt_log limit W H (ns @ ns') = attempt_log limit W H ns @ attempt_log limit W (H @ ns) ns'"
  by (induction ns arbitrary: H) simp_all

lemma length_attempt_log [simp]: "length (attempt_log limit W H ns) = length ns"
  by (induction ns arbitrary: H) simp_all

text \<open>At most \<open>limit\<close> allowed stamps lie in an interval shorter than the window.\<close>

definition allowed_in :: "int \<Rightarrow> int \<Rightarrow> (int \<times> bool) list \<Rightarrow> (int \<times> bool) list" where
  "allowed_in a b xs = filter (\<lambda>(n, ok). ok \<and> a \<le> n \<and> n \<le> b) xs"

lemma allowed_in_subset: "length (allowed_in a b (zip ns oks)) \<le> length (filter (\<lambda>n. a \<le> n \<and> n \<le> b) ns)"
  by (induction ns oks rule: list_induct2') (simp_all add: allowed_in_def)

lemma attempt_log_window:
  assumes "b - a < W"
  shows "sorted ns \<Longrightarrow> int (length (allowed_in a b (zip ns (attempt_log limit W [] ns)))) \<le> max 0 limit"
proof (induction ns rule: rev_induct)
  case Nil
  then show ?case by (simp add: allowed_in_def)
next
  case (snoc n ns)
  let ?oks = "attempt_log limit W [] ns"
  let ?ok = "int (length (filter (\<lambda>s. n - W < s) (ns @ [n]))) \<le> limit"
  have split: "allowed_in a b (zip (ns @ [n]) (attempt_log limit W [] (ns @ [n]))) =
      allowed_in a b (zip ns ?oks) @ (if ?ok \<and> a \<le> n \<and> n \<le> b then [(n, True)] else [])"
    by (simp add: attempt_log_append allowed_in_def)
  show ?case
  proof (cases "?ok \<and> a \<le> n \<and> n \<le> b")
    case False
    from split have "allowed_in a b (zip (ns @ [n]) (attempt_log limit W [] (ns @ [n]))) =
        allowed_in a b (zip ns ?oks)"
      unfolding if_not_P [OF False] by simp
    with snoc show ?thesis by (simp only: sorted_append)
  next
    case True
    have "length (allowed_in a b (zip ns ?oks)) \<le> length (filter (\<lambda>s. a \<le> s \<and> s \<le> b) ns)"
      by (rule allowed_in_subset)
    also have "\<dots> \<le> length (filter (\<lambda>s. n - W < s) ns)"
      using True assms by (intro length_filter_mono) auto
    finally have "length (allowed_in a b (zip ns ?oks)) + 1 \<le> length (filter (\<lambda>s. n - W < s) (ns @ [n]))"
      using True assms by simp
    with True show ?thesis unfolding split by simp
  qed
qed

text \<open>An attempt is refused when \<open>limit\<close> attempts, allowed or not, were made within the window.\<close>

lemma attempt_log_last:
  "last (attempt_log limit W [] (ns @ [n])) \<longleftrightarrow> int (length (filter (\<lambda>s. n - W < s) (ns @ [n]))) \<le> limit"
  by (simp add: attempt_log_append)

section \<open>Properties\<close>

definition fresh_run :: "'w redis_client \<Rightarrow> ('w \<Rightarrow> zsets) \<Rightarrow> string \<Rightarrow> int \<Rightarrow> int \<Rightarrow> moment list \<Rightarrow> 'w \<Rightarrow> bool" where
  "fresh_run c zset key limit window ms w \<longleftrightarrow>
     lawful_redis c zset \<and> zset w key = Map.empty \<and> sorted (map now ms) \<and>
     (\<forall>m \<in> set ms. in_range window m) \<and> distinct (map member_of ms) \<and>
     (\<forall>a \<in> set (redis_answers c key limit window ms w). \<not> isl a)"

abbreviation ms_stamps :: "moment list \<Rightarrow> int list" where
  "ms_stamps ms \<equiv> map (\<lambda>m. UnixMilli (now m)) ms"

lemma fresh_run_log:
  assumes "fresh_run c zset key limit window ms w"
  shows "redis_answers c key limit window ms w = map Inr (attempt_log limit (Milliseconds window) [] (ms_stamps ms))"
proof -
  obtain h where h: "\<forall>m \<in> set ms. h \<le> UnixMilli (now m) - Milliseconds window"
    using list_lower_bound [of ms "\<lambda>m. UnixMilli (now m) - Milliseconds window"] by blast
  have "holds_log h [] (zset w key)"
    using assms by (simp add: fresh_run_def holds_log_def)
  with redis_answers_log [where zset = zset and w = w and key = key and H = "[]" and h = h and ms = ms
      and c = c and window = window and limit = limit] assms h
  show ?thesis by (simp add: fresh_run_def)
qed

lemma sorted_ms_stamps: "sorted (map now ms) \<Longrightarrow> sorted (ms_stamps ms)"
  by (induction ms) (auto intro: UnixMilli_mono)

lemma member_text_inject: "member_text n s = member_text n' s' \<longleftrightarrow> n = n' \<and> s = s'"
  using prefix_split_unique [of "CHR '':''" "Sprint_int n" "Sprint_int n'" "Sprint_int s" "Sprint_int s'"]
    colon_notin_Sprint
  by (simp add: member_text_def Sprint_int_inject)

text \<open>On the ideal client no call fails, so every run whose members differ is a fresh run.\<close>

lemma ideal_run:
  assumes "sorted (map now ms)" "\<forall>m \<in> set ms. in_range window m \<and> \<not> isl (rnd m)"
    and "distinct (map (\<lambda>m. (UnixMilli (now m), projr (rnd m))) ms)"
  shows "fresh_run ideal_client (\<lambda>Z. Z) key limit window ms (\<lambda>_. Map.empty)"
proof -
  have "\<forall>a \<in> set (redis_answers ideal_client key limit window ms w). \<not> isl a"
    if "\<forall>m \<in> set ms. \<not> isl (rnd m)" for ms w
    using that
  proof (induction ms arbitrary: w)
    case (Cons m ms)
    then show ?case
      by (cases "BucketsRepo_Allow (NewBucketsRepo ideal_client) m key limit window w"; cases "rnd m")
        (auto simp: BucketsRepo_Allow_def NewBucketsRepo_def ideal_client_def Let_def split: prod.splits)
  qed simp
  moreover have "map member_of ms = map (\<lambda>(n, s). member_text n s) (map (\<lambda>m. (UnixMilli (now m), projr (rnd m))) ms)"
    by (simp add: member_of_def)
  moreover have "distinct \<dots>"
    using assms(3) by (subst distinct_map) (auto simp: inj_on_def member_text_inject)
  ultimately show ?thesis
    using assms(1,2) by (simp only: fresh_run_def lawful_ideal) auto
qed

abbreviation at_ms :: "int \<Rightarrow> moment" where
  "at_ms t \<equiv> \<lparr>now = t * 1000000, rnd = Inr 7\<rparr>"

lemma witness_run:
  "fresh_run ideal_client (\<lambda>Z. Z) ''login:u'' 1 1000000000 [at_ms 0, at_ms 600, at_ms 1200] (\<lambda>_. Map.empty)"
  by (rule ideal_run) (simp_all add: in_range_def UnixMilli_def)

text \<open>
  On Redis too at most \<open>limit\<close> attempts on a key are allowed in an interval (in milliseconds)
  shorter than the window, when the random suffixes keep the members of one run apart and no call
  fails.
\<close>

theorem redis_window_bound:
  assumes "fresh_run c zset key limit window ms w" "b - a < Milliseconds window"
  shows "int (length (filter (\<lambda>(m, r). r = Inr True \<and> a \<le> UnixMilli (now m) \<and> UnixMilli (now m) \<le> b)
    (zip ms (redis_answers c key limit window ms w)))) \<le> max 0 limit"
proof -
  have "sorted (ms_stamps ms)"
    using assms(1) by (simp add: fresh_run_def sorted_ms_stamps)
  from attempt_log_window [OF assms(2) this, of limit]
  have "int (length (allowed_in a b (zip (ms_stamps ms)
      (attempt_log limit (Milliseconds window) [] (ms_stamps ms))))) \<le> max 0 limit" .
  also have "length (allowed_in a b (zip (ms_stamps ms) oks)) =
      length (filter (\<lambda>(m, r). r = Inr True \<and> a \<le> UnixMilli (now m) \<and> UnixMilli (now m) \<le> b) (zip ms (map Inr oks :: bool result list)))" for oks
    by (induction ms oks rule: list_induct2') (simp_all add: allowed_in_def)
  finally show ?thesis
    by (simp add: fresh_run_log [OF assms(1)])
qed

theorem redis_window_bound_witness:
  "int (length (filter (\<lambda>(m, r). r = Inr True \<and> 0 \<le> UnixMilli (now m) \<and> UnixMilli (now m) \<le> 999)
    (zip [at_ms 0, at_ms 600, at_ms 1200]
      (redis_answers ideal_client ''login:u'' 1 1000000000 [at_ms 0, at_ms 600, at_ms 1200] (\<lambda>_. Map.empty))))) \<le> 1"
  using redis_window_bound [OF witness_run, of 999 0] by (simp add: Milliseconds_pos)

text \<open>
  C40. Redis counts refused attempts: an attempt is refused as soon as \<open>limit\<close> attempts on its key,
  allowed or not, were made within the window before it, so whoever keeps trying keeps the key
  blocked.
\<close>

theorem redis_counts_refused:
  assumes "fresh_run c zset key limit window (ms @ [m]) w" "0 < Milliseconds window"
  shows "last (redis_answers c key limit window (ms @ [m]) w) =
    Inr (int (length (filter (\<lambda>m'. UnixMilli (now m) - Milliseconds window < UnixMilli (now m')) ms)) < limit)"
proof -
  have "last (redis_answers c key limit window (ms @ [m]) w) =
      Inr (last (attempt_log limit (Milliseconds window) [] (ms_stamps (ms @ [m]))))"
    unfolding fresh_run_log [OF assms(1)] by (rule last_map) (simp add: attempt_log_append)
  then show ?thesis
    using attempt_log_last [of limit "Milliseconds window" "ms_stamps ms" "UnixMilli (now m)"] assms(2)
    by (auto simp: filter_map comp_def)
qed

theorem redis_counts_refused_witness:
  "last (redis_answers ideal_client ''login:u'' 1 1000000000 [at_ms 0, at_ms 600, at_ms 1200] (\<lambda>_. Map.empty))
    = Inr False"
  using redis_counts_refused [of ideal_client "\<lambda>Z. Z" "''login:u''" 1 1000000000 "[at_ms 0, at_ms 600]" "at_ms 1200"]
    witness_run by (simp add: Milliseconds_pos UnixMilli_def)

lemma UnixMilli_window: "UnixMilli (t - 1000000 * W) = UnixMilli t - W"
proof -
  have "t = (t - 1000000 * W) + W * 1000000" by simp
  then have "t div 1000000 = W + (t - 1000000 * W) div 1000000"
    using div_mult_self3 [of 1000000 W "t - 1000000 * W"] by (simp add: mult.commute)
  then show ?thesis by (simp add: UnixMilli_def)
qed

lemma log_stricter:
  assumes "0 < W" "\<And>P. length (filter P (map UnixMilli Hm)) \<le> length (filter P Ha)"
  shows "list_all2 (\<longrightarrow>) (attempt_log limit W Ha (ms_stamps ms)) (log_decisions limit (1000000 * W) Hm ms)"
  using assms(2)
proof (induction ms arbitrary: Hm Ha)
  case Nil
  then show ?case by simp
next
  case (Cons m ms)
  let ?n = "UnixMilli (now m)"
  let ?Hm = "if int (length (filter (\<lambda>h. UnixMilli (now m - 1000000 * W) < UnixMilli h) Hm)) < limit
    then Hm @ [now m] else Hm"
  have "length (filter (\<lambda>h. ?n - W < UnixMilli h) Hm) \<le> length (filter (\<lambda>s. ?n - W < s) Ha)"
    using Cons.prems [of "\<lambda>s. ?n - W < s"] by (simp add: filter_map comp_def)
  moreover have "length (filter P (map UnixMilli ?Hm)) \<le> length (filter P (Ha @ [?n]))" for P
    using Cons.prems [of P] by simp
  ultimately show ?case
    using Cons.IH [of ?Hm "Ha @ [?n]"] assms(1) by (simp add: Let_def UnixMilli_window)
qed

text \<open>A burst that the log has room for, and one it has none for.\<close>

lemma log_burst:
  assumes "UnixMilli (n - window) < UnixMilli n"
  shows "\<forall>m \<in> set ms. now m = n \<Longrightarrow> \<forall>h \<in> set H. h = n \<Longrightarrow> int (length H + length ms) \<le> limit \<Longrightarrow>
    log_decisions limit window H (ms @ ms') = replicate (length ms) True @ log_decisions limit window (H @ map now ms) ms'"
proof (induction ms arbitrary: H)
  case (Cons m ms)
  have "filter (\<lambda>h. UnixMilli (now m - window) < UnixMilli h) H = H"
    using Cons.prems assms by (auto simp: filter_id_conv)
  moreover have "int (length H) < limit" using Cons.prems(3) by simp
  moreover have "log_decisions limit window (H @ [now m]) (ms @ ms') =
      replicate (length ms) True @ log_decisions limit window ((H @ [now m]) @ map now ms) ms'"
    using Cons.prems by (intro Cons.IH) auto
  ultimately show ?case by (simp add: Let_def)
qed simp

lemma log_full:
  assumes "limit \<le> int (length (filter (\<lambda>h. UnixMilli (n - window) < UnixMilli h) H))"
  shows "\<forall>m \<in> set ms. now m = n \<Longrightarrow>
    log_decisions limit window H (ms @ ms') = replicate (length ms) False @ log_decisions limit window H ms'"
  using assms by (induction ms) (simp_all add: Let_def)

text \<open>
  Moments at which the stores differ: \<open>limit\<close> attempts at 0, as many refused just before the window
  is over, and one when it is.
\<close>

definition refused_burst :: "int \<Rightarrow> int \<Rightarrow> moment list" where
  "refused_burst limit W =
     map (\<lambda>i. \<lparr>now = 0, rnd = Inr (int i)\<rparr>) [0..<nat limit] @
     map (\<lambda>i. \<lparr>now = 1000000 * (W - 1), rnd = Inr (int i)\<rparr>) [0..<nat limit] @ [\<lparr>now = 1000000 * W, rnd = Inr 0\<rparr>]"

lemma refused_burst_run:
  assumes "2 \<le> W" "1000000 * W < 2 ^ 62"
  shows "fresh_run ideal_client (\<lambda>Z. Z) key limit (1000000 * W) (refused_burst limit W) (\<lambda>_. Map.empty)"
proof (rule ideal_run)
  show "sorted (map now (refused_burst limit W))"
    using assms by (auto simp: refused_burst_def sorted_append map_replicate_const comp_def)
  show "\<forall>m \<in> set (refused_burst limit W). in_range (1000000 * W) m \<and> \<not> isl (rnd m)"
    using assms by (auto simp: refused_burst_def in_range_def)
  show "distinct (map (\<lambda>m. (UnixMilli (now m), projr (rnd m))) (refused_burst limit W))"
    using assms by (auto simp: refused_burst_def distinct_map inj_on_def UnixMilli_def)
qed

lemma refused_burst_memory:
  assumes "0 < limit" "2 \<le> W"
  shows "last (decisions key limit (1000000 * W) (refused_burst limit W) NewBucketsDB) = Inr True"
proof -
  let ?w = "1000000 * W" and ?n = "nat limit"
  have sorted: "sorted (map now (refused_burst limit W))"
    using assms by (auto simp: refused_burst_def sorted_append map_replicate_const comp_def)
  have old: "UnixMilli (0 - ?w) < UnixMilli 0" "UnixMilli (1000000 * (W - 1) - ?w) < UnixMilli 0"
    using assms(2) by (intro UnixMilli_step; simp)+
  have "log_decisions limit ?w [] (refused_burst limit W) = replicate ?n True @ replicate ?n False @
      log_decisions limit ?w (replicate ?n 0) [\<lparr>now = ?w, rnd = Inr 0\<rparr>]"
    using assms(1) old unfolding refused_burst_def
    by (subst log_burst [of 0], simp_all) (subst log_full [of _ "1000000 * (W - 1)"], simp_all add: map_replicate_const comp_def)
  also have "log_decisions limit ?w (replicate ?n 0) [\<lparr>now = ?w, rnd = Inr 0\<rparr>] = [True]"
    using assms(1) by (simp add: Let_def)
  finally show ?thesis
    using decisions_fresh [OF sorted assms(1), of ?w key] assms(2) by simp
qed

lemma refused_burst_redis:
  assumes "0 < limit" "2 \<le> W" "1000000 * W < 2 ^ 62"
  shows "last (redis_answers ideal_client key limit (1000000 * W) (refused_burst limit W) (\<lambda>_. Map.empty)) = Inr False"
proof -
  have W: "Milliseconds (1000000 * W) = W"
    using assms(2) by (simp add: Milliseconds_pos)
  have "attempt_log limit W [] (ms_stamps (refused_burst limit W)) \<noteq> []"
    by (simp add: refused_burst_def attempt_log_append)
  moreover have "\<not> last (attempt_log limit W [] (ms_stamps (refused_burst limit W)))"
    using assms by (simp add: refused_burst_def attempt_log_last append_assoc [symmetric] UnixMilli_def comp_def
        map_replicate_const del: append_assoc)
  ultimately show ?thesis
    unfolding fresh_run_log [OF refused_burst_run [OF assms(2,3)]] W by (simp add: last_map)
qed

text \<open>
  C35. Redis is the stricter of the two stores of attempts. On the same moments, on a clock that does
  not go back, from an empty key, with no call failing, members that differ and a window of whole
  milliseconds, whatever Redis allows the in-memory store allows too. The converse fails for every
  positive limit and every such window of at least 2 ms: there is a run, on a client as documented,
  whose last attempt the in-memory store allows and Redis refuses.
\<close>

theorem redis_stricter_than_memory:
  assumes "0 < limit" "window = 1000000 * W" "0 < W"
  shows "(fresh_run c zset key limit window ms w \<longrightarrow>
      list_all2 (\<lambda>r b. r = Inr True \<longrightarrow> b = Inr True)
        (redis_answers c key limit window ms w) (decisions key limit window ms NewBucketsDB)) \<and>
    (2 \<le> W \<longrightarrow> window < 2 ^ 62 \<longrightarrow>
      (\<exists>ms. fresh_run ideal_client (\<lambda>Z. Z) key limit window ms (\<lambda>_. Map.empty) \<and>
        last (decisions key limit window ms NewBucketsDB) = Inr True \<and>
        last (redis_answers ideal_client key limit window ms (\<lambda>_. Map.empty)) = Inr False))"
proof (intro conjI impI)
  assume run: "fresh_run c zset key limit window ms w"
  have W: "Milliseconds window = W"
    using assms(2,3) by (simp add: Milliseconds_pos)
  have "decisions key limit window ms NewBucketsDB = map Inr (log_decisions limit window [] ms)"
    using run assms by (intro decisions_fresh) (simp_all add: fresh_run_def)
  with log_stricter [OF assms(3), of "[]" "[]" limit ms]
  show "list_all2 (\<lambda>r b. r = Inr True \<longrightarrow> b = Inr True)
      (redis_answers c key limit window ms w) (decisions key limit window ms NewBucketsDB)"
    unfolding fresh_run_log [OF run] W by (simp add: list.rel_map assms(2))
next
  assume "2 \<le> W" "window < 2 ^ 62"
  with refused_burst_run [of W key limit] refused_burst_memory [OF assms(1), of W key]
    refused_burst_redis [OF assms(1), of W key] assms(2)
  show "\<exists>ms. fresh_run ideal_client (\<lambda>Z. Z) key limit window ms (\<lambda>_. Map.empty) \<and>
      last (decisions key limit window ms NewBucketsDB) = Inr True \<and>
      last (redis_answers ideal_client key limit window ms (\<lambda>_. Map.empty)) = Inr False"
    by blast
qed

theorem redis_stricter_than_memory_witness:
  "list_all2 (\<lambda>r b. r = Inr True \<longrightarrow> b = Inr True)
    (redis_answers ideal_client ''login:u'' 1 1000000000 [at_ms 0, at_ms 600, at_ms 1200] (\<lambda>_. Map.empty))
    [Inr True, Inr False, Inr True] \<and>
   (\<exists>ms. fresh_run ideal_client (\<lambda>Z. Z) ''login:u'' 1 1000000000 ms (\<lambda>_. Map.empty) \<and>
      last (decisions ''login:u'' 1 1000000000 ms NewBucketsDB) = Inr True \<and>
      last (redis_answers ideal_client ''login:u'' 1 1000000000 ms (\<lambda>_. Map.empty)) = Inr False)"
proof -
  have "decisions ''login:u'' 1 1000000000 [at_ms 0, at_ms 600, at_ms 1200] NewBucketsDB = [Inr True, Inr False, Inr True]"
    by (simp add: bucket_eval)
  with redis_stricter_than_memory [of 1 1000000000 1000 ideal_client "\<lambda>Z. Z" "''login:u''" "[at_ms 0, at_ms 600, at_ms 1200]"
      "\<lambda>_. Map.empty"] witness_run
  show ?thesis by simp
qed

text \<open>
  The time to live set on a key is harmless: once every stamp of a key has expired, an attempt
  is answered, and the key left, as if Redis had already dropped the key.
\<close>

theorem redis_ttl_harmless:
  assumes "lawful_redis c zset" "in_range window m" "zset w0 key = Map.empty"
    and "\<forall>x s. zset w key x = Some s \<longrightarrow> 0 \<le> s \<and> s \<le> UnixMilli (now m) - Milliseconds window"
    and "BucketsRepo_Allow (NewBucketsRepo c) m key limit window w = (Inr b, w')"
    and "BucketsRepo_Allow (NewBucketsRepo c) m key limit window w0 = (Inr b0, w0')"
  shows "b = b0 \<and> zset w' key = zset w0' key"
proof -
  have "attempted window m (zset w key) = attempted window m Map.empty"
    using assms(4) by (auto simp: attempted_def drop_scores_def fun_eq_iff split: option.split)
  with redis_Allow_ok [OF assms(1,2,5)] redis_Allow_ok [OF assms(1,2,6)] assms(3) show ?thesis
    by simp
qed

theorem redis_ttl_harmless_witness:
  "fst (BucketsRepo_Allow (NewBucketsRepo ideal_client) (at_ms 5000) ''k'' 1 1000000000
      (\<lambda>k. if k = ''k'' then [''a'' \<mapsto> 0, ''b'' \<mapsto> 4000] else Map.empty)) =
   fst (BucketsRepo_Allow (NewBucketsRepo ideal_client) (at_ms 5000) ''k'' 1 1000000000 (\<lambda>_. Map.empty))"
proof -
  let ?call = "BucketsRepo_Allow (NewBucketsRepo ideal_client) (at_ms 5000) ''k'' 1 1000000000"
  let ?w = "\<lambda>k. if k = ''k'' then [''a'' \<mapsto> 0, ''b'' \<mapsto> 4000] else Map.empty"
  have ok: "\<exists>b w'. ?call w = (Inr b, w')" for w
    by (auto simp: BucketsRepo_Allow_def NewBucketsRepo_def ideal_client_def Let_def split: prod.splits)
  obtain b w' b0 w0' where calls: "?call ?w = (Inr b, w')" "?call (\<lambda>_. Map.empty) = (Inr b0, w0')"
    using ok [of ?w] ok [of "\<lambda>_. Map.empty"] by blast
  have "in_range 1000000000 (at_ms 5000)"
    by (simp add: in_range_def)
  moreover have "\<forall>x s. ?w ''k'' x = Some s \<longrightarrow>
      0 \<le> s \<and> s \<le> UnixMilli (now (at_ms 5000)) - Milliseconds 1000000000"
    by (auto simp: Milliseconds_pos UnixMilli_def split: if_splits)
  ultimately have "b = b0"
    using redis_ttl_harmless [OF lawful_ideal _ refl _ calls] by blast
  then show ?thesis by (simp only: calls fst_conv)
qed

section \<open>The store as a limiter repository\<close>

definition redis_used :: "('w \<Rightarrow> zsets) \<Rightarrow> 'w \<Rightarrow> string \<Rightarrow> int \<Rightarrow> nat" where
  "redis_used zset w k c = card {x. \<exists>s. zset w k x = Some s \<and> c < s}"

definition redis_inv :: "('w \<Rightarrow> zsets) \<Rightarrow> 'w \<Rightarrow> bool" where
  "redis_inv zset w \<longleftrightarrow> (\<forall>k. finite (dom (zset w k)) \<and> (\<forall>x s. zset w k x = Some s \<longrightarrow> 0 \<le> s))"

definition redis_horizon :: "moment \<Rightarrow> int \<Rightarrow> int" where
  "redis_horizon m win = UnixMilli (now m) - Milliseconds win"

lemma redis_inv_cong: "redis_inv zset w \<Longrightarrow> zset w' = zset w \<Longrightarrow> redis_inv zset w'"
  by (simp add: redis_inv_def)

lemma attempted_dom: "dom (attempted window m z) \<subseteq> insert (member_of m) (dom z)"
  by (auto simp: attempted_def drop_scores_def split: option.splits if_splits)

lemma attempted_inv:
  assumes "redis_inv zset w" "in_range window m" "zset w' = (zset w)(k := attempted window m (zset w k))"
  shows "redis_inv zset w'"
proof -
  have "finite (dom (attempted window m (zset w k)))"
    using attempted_dom by (rule finite_subset) (use assms(1) in \<open>simp add: redis_inv_def\<close>)
  moreover have "0 \<le> s" if "attempted window m (zset w k) x = Some s" for x s
    using that assms(1) in_range_exact(3) [OF assms(2)]
    by (auto simp: redis_inv_def attempted_def drop_scores_def split: option.splits if_splits)
  ultimately show ?thesis
    using assms(1,3) by (simp add: redis_inv_def)
qed

lemma redis_Allow_effect:
  assumes "lawful_redis c zset" "in_range window m"
  shows "zset (snd (BucketsRepo_Allow (NewBucketsRepo c) m key limit window w)) = zset w \<or>
    zset (snd (BucketsRepo_Allow (NewBucketsRepo c) m key limit window w)) =
      (zset w)(key := attempted window m (zset w key))"
proof (cases "BucketsRepo_Allow (NewBucketsRepo c) m key limit window w")
  case (Pair r w')
  show ?thesis
  proof (cases r)
    case (Inl err)
    from redis_Allow_error [OF assms Pair [unfolded Inl]] show ?thesis unfolding Pair snd_conv .
  next
    case (Inr b)
    from redis_Allow_ok [OF assms Pair [unfolded Inr]] show ?thesis unfolding Pair snd_conv by blast
  qed
qed

lemma redis_Reset_effect:
  assumes "lawful_redis c zset" "BucketsRepo_Reset (NewBucketsRepo c) key w = (err, w')"
  shows "zset w' = (zset w)(key := Map.empty) \<or> (err \<noteq> None \<and> zset w' = zset w)"
proof -
  have call: "rdb_Del c key w = (err, w')"
    using assms(2) by (simp add: BucketsRepo_Reset_def NewBucketsRepo_def)
  from assms(1) [unfolded lawful_redis_def, THEN conjunct2, THEN spec [of _ key], THEN spec [of _ w]]
  have "case rdb_Del c key w of
      (None, w') \<Rightarrow> zset w' = (zset w)(key := Map.empty)
    | (Some err, w') \<Rightarrow> zset w' = zset w \<or> zset w' = (zset w)(key := Map.empty)" .
  then show ?thesis
    unfolding call by (cases err) auto
qed

lemma finite_above: "redis_inv zset w \<Longrightarrow> finite {x. \<exists>s. zset w k x = Some s \<and> c < s}"
  by (rule finite_subset [of _ "dom (zset w k)"]) (auto simp: redis_inv_def)

lemma redis_contract:
  assumes "lawful_redis c zset"
  shows "limiter_repo (redis_LimiterRepo (NewBucketsRepo c)) (\<lambda>m win. in_range win m)
    (redis_inv zset) (redis_used zset) redis_horizon"
proof (unfold_locales, unfold port_simps)
  fix w m win k l
  assume inv: "redis_inv zset w" "in_range win m"
  from redis_Allow_effect [OF assms inv(2), of k l w]
  show "redis_inv zset (snd (BucketsRepo_Allow (NewBucketsRepo c) m k l win w))"
  proof
    assume same: "zset (snd (BucketsRepo_Allow (NewBucketsRepo c) m k l win w)) = zset w"
    show ?thesis by (rule redis_inv_cong [OF inv(1) same])
  next
    assume added: "zset (snd (BucketsRepo_Allow (NewBucketsRepo c) m k l win w)) =
      (zset w)(k := attempted win m (zset w k))"
    show ?thesis by (rule attempted_inv [OF inv added])
  qed
next
  fix w k
  assume "redis_inv zset w"
  then show "redis_inv zset (snd (BucketsRepo_Reset (NewBucketsRepo c) k w))"
    using redis_Reset_effect [OF assms prod.collapse [symmetric], of k w] by (auto simp: redis_inv_def split: if_splits)
next
  fix w w' m win k l
  assume inv: "redis_inv zset w" "in_range win m"
    and call: "BucketsRepo_Allow (NewBucketsRepo c) m k l win w = (Inr True, w')"
  note ok = redis_Allow_ok [OF assms inv(2) call]
  have "redis_used zset w' k (redis_horizon m win) \<le> card (dom (zset w' k))"
    unfolding redis_used_def using attempted_inv [OF inv conjunct1 [OF ok]]
    by (intro card_mono) (auto simp: redis_inv_def)
  with ok show "int (redis_used zset w' k (redis_horizon m win)) \<le> l" by simp
next
  fix w m win k l
  assume inv: "redis_inv zset w" "in_range win m" and "0 < l"
    and "fst (BucketsRepo_Allow (NewBucketsRepo c) m k l win w) = Inr False"
  then obtain w' where call: "BucketsRepo_Allow (NewBucketsRepo c) m k l win w = (Inr False, w')"
    by (metis prod.collapse)
  note ok = redis_Allow_ok [OF assms inv(2) call]
  let ?live = "{x. \<exists>s. zset w k x = Some s \<and> redis_horizon m win < s}"
  have "dom (attempted win m (zset w k)) \<subseteq> insert (member_of m) ?live"
    using inv(1) by (auto simp: attempted_def drop_scores_def redis_horizon_def redis_inv_def
        split: option.splits if_splits)
  then have "card (dom (attempted win m (zset w k))) \<le> card (insert (member_of m) ?live)"
    using finite_above [OF inv(1), of k] by (intro card_mono) simp_all
  also have "\<dots> \<le> Suc (card ?live)"
    by (rule card_insert_le_m1) simp_all
  finally show "l \<le> int (redis_used zset w k (redis_horizon m win))"
    using ok by (simp add: redis_used_def)
next
  fix w m win l and k' k :: string
  assume "redis_inv zset w" "in_range win m" "k' \<noteq> k"
  with redis_Allow_effect [OF assms \<open>in_range win m\<close>, of k l w]
  show "redis_used zset (snd (BucketsRepo_Allow (NewBucketsRepo c) m k l win w)) k' = redis_used zset w k'"
    by (auto simp: redis_used_def fun_eq_iff)
next
  fix w w' k and cutoff :: int
  assume "BucketsRepo_Reset (NewBucketsRepo c) k w = (None, w')"
  from redis_Reset_effect [OF assms this] show "redis_used zset w' k cutoff = 0"
    by (simp add: redis_used_def)
next
  fix w and k' k :: string
  assume "k' \<noteq> k"
  then show "redis_used zset (snd (BucketsRepo_Reset (NewBucketsRepo c) k w)) k' = redis_used zset w k'"
    using redis_Reset_effect [OF assms prod.collapse [symmetric], of k w]
    by (auto simp: redis_used_def fun_eq_iff)
qed

text \<open>
  C24. On a lawful client the Redis store keeps the same contract as the in-memory store, so all
  that was proved of the services over that contract holds of them on Redis too.
\<close>

theorem redis_keeps_contract:
  assumes "lawful_redis c zset"
  shows "limiter_repo (redis_LimiterRepo (NewBucketsRepo c)) (\<lambda>m win. in_range win m)
    (redis_inv zset) (redis_used zset) redis_horizon"
  by (rule redis_contract [OF assms])

theorem redis_keeps_contract_witness:
  "limiter_repo (redis_LimiterRepo (NewBucketsRepo ideal_client)) (\<lambda>m win. in_range win m)
    (redis_inv (\<lambda>Z. Z)) (redis_used (\<lambda>Z. Z)) redis_horizon"
  by (rule redis_keeps_contract [OF lawful_ideal])

end
