(* ===== verification/Redis_Factory.thy ===== *)
theory Redis_Factory
  imports Redis_Buckets Config
begin

text \<open>
  \<open>internal/factory/redisclient.go\<close>: the two clients the server opens, one for the counters and the
  announcements, one for the subscription. go-redis is a third party: making a client from options,
  the ping and the closing are fields of a record; which option is filled from which parameter, and
  what happens when the ping fails, is the code's own. An option that is not set is the zero value.
\<close>

record redis_Options =
  opt_Addr :: string
  opt_Password :: string
  opt_DB :: int
  opt_DialTimeout :: int
  opt_ReadTimeout :: int
  opt_WriteTimeout :: int
  opt_PoolSize :: int

record ('rdb, 'w) go_redis =
  redis_NewClient :: "redis_Options \<Rightarrow> 'w \<Rightarrow> 'rdb \<times> 'w"
  redis_Ping :: "'rdb \<Rightarrow> 'w \<Rightarrow> go_error option \<times> 'w"
  redis_Close :: "'rdb \<Rightarrow> 'w \<Rightarrow> 'w"

definition policer_options :: "config_Database \<Rightarrow> redis_Options" where
  "policer_options cfg =
     \<lparr>opt_Addr = redis_Address (Redis cfg), opt_Password = redis_Password (Redis cfg),
      opt_DB = redis_DB (Redis cfg), opt_DialTimeout = policer_DialTimeout (Redis cfg),
      opt_ReadTimeout = policer_ReadTimeout (Redis cfg), opt_WriteTimeout = policer_WriteTimeout (Redis cfg),
      opt_PoolSize = policer_PoolSize (Redis cfg)\<rparr>"

definition subscriber_options :: "config_Database \<Rightarrow> redis_Options" where
  "subscriber_options cfg =
     \<lparr>opt_Addr = redis_Address (Redis cfg), opt_Password = redis_Password (Redis cfg),
      opt_DB = redis_DB (Redis cfg), opt_DialTimeout = 0,
      opt_ReadTimeout = subscriber_ReadTimeout (Redis cfg), opt_WriteTimeout = 0,
      opt_PoolSize = subscriber_PoolSize (Redis cfg)\<rparr>"

definition NewClientPolicer :: "('rdb, 'w) go_redis \<Rightarrow> config_Database \<Rightarrow> 'w \<Rightarrow> 'rdb result \<times> 'w" where
  "NewClientPolicer x cfg w =
     (case redis_NewClient x (policer_options cfg) w of
        (rdb, w1) \<Rightarrow>
          (case redis_Ping x rdb w1 of
             (Some err, w2) \<Rightarrow> (Inl err, redis_Close x rdb w2)
           | (None, w2) \<Rightarrow> (Inr rdb, w2)))"

definition NewClientSubscriber :: "('rdb, 'w) go_redis \<Rightarrow> config_Database \<Rightarrow> 'w \<Rightarrow> 'rdb result \<times> 'w" where
  "NewClientSubscriber x cfg w =
     (case redis_NewClient x (subscriber_options cfg) w of
        (rdb, w1) \<Rightarrow>
          (case redis_Ping x rdb w1 of
             (Some err, w2) \<Rightarrow> (Inl err, redis_Close x rdb w2)
           | (None, w2) \<Rightarrow> (Inr rdb, w2)))"

text \<open>
  What a step of opening keeps, it keeps as a whole: a fact about the world that making a client,
  pinging and closing do not change is not changed by either constructor.
\<close>

lemma NewClient_keeps:
  assumes "\<And>opts w. f (snd (redis_NewClient x opts w)) = f w" "\<And>c w. f (snd (redis_Ping x c w)) = f w"
    and "\<And>c w. f (redis_Close x c w) = f w"
  shows "f (snd (NewClientPolicer x cfg w)) = f w" "f (snd (NewClientSubscriber x cfg w)) = f w"
proof -
  have "f (snd (case redis_NewClient x opts w of
        (rdb, w1) \<Rightarrow>
          (case redis_Ping x rdb w1 of
             (Some err, w2) \<Rightarrow> (Inl err, redis_Close x rdb w2)
           | (None, w2) \<Rightarrow> (Inr rdb, w2)))) = f w" for opts
    using assms(1) [of opts w] assms(2) [of "fst (redis_NewClient x opts w)" "snd (redis_NewClient x opts w)"]
    by (auto simp: assms(3) split: prod.split option.split)
  then show "f (snd (NewClientPolicer x cfg w)) = f w" "f (snd (NewClientSubscriber x cfg w)) = f w"
    by (simp_all add: NewClientPolicer_def NewClientSubscriber_def)
qed

text \<open>Only a client that has answered a ping is handed out.\<close>

lemma NewClient_pinged:
  "NewClientPolicer x cfg w = (Inr c, w') \<Longrightarrow> \<exists>v. redis_Ping x c v = (None, w')"
  "NewClientSubscriber x cfg w = (Inr c, w') \<Longrightarrow> \<exists>v. redis_Ping x c v = (None, w')"
  by (auto simp: NewClientPolicer_def NewClientSubscriber_def split: prod.splits option.splits)

end
