(* ===== verification/Version.thy ===== *)
theory Version
  imports Go_Net
begin

text \<open>
  \<open>internal/version/version.go\<close>: the three variables that the linker fills in, printed as one line of
  JSON. The encoder is the standard library's \<open>encoding/json\<close> for a struct of strings, byte by byte;
  the writing of the line is a parameter.
\<close>

section \<open>UTF-8\<close>

definition byte_in :: "nat \<Rightarrow> nat \<Rightarrow> char \<Rightarrow> bool" where
  "byte_in lo hi c \<longleftrightarrow> lo \<le> of_char c \<and> of_char c \<le> hi"

abbreviation cont :: "char \<Rightarrow> bool" where
  "cont \<equiv> byte_in 0x80 0xBF"

text \<open>
  \<open>utf8.DecodeRuneInString\<close> on bytes from 0x80 on: the first byte says how long the character is and
  narrows the second; the length of the character at the front is 0 when there is none.
\<close>

definition lead_len :: "char \<Rightarrow> nat" where
  "lead_len a =
     (if byte_in 0xC2 0xDF a then 2 else if byte_in 0xE0 0xEF a then 3 else if byte_in 0xF0 0xF4 a then 4 else 0)"

definition second_ok :: "char \<Rightarrow> char \<Rightarrow> bool" where
  "second_ok a b =
     (if a = CHR 0xE0 then byte_in 0xA0 0xBF b else if a = CHR 0xED then byte_in 0x80 0x9F b
      else if a = CHR 0xF0 then byte_in 0x90 0xBF b else if a = CHR 0xF4 then byte_in 0x80 0x8F b
      else cont b)"

fun rune_len :: "string \<Rightarrow> nat" where
  "rune_len (a # b # s) =
     (if lead_len a \<noteq> 0 \<and> lead_len a \<le> length s + 2 \<and> second_ok a b \<and> list_all cont (take (lead_len a - 2) s)
      then lead_len a else 0)"
| "rune_len s = 0"

lemma rune_len_le: "rune_len s \<le> length s"
  by (cases s rule: rune_len.cases) auto

lemma rune_high: "\<forall>c \<in> set (take (rune_len s) s). \<not> byte_in 0 0x7F c"
proof (cases "rune_len s = 0")
  case False
  then obtain a b t where s: "s = a # b # t" "rune_len s = lead_len a" "lead_len a \<noteq> 0"
      "second_ok a b" "list_all cont (take (lead_len a - 2) t)"
    by (cases s rule: rune_len.cases) (auto split: if_splits)
  have "\<not> byte_in 0 0x7F a" "\<not> byte_in 0 0x7F b"
    using s(3,4) by (auto simp: lead_len_def second_ok_def byte_in_def split: if_splits)
  moreover have "\<forall>c \<in> set (take (lead_len a - 2) t). \<not> byte_in 0 0x7F c"
    using s(5) by (auto simp: list_all_iff byte_in_def)
  moreover have "take (lead_len a) s = a # b # take (lead_len a - 2) t"
    using s(1,3) by (auto simp: lead_len_def numeral_eq_Suc split: if_splits)
  ultimately show ?thesis by (simp add: s(2))
qed simp

section \<open>Strings in JSON\<close>

text \<open>The bytes below 0x80 that need no escape, and the escapes of the others; HTML is escaped too.\<close>

definition html_safe :: "char \<Rightarrow> bool" where
  "html_safe c \<longleftrightarrow> byte_in 0x20 0x7F c \<and>
     c \<noteq> CHR 0x22 \<and> c \<noteq> CHR ''&'' \<and> c \<noteq> CHR ''<'' \<and> c \<noteq> CHR ''>'' \<and> c \<noteq> CHR 0x5C"

definition escaped :: "char \<Rightarrow> string" where
  "escaped c =
     CHR 0x5C # (if c = CHR 0x5C \<or> c = CHR 0x22 then [c]
       else if c = CHR 0x08 then ''b'' else if c = CHR 0x0C then ''f'' else if c = CHR 0x0A then ''n''
       else if c = CHR 0x0D then ''r'' else if c = CHR 0x09 then ''t''
       else ''u00'' @ [hex_char (of_char c div 16), hex_char (of_char c mod 16)])"

text \<open>U+2028 and U+2029, which JavaScript takes for ends of lines.\<close>

definition line_separator :: "string \<Rightarrow> bool" where
  "line_separator s \<longleftrightarrow> s = [CHR 0xE2, CHR 0x80, CHR 0xA8] \<or> s = [CHR 0xE2, CHR 0x80, CHR 0xA9]"

function json_chars :: "string \<Rightarrow> string" where
  "json_chars [] = []"
| "json_chars (c # s) =
     (if byte_in 0 0x7F c then (if html_safe c then [c] else escaped c) @ json_chars s
      else let n = rune_len (c # s) in
        if n = 0 then CHR 0x5C # ''ufffd'' @ json_chars s
        else if line_separator (take n (c # s)) then
          CHR 0x5C # ''u202'' @ hex_char (of_char ((c # s) ! 2) mod 16) # json_chars (drop n (c # s))
        else take n (c # s) @ json_chars (drop n (c # s)))"
  by pat_completeness auto
termination
  by (relation "measure length") auto

declare json_chars.simps(2) [simp del]

definition json_string :: "string \<Rightarrow> string" where
  "json_string s = CHR 0x22 # json_chars s @ [CHR 0x22]"

section \<open>Printing\<close>

record build_vars =
  Release :: string
  BuildDate :: string
  GitHash :: string

definition build_defaults :: build_vars where
  "build_defaults = \<lparr>Release = ''UNKNOWN'', BuildDate = ''UNKNOWN'', GitHash = ''UNKNOWN''\<rparr>"

definition version_line :: "build_vars \<Rightarrow> string" where
  "version_line v =
     CHR ''{'' # json_string ''Release'' @ '':'' @ json_string (Release v) @ '','' @
     json_string ''BuildDate'' @ '':'' @ json_string (BuildDate v) @ '','' @
     json_string ''GitHash'' @ '':'' @ json_string (GitHash v) @ ''}'' @ [CHR 0x0A]"

definition PrintVersion :: "(string \<Rightarrow> 'w \<Rightarrow> go_error option \<times> 'w) \<Rightarrow> build_vars \<Rightarrow> 'w \<Rightarrow> 'w" where
  "PrintVersion stdout v w =
     (case stdout (version_line v) w of
        (Some err, w1) \<Rightarrow> snd (stdout (''error while decode version info: '' @ Error err @ [CHR 0x0A]) w1)
      | (None, w1) \<Rightarrow> w1)"

section \<open>Reading the line back\<close>

text \<open>Valid UTF-8, and a reader of JSON strings that knows every escape the encoder writes.\<close>

function utf8_ok :: "string \<Rightarrow> bool" where
  "utf8_ok [] = True"
| "utf8_ok (c # s) =
     (if byte_in 0 0x7F c then utf8_ok s
      else if rune_len (c # s) = 0 then False
      else utf8_ok (drop (rune_len (c # s)) (c # s)))"
  by pat_completeness auto
termination
  by (relation "measure length") auto

declare utf8_ok.simps(2) [simp del]

fun unescaped :: "char \<Rightarrow> string" where
  "unescaped c =
     [if c = CHR ''b'' then CHR 0x08 else if c = CHR ''f'' then CHR 0x0C else if c = CHR ''n'' then CHR 0x0A
      else if c = CHR ''r'' then CHR 0x0D else if c = CHR ''t'' then CHR 0x09 else c]"

definition rune_bytes :: "nat \<Rightarrow> string" where
  "rune_bytes n =
     (if n < 0x80 then [char_of n]
      else if n < 0x800 then [char_of (0xC0 + n div 64), char_of (0x80 + n mod 64)]
      else [char_of (0xE0 + n div 4096), char_of (0x80 + n div 64 mod 64), char_of (0x80 + n mod 64)])"

function json_read :: "string \<Rightarrow> (string \<times> string) option" where
  "json_read [] = None"
| "json_read (c # s) =
     (if c = CHR 0x22 then Some ([], s)
      else if c = CHR 0x5C then
        (case s of
           [] \<Rightarrow> None
         | x # s' \<Rightarrow>
             if x = CHR ''u'' then
               (case map hex_val (take 4 s') of
                  [Some h3, Some h2, Some h1, Some h0] \<Rightarrow>
                    map_option (apfst ((@) (rune_bytes (((h3 * 16 + h2) * 16 + h1) * 16 + h0)))) (json_read (drop 4 s'))
                | _ \<Rightarrow> None)
             else map_option (apfst ((@) (unescaped x))) (json_read s'))
      else if byte_in 0 0x1F c then None
      else map_option (apfst ((#) c)) (json_read s))"
  by pat_completeness auto
termination
  by (relation "measure length") auto

declare json_read.simps(2) [simp del]

lemma hex_val_char [simp]: "n < 16 \<Longrightarrow> hex_val (hex_char n) = Some n"
  by (auto simp: hex_val_def hex_char_def digit_val_def)

lemma zero_hex: "hex_char 0 = CHR ''0''" and two_hex: "hex_char 2 = CHR ''2''"
  by (simp_all add: hex_char_def char_of_def bit_simps)

lemma separator_bytes:
  "char_of (226 :: nat) = CHR 0xE2" "char_of (128 :: nat) = CHR 0x80" "char_of (168 :: nat) = CHR 0xA8"
  "char_of (169 :: nat) = CHR 0xA9"
  by (simp_all add: char_of_def bit_simps)

lemma json_read_plain:
  "html_safe c \<Longrightarrow> json_read (c # s) = map_option (apfst ((#) c)) (json_read s)"
  by (auto simp: json_read.simps(2) html_safe_def byte_in_def)

lemma json_read_high:
  "\<forall>c \<in> set bs. \<not> byte_in 0 0x7F c \<Longrightarrow> json_read (bs @ s) = map_option (apfst ((@) bs)) (json_read s)"
proof (induction bs)
  case (Cons c bs)
  have "json_read (c # bs @ s) = map_option (apfst ((#) c)) (json_read (bs @ s))"
    using Cons.prems by (auto simp: json_read.simps(2) byte_in_def)
  with Cons show ?case by (cases "json_read s") (auto simp: apfst_def map_prod_def)
qed (simp add: apfst_def map_prod_def option.map_ident [unfolded id_def [symmetric]] option.map_id)

lemma json_read_u:
  assumes "a < 16" "b < 16" "c < 16" "d < 16"
  shows "json_read (CHR 0x5C # CHR ''u'' # hex_char a # hex_char b # hex_char c # hex_char d # s)
    = map_option (apfst ((@) (rune_bytes (((a * 16 + b) * 16 + c) * 16 + d)))) (json_read s)"
  using assms by (simp add: json_read.simps(2))

lemma json_read_escaped:
  assumes "byte_in 0 0x7F c" "\<not> html_safe c"
  shows "json_read (escaped c @ s) = map_option (apfst ((#) c)) (json_read s)"
proof (cases "c \<in> {CHR 0x5C, CHR 0x22, CHR 0x08, CHR 0x0C, CHR 0x0A, CHR 0x0D, CHR 0x09}")
  case True
  then show ?thesis
    by (auto simp: escaped_def json_read.simps(2) apfst_def map_prod_def)
next
  case False
  define n :: nat where "n = of_char c"
  have n: "n < 128" "c = char_of n"
    using assms(1) by (simp_all add: n_def byte_in_def)
  have "escaped c @ s = CHR 0x5C # CHR ''u'' # hex_char 0 # hex_char 0 # hex_char (n div 16) # hex_char (n mod 16) # s"
    using False by (simp add: escaped_def n_def zero_hex)
  also have "json_read \<dots> = map_option (apfst ((@) (rune_bytes (((0 * 16 + 0) * 16 + n div 16) * 16 + n mod 16)))) (json_read s)"
    using n by (intro json_read_u) auto
  also have "rune_bytes (((0 * 16 + 0) * 16 + n div 16) * 16 + n mod 16) = [c]"
    using n by (simp add: rune_bytes_def)
  finally show ?thesis by (simp add: apfst_def map_prod_def)
qed

text \<open>What is valid UTF-8 is read back as it was.\<close>

lemma json_round_trip:
  "utf8_ok s \<Longrightarrow> json_read (json_chars s @ CHR 0x22 # r) = Some (s, r)"
proof (induction s rule: json_chars.induct)
  case 1
  show ?case by (simp add: json_read.simps(2))
next
  case (2 c s)
  show ?case
  proof (cases "byte_in 0 0x7F c")
    case True
    with 2 show ?thesis
      by (simp add: json_chars.simps(2) utf8_ok.simps(2) json_read_plain json_read_escaped)
  next
    case False
    define n t where "n = rune_len (c # s)" and "t = drop n (c # s)"
    from False 2(5) have n: "n \<noteq> 0" "utf8_ok t"
      by (simp_all add: utf8_ok.simps(2) n_def t_def split: if_splits)
    have IH: "json_read (json_chars t @ CHR 0x22 # r) = Some (t, r)"
      using 2(3) [OF False n_def] 2(4) [OF False n_def] n unfolding t_def by blast
    have whole: "c # s = take n (c # s) @ t"
      by (simp add: t_def)
    have step: "json_chars (c # s) =
        (if line_separator (take n (c # s)) then
           CHR 0x5C # ''u202'' @ hex_char (of_char ((c # s) ! 2) mod 16) # json_chars t
         else take n (c # s) @ json_chars t)"
      using False n by (simp only: json_chars.simps(2) n_def t_def Let_def if_False)
    show ?thesis
    proof (cases "line_separator (take n (c # s))")
      case True
      then obtain x where x: "take n (c # s) = [CHR 0xE2, CHR 0x80, x]" "x = CHR 0xA8 \<or> x = CHR 0xA9"
        by (auto simp: line_separator_def)
      then have "json_chars (c # s) = CHR 0x5C # CHR ''u'' # hex_char 2 # hex_char 0 # hex_char 2 # hex_char (of_char x mod 16) # json_chars t"
        using True step whole by (simp add: zero_hex two_hex)
      then have "json_read (json_chars (c # s) @ CHR 0x22 # r) = Some ([CHR 0xE2, CHR 0x80, x] @ t, r)"
        using IH x(2) json_read_u [of 2 0 2 "of_char x mod 16"] by (auto simp: rune_bytes_def separator_bytes)
      with whole x(1) show ?thesis by simp
    next
      case False
      have "json_read (take n (c # s) @ json_chars t @ CHR 0x22 # r) = Some (take n (c # s) @ t, r)"
        unfolding n_def json_read_high [OF rune_high] IH by simp
      with False whole show ?thesis by (simp only: step if_False append_assoc)
    qed
  qed
qed

text \<open>No byte of a printed string ends a line, so the line ends where it should.\<close>

lemma hex_char_range: "n < 16 \<Longrightarrow> hex_char n \<noteq> CHR 0x0A"
  using hex_val_char [of n] by (force simp: hex_val_def digit_val_def)

lemma escaped_one_line: "CHR 0x0A \<notin> set (escaped c)"
proof -
  have "of_char c div 16 < (16 :: nat)" using nat_of_char_less_256 [of c] by linarith
  from hex_char_range [OF this] hex_char_range [of "of_char c mod 16"] show ?thesis
    by (auto simp: escaped_def)
qed

lemma json_one_line: "CHR 0x0A \<notin> set (json_chars s)"
proof (induction s rule: json_chars.induct)
  case (2 c s)
  note IH = "2.IH"
  define n where "n = rune_len (c # s)"
  have rune: "CHR 0x0A \<notin> set (take n (c # s))"
  proof
    assume "CHR 0x0A \<in> set (take n (c # s))"
    with rune_high [of "c # s"] have "\<not> byte_in 0 0x7F (CHR 0x0A)" unfolding n_def by blast
    then show False by (simp add: byte_in_def)
  qed
  have "\<not> html_safe (CHR 0x0A)"
    by (simp add: html_safe_def byte_in_def)
  then have safe: "html_safe c \<Longrightarrow> c \<noteq> CHR 0x0A" by blast
  consider "byte_in 0 0x7F c" | "\<not> byte_in 0 0x7F c" "n = 0"
    | "\<not> byte_in 0 0x7F c" "n \<noteq> 0" "line_separator (take n (c # s))"
    | "\<not> byte_in 0 0x7F c" "n \<noteq> 0" "\<not> line_separator (take n (c # s))" by blast
  then show ?case
  proof cases
    case 1
    with IH(1) escaped_one_line safe show ?thesis by (auto simp: json_chars.simps(2))
  next
    case 2
    with IH(2) [OF 2(1) n_def] show ?thesis by (simp add: json_chars.simps(2) n_def Let_def)
  next
    case 3
    with IH(3) [OF 3(1) n_def] hex_char_range [of "of_char ((c # s) ! 2) mod 16"] show ?thesis
      by (simp add: json_chars.simps(2) n_def Let_def)
  next
    case 4
    from IH(4) [OF 4(1) n_def 4(2,3)] rune have "CHR 0x0A \<notin> set (take n (c # s) @ json_chars (drop n (c # s)))"
      by (simp only: set_append Un_iff simp_thms)
    with 4 show ?thesis by (simp only: json_chars.simps(2) n_def Let_def if_False simp_thms)
  qed
qed simp

text \<open>A field is its quoted name, a colon and a quoted value.\<close>

definition read_field :: "string \<Rightarrow> string \<Rightarrow> (string \<times> string) option" where
  "read_field lead s =
     (if take (length lead) s = lead then json_read (drop (length lead) s) else None)"

definition read_version :: "string \<Rightarrow> build_vars option" where
  "read_version s =
     Option.bind (read_field (CHR ''{'' # json_string ''Release'' @ '':'' @ [CHR 0x22]) s) (\<lambda>(r, s1).
     Option.bind (read_field ('','' @ json_string ''BuildDate'' @ '':'' @ [CHR 0x22]) s1) (\<lambda>(d, s2).
     Option.bind (read_field ('','' @ json_string ''GitHash'' @ '':'' @ [CHR 0x22]) s2) (\<lambda>(g, s3).
     if s3 = ''}'' @ [CHR 0x0A] then Some \<lparr>Release = r, BuildDate = d, GitHash = g\<rparr> else None)))"

lemma read_field_json:
  "utf8_ok s \<Longrightarrow> read_field lead (lead @ json_chars s @ CHR 0x22 # r) = Some (s, r)"
  by (simp add: read_field_def json_round_trip)

text \<open>
  The version reaches standard output as one line, whatever the linker put in, and reads back as it
  was when it is valid UTF-8.
\<close>

theorem printed_version_reads_back:
  assumes "utf8_ok (Release v)" "utf8_ok (BuildDate v)" "utf8_ok (GitHash v)"
  shows "PrintVersion (\<lambda>s out. (None, out @ s)) v out = out @ version_line v \<and>
    version_line v = butlast (version_line v) @ [CHR 0x0A] \<and> CHR 0x0A \<notin> set (butlast (version_line v)) \<and>
    read_version (version_line v) = Some v"
proof -
  have "version_line v =
      (CHR ''{'' # json_string ''Release'' @ '':'' @ [CHR 0x22]) @ json_chars (Release v) @ CHR 0x22 #
      ('','' @ json_string ''BuildDate'' @ '':'' @ [CHR 0x22]) @ json_chars (BuildDate v) @ CHR 0x22 #
      ('','' @ json_string ''GitHash'' @ '':'' @ [CHR 0x22]) @ json_chars (GitHash v) @ CHR 0x22 # (''}'' @ [CHR 0x0A])"
    by (simp add: version_line_def json_string_def [of "Release v"] json_string_def [of "BuildDate v"]
        json_string_def [of "GitHash v"])
  then have "read_version (version_line v) = Some v"
    using assms by (simp only: read_version_def read_field_json bind.simps prod.case) simp
  moreover have "\<exists>l. version_line v = l @ [CHR 0x0A] \<and> CHR 0x0A \<notin> set l"
    unfolding version_line_def
    by (intro exI [of _ "CHR ''{'' # json_string ''Release'' @ '':'' @ json_string (Release v) @ '','' @
          json_string ''BuildDate'' @ '':'' @ json_string (BuildDate v) @ '','' @
          json_string ''GitHash'' @ '':'' @ json_string (GitHash v) @ ''}''"])
      (simp add: json_string_def json_one_line)
  ultimately show ?thesis by (auto simp: PrintVersion_def)
qed

end
