(* ===== verification/Server_Run.thy ===== *)
theory Server_Run
  imports Local_Behaviour Postgres_Subnets Redis_Factory Version
begin

text \<open>
  \<open>cmd/anti-bruteforce/main.go\<close>: the assembly of the server in both work modes, from the log file to
  the listening socket, and what becomes of it when its goroutines end. What the standard library,
  the drivers and the kernel do is a field of a record; which objects are made, in which order, from
  which part of the configuration, and which failure ends the start, is the code's own.
\<close>

section \<open>The surroundings\<close>

text \<open>Where the world keeps the objects the program allocates.\<close>

record 'w heap =
  buckets_at :: "'w \<Rightarrow> BucketsDB"
  set_buckets :: "BucketsDB \<Rightarrow> 'w \<Rightarrow> 'w"
  subnets_at :: "'w \<Rightarrow> SubnetListDB"
  set_subnets :: "SubnetListDB \<Rightarrow> 'w \<Rightarrow> 'w"
  policer_at :: "'w \<Rightarrow> SubnetPolicer"
  set_policer :: "SubnetPolicer \<Rightarrow> 'w \<Rightarrow> 'w"

record ('db, 'rdb, 'w) host =
  h_OpenFile :: "string \<Rightarrow> 'w \<Rightarrow> go_error option \<times> 'w"
  h_CloseFile :: "string \<Rightarrow> 'w \<Rightarrow> 'w"
  h_sqlx :: "('db, 'w) sqlx"
  h_db :: "'db \<Rightarrow> 'w sql_db"
  h_redis :: "('rdb, 'w) go_redis"
  h_rdb :: "'rdb \<Rightarrow> 'w redis_client"
  h_Listen :: "string \<Rightarrow> string \<Rightarrow> 'w \<Rightarrow> go_error option \<times> 'w"
  h_Stdout :: "string \<Rightarrow> 'w \<Rightarrow> go_error option \<times> 'w"
  h_version :: build_vars

text \<open>The in-memory stores at their places in the world.\<close>

definition heap_LimiterRepo :: "'w heap \<Rightarrow> 'w LimiterRepo_port" where
  "heap_LimiterRepo hp =
     \<lparr>limiter_Allow = (\<lambda>m k l win. on_part (buckets_at hp) (set_buckets hp) (limiter_Allow memory_LimiterRepo m k l win)),
      limiter_Reset = (\<lambda>k. on_part (buckets_at hp) (set_buckets hp) (limiter_Reset memory_LimiterRepo k))\<rparr>"

definition heap_SubnetRepo :: "'w heap \<Rightarrow> 'w SubnetRepo_port" where
  "heap_SubnetRepo hp =
     \<lparr>repo_GetSubnetLists = (\<lambda>r lt. on_part (subnets_at hp) (set_subnets hp) (repo_GetSubnetLists memory_SubnetRepo r lt)),
      repo_SaveSubnetList = (\<lambda>lt cs. on_part (subnets_at hp) (set_subnets hp) (repo_SaveSubnetList memory_SubnetRepo lt cs)),
      repo_ClearSubnetList = (\<lambda>lt. on_part (subnets_at hp) (set_subnets hp) (repo_ClearSubnetList memory_SubnetRepo lt)),
      repo_AddCIDR = (\<lambda>lt c. on_part (subnets_at hp) (set_subnets hp) (repo_AddCIDR memory_SubnetRepo lt c)),
      repo_RemoveCIDR = (\<lambda>lt c. on_part (subnets_at hp) (set_subnets hp) (repo_RemoveCIDR memory_SubnetRepo lt c))\<rparr>"

section \<open>The steps of the start\<close>

text \<open>\<open>x, err := f(); if err != nil { return ... }\<close> and the wrapping of the error on the way out.\<close>

definition and_then :: "'a result \<times> 'w \<Rightarrow> ('a \<Rightarrow> 'w \<Rightarrow> 'b result \<times> 'w) \<Rightarrow> 'b result \<times> 'w" where
  "and_then r f = (case r of (Inl err, w) \<Rightarrow> (Inl err, w) | (Inr a, w) \<Rightarrow> f a w)"

definition wrapped :: "string \<Rightarrow> 'a result \<times> 'w \<Rightarrow> 'a result \<times> 'w" where
  "wrapped what r = (case r of (Inl err, w) \<Rightarrow> (Inl (Wrapf what err), w) | (Inr a, w) \<Rightarrow> (Inr a, w))"

definition local_mode :: "Config \<Rightarrow> bool" where
  "local_mode cfg \<longleftrightarrow> Workmode (cfg_Database cfg) = ''local''"

definition open_log :: "('db, 'rdb, 'w) host \<Rightarrow> Config \<Rightarrow> 'w \<Rightarrow> go_error option \<times> 'w" where
  "open_log h cfg w =
     (if logger_File (cfg_Logger cfg) \<noteq> [] then
        (case h_OpenFile h (logger_File (cfg_Logger cfg)) w of
           (Some err, w1) \<Rightarrow> (Some (Wrapf ''failed to open log file'' err), w1)
         | (None, w1) \<Rightarrow> (None, w1))
      else (None, w))"

definition init_SubnetRepo ::
  "('db, 'rdb, 'w) host \<Rightarrow> 'w heap \<Rightarrow> Config \<Rightarrow> 'w \<Rightarrow> 'w SubnetRepo_port result \<times> 'w" where
  "init_SubnetRepo h hp cfg w =
     (if local_mode cfg then (Inr (heap_SubnetRepo hp), set_subnets hp NewSubnetListDB w)
      else and_then (wrapped ''failed to initialize PostgreSQL subnet repository''
             (Pg_NewSubnetListDB (h_sqlx h) (h_db h) (cfg_Database cfg) w))
           (\<lambda>s w1. (Inr (postgres_SubnetRepo s), w1)))"

text \<open>The client for the counters is kept: the publisher uses it too.\<close>

definition init_LimiterRepo ::
  "('db, 'rdb, 'w) host \<Rightarrow> 'w heap \<Rightarrow> Config \<Rightarrow> 'w \<Rightarrow> ('w LimiterRepo_port \<times> 'rdb option) result \<times> 'w" where
  "init_LimiterRepo h hp cfg w =
     (if local_mode cfg then (Inr (heap_LimiterRepo hp, None), set_buckets hp NewBucketsDB w)
      else and_then (wrapped ''failed to initialize Redis client for rate limit repository''
             (NewClientPolicer (h_redis h) (cfg_Database cfg) w))
           (\<lambda>rdb w1. (Inr (redis_LimiterRepo (NewBucketsRepo (h_rdb h rdb)), Some rdb), w1)))"

definition init_RateLimiter ::
  "'w heap \<Rightarrow> Config \<Rightarrow> range_order \<Rightarrow> range_order \<Rightarrow> 'w SubnetRepo_port \<Rightarrow> 'w LimiterRepo_port \<Rightarrow> 'w \<Rightarrow>
    'w RateLimiterService result \<times> 'w" where
  "init_RateLimiter hp cfg r1 r2 sRepo lRepo w =
     and_then (wrapped ''failed to initialize rate limiter service''
       (NewRateLimiterService (policer_at hp) (set_policer hp) sRepo lRepo (cfg_Limits cfg) w))
     (\<lambda>svc w1. case RateLimiterService_Init svc r1 r2 w1 of
        (Some err, w2) \<Rightarrow> (Inl (Wrapf ''rate limiter service init'' err), w2)
      | (None, w2) \<Rightarrow> (Inr svc, w2))"

definition init_subscriber ::
  "('db, 'rdb, 'w) host \<Rightarrow> Config \<Rightarrow> 'w RateLimiterService \<Rightarrow> 'w \<Rightarrow>
    'w SubnetUpdatesSubscriber option result \<times> 'w" where
  "init_subscriber h cfg svc w =
     (if \<not> local_mode cfg then
        and_then (wrapped ''failed to initialize Redis client for subscriber''
          (NewClientSubscriber (h_redis h) (cfg_Database cfg) w))
        (\<lambda>rdc w1. (Inr (Some (NewSubnetUpdatesSubscriber (RateLimiterService_as_holder svc)
           (subscriber_SubnetsChannel (Redis (cfg_Database cfg))))), w1))
      else (Inr None, w))"

definition init_publisher ::
  "('db, 'rdb, 'w) host \<Rightarrow> Config \<Rightarrow> 'w RateLimiterService \<Rightarrow> 'rdb option \<Rightarrow> 'w \<Rightarrow>
    'w SubnetUpdatesPublisher_port result \<times> 'w" where
  "init_publisher h cfg svc rdb w =
     (if local_mode cfg then
        (Inr (local_publisher_port (NewLocalSubnetUpdatesPublisher (RateLimiterService_as_holder svc))), w)
      else case rdb of
        None \<Rightarrow> (Inl (Errorf ''redis client for publisher is nil''), w)
      | Some c \<Rightarrow>
          and_then (wrapped ''failed to initialize Redis subnet updates publisher''
            (NewRedisSubnetUpdatesPublisher (rdb_Publish (h_rdb h c))
               (subscriber_SubnetsChannel (Redis (cfg_Database cfg))), w))
          (\<lambda>p w1. (Inr (redis_publisher_port p), w1)))"

text \<open>\<open>net.JoinHostPort\<close>: a host with a colon is put in brackets.\<close>

definition JoinHostPort :: "string \<Rightarrow> string \<Rightarrow> string" where
  "JoinHostPort host port =
     (if CHR '':'' \<in> set host then ''['' @ host @ '']:'' @ port else host @ '':'' @ port)"

definition listen :: "('db, 'rdb, 'w) host \<Rightarrow> Config \<Rightarrow> 'w \<Rightarrow> string result \<times> 'w" where
  "listen h cfg w =
     (let addr = JoinHostPort (server_Address (cfg_Server cfg)) (Sprint_int (server_Port (cfg_Server cfg)))
      in case h_Listen h ''tcp'' addr w of
           (Some err, w1) \<Rightarrow> (Inl (Wrapf (''listen '' @ addr) err), w1)
         | (None, w1) \<Rightarrow> (Inr addr, w1))"

text \<open>Everything between the log file and the goroutines.\<close>

definition run_setup ::
  "('db, 'rdb, 'w) host \<Rightarrow> 'w heap \<Rightarrow> Config \<Rightarrow> range_order \<Rightarrow> range_order \<Rightarrow> 'w \<Rightarrow>
    ('w Server \<times> 'w SubnetUpdatesSubscriber option) result \<times> 'w" where
  "run_setup h hp cfg r1 r2 w =
     and_then (init_SubnetRepo h hp cfg w) (\<lambda>sRepo w1.
     and_then (init_LimiterRepo h hp cfg w1) (\<lambda>(lRepo, rdb) w2.
     and_then (init_RateLimiter hp cfg r1 r2 sRepo lRepo w2) (\<lambda>svc w3.
     and_then (init_subscriber h cfg svc w3) (\<lambda>subscriber w4.
     and_then (init_publisher h cfg svc rdb w4) (\<lambda>publisher w5.
       let subnetListSvc = NewSubnetListService sRepo publisher in
     and_then (listen h cfg w5) (\<lambda>addr w6.
       (Inr (NewServer (Some (RateLimiterService_as_usecase svc))
          (Some (SubnetListService_as_usecase subnetListSvc)), subscriber), w6)))))))"

section \<open>The end\<close>

text \<open>
  The error group: \<open>g_Wait\<close> is given what the goroutines returned, in the order they did; of the
  goroutines only the subscriber's is the program's own code. A cancelled context is no error.
\<close>

definition run_finish :: "(go_error option list \<Rightarrow> go_error option) \<Rightarrow> go_error option list \<Rightarrow> go_error option" where
  "run_finish g_Wait results =
     (case g_Wait results of
        None \<Rightarrow> None
      | Some err \<Rightarrow> if \<not> errors_Is err (ContextErr Canceled) then Some err else None)"

text \<open>
  \<open>serving\<close> is the time the goroutines run: given the server and the subscriber it yields what they
  return and the world they leave.
\<close>

definition run ::
  "('db, 'rdb, 'w) host \<Rightarrow> 'w heap \<Rightarrow> (go_error option list \<Rightarrow> go_error option) \<Rightarrow>
    ('w Server \<Rightarrow> 'w SubnetUpdatesSubscriber option \<Rightarrow> 'w \<Rightarrow> go_error option list \<times> 'w) \<Rightarrow>
    Config \<Rightarrow> range_order \<Rightarrow> range_order \<Rightarrow> 'w \<Rightarrow> go_error option \<times> 'w" where
  "run h hp g_Wait serving cfg r1 r2 w =
     (case open_log h cfg w of
        (Some err, w1) \<Rightarrow> (Some err, w1)
      | (None, w1) \<Rightarrow>
          (case (case run_setup h hp cfg r1 r2 w1 of
                   (Inl err, w2) \<Rightarrow> (Some err, w2)
                 | (Inr (srv, subscriber), w2) \<Rightarrow>
                     (case serving srv subscriber w2 of (results, w3) \<Rightarrow> (run_finish g_Wait results, w3))) of
             (res, w4) \<Rightarrow>
               (res, if logger_File (cfg_Logger cfg) \<noteq> [] then h_CloseFile h (logger_File (cfg_Logger cfg)) w4 else w4)))"

text \<open>\<open>main\<close>: the first argument, what the configuration loads to, and the exit code with its message.\<close>

datatype main_outcome = VersionPrinted | ExitOk | Exit nat string

definition main ::
  "loader \<Rightarrow> ('db, 'rdb, 'w) host \<Rightarrow> 'w heap \<Rightarrow> (go_error option list \<Rightarrow> go_error option) \<Rightarrow>
    ('w Server \<Rightarrow> 'w SubnetUpdatesSubscriber option \<Rightarrow> 'w \<Rightarrow> go_error option list \<times> 'w) \<Rightarrow>
    string list \<Rightarrow> string \<Rightarrow> range_order \<Rightarrow> range_order \<Rightarrow> 'w \<Rightarrow> main_outcome \<times> 'w" where
  "main ld h hp g_Wait serving args configFile r1 r2 w =
     (if args \<noteq> [] \<and> hd args = ''version'' then (VersionPrinted, PrintVersion (h_Stdout h) (h_version h) w)
      else case LoadConfig ld configFile of
        Inl err \<Rightarrow> (Exit 1 (''failed to load confige: '' @ Error err), w)
      | Inr cfg \<Rightarrow>
          (case run h hp g_Wait serving cfg r1 r2 w of
             (Some err, w1) \<Rightarrow> (Exit 1 (''anti-bruteforce exited with error: '' @ Error err), w1)
           | (None, w1) \<Rightarrow> (ExitOk, w1)))"

section \<open>The start in local mode\<close>

definition local_places :: "local_world heap" where
  "local_places =
     \<lparr>buckets_at = limit_db, set_buckets = put_limit_db, subnets_at = subnet_db, set_subnets = put_subnet_db,
      policer_at = policer, set_policer = put_policer\<rparr>"

lemma local_places_simps [wiring_simps]:
  "buckets_at local_places = limit_db" "set_buckets local_places = put_limit_db"
  "subnets_at local_places = subnet_db" "set_subnets local_places = put_subnet_db"
  "policer_at local_places = policer" "set_policer local_places = put_policer"
  by (simp_all add: local_places_def)

lemma local_places_repos:
  "heap_SubnetRepo local_places = local_SubnetRepo" "heap_LimiterRepo local_places = local_LimiterRepo"
  by (simp_all add: heap_SubnetRepo_def heap_LimiterRepo_def local_places_def local_SubnetRepo_def
      local_LimiterRepo_def)

lemma and_then_simps [simp]:
  "and_then (Inl err, w) f = (Inl err, w)" "and_then (Inr a, w) f = f a w"
  by (simp_all add: and_then_def)

lemma wrapped_simps [simp]:
  "wrapped what (Inl err, w) = (Inl (Wrapf what err), w)" "wrapped what (Inr a, w) = (Inr a, w)"
  by (simp_all add: wrapped_def)

lemma New_puts_policer:
  "NewRateLimiterService get put sr lr limits w =
    (Inr \<lparr>subnetPolicer = SubnetPolicer_as_port get put sr,
       limitChecker = LimitChecker_as_port (NewLimitChecker lr (LimitsFromConfig limits))\<rparr>,
     put (projr NewSubnetPolicer) w)"
  by (simp add: NewRateLimiterService_def NewSubnetPolicer_def Let_def)

text \<open>A host that listens anywhere and has no database, and a configuration.\<close>

definition bare_host :: "(unit, unit, 'w) host" where
  "bare_host =
     \<lparr>h_OpenFile = (\<lambda>p w. (None, w)), h_CloseFile = (\<lambda>p w. w),
      h_sqlx = \<lparr>sqlx_Open = (\<lambda>drv dsn w. (Inl (Foreign ''no database''), w)), sqlx_Ping = (\<lambda>d w. (None, w)),
        sqlx_Close = (\<lambda>d w. w), sqlx_SetMaxOpenConns = (\<lambda>n d w. w), sqlx_SetMaxIdleConns = (\<lambda>n d w. w),
        sqlx_SetConnMaxLifetime = (\<lambda>n d w. w), sqlx_SetConnMaxIdleTime = (\<lambda>n d w. w)\<rparr>,
      h_db = (\<lambda>d. \<lparr>db_Select = (\<lambda>q w. (Inl (Foreign ''no database''), w)),
        db_Exec = (\<lambda>q w. (Some (Foreign ''no database''), w)), db_Close = (\<lambda>w. (None, w))\<rparr>),
      h_redis = \<lparr>redis_NewClient = (\<lambda>opts w. ((), w)), redis_Ping = (\<lambda>c w. (Some (Foreign ''refused''), w)),
        redis_Close = (\<lambda>c w. w)\<rparr>,
      h_rdb = (\<lambda>c. \<lparr>rdb_Exec = (\<lambda>cmds w. (Inl (Foreign ''refused''), w)),
        rdb_Del = (\<lambda>k w. (Some (Foreign ''refused''), w)), rdb_Publish = (\<lambda>ch msg w. (Some (Foreign ''refused''), w))\<rparr>),
      h_Listen = (\<lambda>net addr w. (None, w)), h_Stdout = (\<lambda>s w. (None, w)), h_version = build_defaults\<rparr>"

definition sample_config :: "string \<Rightarrow> Config" where
  "sample_config mode =
     \<lparr>cfg_App = \<lparr>app_Name = ''abf''\<rparr>,
      cfg_Limits = \<lparr>LoginAttempts = 1, PasswordAttempts = 10, IPAttempts = 10, config_Window = 1000000000\<rparr>,
      cfg_Server = \<lparr>server_Address = ''::1'', server_Port = 50051, tls_Enabled = False, tls_CertFile = [],
        tls_KeyFile = []\<rparr>,
      cfg_Logger = \<lparr>logger_Level = ''info'', logger_File = []\<rparr>,
      cfg_Database = \<lparr>Workmode = mode,
        Postgresql = \<lparr>pg_Dsn = [], pg_User = ''u'', pg_Password = ''p'', pg_Host = ''h'', pg_Port = 5432,
          pg_Name = ''abf'', pg_Pool = \<lparr>MaxOpenConns = 10, MaxIdleConns = 5, ConnMaxLifetime = 1, ConnMaxIdleTime = 1\<rparr>\<rparr>,
        Redis = zero_Redis\<lparr>subscriber_SubnetsChannel := ''updates''\<rparr>\<rparr>\<rparr>"

text \<open>
  \<open>main\<close> exits with code 1 when the configuration does not load or \<open>run\<close> returns an error; once the
  goroutines run, the error of the group is one unless it is or wraps \<open>context.Canceled\<close>.
\<close>

lemma process_outcome:
  assumes "\<not> (args \<noteq> [] \<and> hd args = ''version'')"
    and "main ld h hp g_Wait serving args configFile r1 r2 w = (out, w')"
  shows "case LoadConfig ld configFile of
      Inl err \<Rightarrow> out = Exit 1 (''failed to load confige: '' @ Error err) \<and> w' = w
    | Inr cfg \<Rightarrow>
        (\<forall>err w1. open_log h cfg w = (Some err, w1) \<longrightarrow> (\<exists>msg. out = Exit 1 msg)) \<and>
        (\<forall>w1 err w2. open_log h cfg w = (None, w1) \<longrightarrow> run_setup h hp cfg r1 r2 w1 = (Inl err, w2) \<longrightarrow>
          out = Exit 1 (''anti-bruteforce exited with error: '' @ Error err)) \<and>
        (\<forall>w1 srv sub w2. open_log h cfg w = (None, w1) \<longrightarrow> run_setup h hp cfg r1 r2 w1 = (Inr (srv, sub), w2) \<longrightarrow>
          out = (case g_Wait (fst (serving srv sub w2)) of
             None \<Rightarrow> ExitOk
           | Some err \<Rightarrow> if errors_Is err (ContextErr Canceled) then ExitOk
               else Exit 1 (''anti-bruteforce exited with error: '' @ Error err)))"
  using assms
  by (auto simp: main_def run_def run_finish_def split: sum.splits prod.splits option.splits if_splits)

end
