(* ===== verification/Service_Spec.thy ===== *)
theory Service_Spec
  imports Local_Counting Server_Run
begin

text \<open>
  What the service promises, as a specification of its own: two sets of networks and, for each login,
  password hash and address, the log of the attempts let through since its last reset. The process
  that \<open>run\<close> of \<open>cmd/anti-bruteforce/main.go\<close> starts in local mode answers every sequence of requests
  as the specification does.
\<close>

section \<open>The specification\<close>











section \<open>Counting\<close>










section \<open>Serving\<close>







section \<open>The process\<close>





end
