(* ===== verification/External_System.thy ===== *)
theory External_System
  imports Server_Run
begin

text \<open>
  The server in external mode: the lists in PostgreSQL, the counters in Redis, an edit announced
  over Redis and taken up by the subscriber of every instance. The theory states what is relied on
  of the database, of Redis and of the host, and proves what the assembled server then does,
  between its start and its end.
\<close>

section \<open>What is relied on\<close>

text \<open>
  The table of the lists and the sorted sets of the counters are seen through \<open>tab\<close> and \<open>zset\<close>. Every
  handle reaches the same database and every client the same Redis, with the documented effect of
  their commands; neither touches the other or the policer of this process, and opening, pinging,
  announcing and listening change none of them.
\<close>

definition quiet :: "'w heap \<Rightarrow> ('w \<Rightarrow> table) \<Rightarrow> ('w \<Rightarrow> 'w) \<Rightarrow> bool" where
  "quiet hp tab f \<longleftrightarrow> (\<forall>w. tab (f w) = tab w \<and> policer_at hp (f w) = policer_at hp w)"

definition quiet_opening :: "('db, 'rdb, 'w) host \<Rightarrow> 'w heap \<Rightarrow> ('w \<Rightarrow> table) \<Rightarrow> bool" where
  "quiet_opening h hp tab \<longleftrightarrow>
     (\<forall>drv dsn. quiet hp tab (\<lambda>w. snd (sqlx_Open (h_sqlx h) drv dsn w))) \<and>
     (\<forall>d. quiet hp tab (\<lambda>w. snd (sqlx_Ping (h_sqlx h) d w))) \<and>
     (\<forall>d. quiet hp tab (sqlx_Close (h_sqlx h) d)) \<and>
     (\<forall>n d. quiet hp tab (sqlx_SetMaxOpenConns (h_sqlx h) n d)) \<and>
     (\<forall>n d. quiet hp tab (sqlx_SetMaxIdleConns (h_sqlx h) n d)) \<and>
     (\<forall>n d. quiet hp tab (sqlx_SetConnMaxLifetime (h_sqlx h) n d)) \<and>
     (\<forall>n d. quiet hp tab (sqlx_SetConnMaxIdleTime (h_sqlx h) n d)) \<and>
     (\<forall>opts. quiet hp tab (\<lambda>w. snd (redis_NewClient (h_redis h) opts w))) \<and>
     (\<forall>c. quiet hp tab (\<lambda>w. snd (redis_Ping (h_redis h) c w))) \<and>
     (\<forall>c. quiet hp tab (redis_Close (h_redis h) c)) \<and>
     (\<forall>p. quiet hp tab (\<lambda>w. snd (h_OpenFile h p w))) \<and>
     (\<forall>net addr. quiet hp tab (\<lambda>w. snd (h_Listen h net addr w)))"

definition lawful_host ::
  "('db, 'rdb, 'w) host \<Rightarrow> 'w heap \<Rightarrow> ('w \<Rightarrow> table) \<Rightarrow> ('w \<Rightarrow> zsets) \<Rightarrow> bool" where
  "lawful_host h hp tab zset \<longleftrightarrow>
     (\<forall>d. lawful_sql (h_db h d) tab) \<and>
     (\<forall>c. lawful_redis (h_rdb h c) zset) \<and>
     (\<forall>d q w. policer_at hp (snd (db_Select (h_db h d) q w)) = policer_at hp w) \<and>
     (\<forall>d q w. policer_at hp (snd (db_Exec (h_db h d) q w)) = policer_at hp w) \<and>
     (\<forall>c cmds. quiet hp tab (\<lambda>w. snd (rdb_Exec (h_rdb h c) cmds w))) \<and>
     (\<forall>c k. quiet hp tab (\<lambda>w. snd (rdb_Del (h_rdb h c) k w))) \<and>
     (\<forall>c ch msg. quiet hp tab (\<lambda>w. snd (rdb_Publish (h_rdb h c) ch msg w))) \<and>
     (\<forall>p w. policer_at hp (set_policer hp p w) = p \<and> tab (set_policer hp p w) = tab w) \<and>
     quiet_opening h hp tab"

lemma quietD: "quiet hp tab f \<Longrightarrow> tab (f w) = tab w" "quiet hp tab f \<Longrightarrow> policer_at hp (f w) = policer_at hp w"
  by (simp_all add: quiet_def)

lemma lawful_hostD:
  assumes "lawful_host h hp tab zset"
  shows "lawful_sql (h_db h d) tab" "lawful_redis (h_rdb h c) zset"
    "policer_at hp (snd (db_Select (h_db h d) q w)) = policer_at hp w"
    "policer_at hp (snd (db_Exec (h_db h d) q w)) = policer_at hp w"
    "quiet hp tab (\<lambda>w. snd (rdb_Exec (h_rdb h c) cmds w))"
    "quiet hp tab (\<lambda>w. snd (rdb_Del (h_rdb h c) k w))"
    "quiet hp tab (\<lambda>w. snd (rdb_Publish (h_rdb h c) ch msg w))"
    "policer_at hp (set_policer hp p w) = p" "tab (set_policer hp p w) = tab w"
    "quiet_opening h hp tab"
  using assms unfolding lawful_host_def by blast+

section \<open>The server that the start hands over\<close>

text \<open>The service and the server on handle \<open>d\<close> and client \<open>c\<close>.\<close>

definition external_rate ::
  "('db, 'rdb, 'w) host \<Rightarrow> 'w heap \<Rightarrow> Config \<Rightarrow> 'db \<Rightarrow> 'rdb \<Rightarrow> 'w RateLimiterService" where
  "external_rate h hp cfg d c =
     \<lparr>subnetPolicer = SubnetPolicer_as_port (policer_at hp) (set_policer hp) (postgres_SubnetRepo \<lparr>db = h_db h d\<rparr>),
      limitChecker = LimitChecker_as_port
        (NewLimitChecker (redis_LimiterRepo (NewBucketsRepo (h_rdb h c))) (LimitsFromConfig (cfg_Limits cfg)))\<rparr>"

definition external_publisher ::
  "('db, 'rdb, 'w) host \<Rightarrow> Config \<Rightarrow> 'rdb \<Rightarrow> 'w SubnetUpdatesPublisher_port" where
  "external_publisher h cfg c =
     redis_publisher_port \<lparr>pub_rdb = rdb_Publish (h_rdb h c),
       pub_channel = subscriber_SubnetsChannel (Redis (cfg_Database cfg))\<rparr>"

definition external_server ::
  "('db, 'rdb, 'w) host \<Rightarrow> 'w heap \<Rightarrow> Config \<Rightarrow> 'db \<Rightarrow> 'rdb \<Rightarrow> 'w Server" where
  "external_server h hp cfg d c =
     NewServer (Some (RateLimiterService_as_usecase (external_rate h hp cfg d c)))
       (Some (SubnetListService_as_usecase
         (NewSubnetListService (postgres_SubnetRepo \<lparr>db = h_db h d\<rparr>) (external_publisher h cfg c))))"

definition external_subscriber ::
  "('db, 'rdb, 'w) host \<Rightarrow> 'w heap \<Rightarrow> Config \<Rightarrow> 'db \<Rightarrow> 'rdb \<Rightarrow> 'w SubnetUpdatesSubscriber" where
  "external_subscriber h hp cfg d c =
     NewSubnetUpdatesSubscriber (RateLimiterService_as_holder (external_rate h hp cfg d c))
       (subscriber_SubnetsChannel (Redis (cfg_Database cfg)))"

lemma and_then_Inr:
  "and_then r f = (Inr b, w') \<longleftrightarrow> (\<exists>a w1. r = (Inr a, w1) \<and> f a w1 = (Inr b, w'))"
  by (auto simp: and_then_def split: prod.splits sum.splits)

lemma wrapped_Inr: "wrapped what r = (Inr a, w) \<longleftrightarrow> r = (Inr a, w)"
  by (auto simp: wrapped_def split: prod.splits sum.splits)

text \<open>The reload of this server's policer.\<close>

abbreviation external_reload ::
  "('db, 'rdb, 'w) host \<Rightarrow> 'w heap \<Rightarrow> 'db \<Rightarrow> range_order \<Rightarrow> range_order \<Rightarrow> 'w \<Rightarrow>
    (go_error option \<times> SubnetPolicer) \<times> 'w" where
  "external_reload h hp d r1 r2 w \<equiv>
     SubnetPolicer_ReloadSubnets (postgres_SubnetRepo \<lparr>db = h_db h d\<rparr>) r1 r2 (policer_at hp w) w"

lemma external_Reload:
  "RateLimiterService_ReloadSubnets (external_rate h hp cfg d c) r1 r2 w =
    (case external_reload h hp d r1 r2 w of ((err, sp), w') \<Rightarrow> (err, set_policer hp sp w'))"
  by (simp add: RateLimiterService_ReloadSubnets_def external_rate_def port_simps)

lemma external_Init:
  "RateLimiterService_Init (external_rate h hp cfg d c) r1 r2 w =
    (case RateLimiterService_ReloadSubnets (external_rate h hp cfg d c) r1 r2 w of
       (err, w') \<Rightarrow> (map_option (Wrapf ''initial subnet lists load'') err, w'))"
  by (auto simp: RateLimiterService_Init_def RateLimiterService_ReloadSubnets_def split: prod.split option.split)

lemma external_steps:
  assumes "\<not> local_mode cfg"
  shows "init_SubnetRepo h hp cfg w = (Inr sr, w1) \<Longrightarrow>
      \<exists>d. sr = postgres_SubnetRepo \<lparr>db = h_db h d\<rparr> \<and>
        Pg_NewSubnetListDB (h_sqlx h) (h_db h) (cfg_Database cfg) w = (Inr \<lparr>db = h_db h d\<rparr>, w1)"
    and "init_LimiterRepo h hp cfg w = (Inr (lr, rdb), w1) \<Longrightarrow>
      \<exists>c. rdb = Some c \<and> lr = redis_LimiterRepo (NewBucketsRepo (h_rdb h c)) \<and>
        NewClientPolicer (h_redis h) (cfg_Database cfg) w = (Inr c, w1)"
    and "init_subscriber h cfg svc w = (Inr sub, w1) \<Longrightarrow>
      sub = Some (NewSubnetUpdatesSubscriber (RateLimiterService_as_holder svc)
        (subscriber_SubnetsChannel (Redis (cfg_Database cfg)))) \<and>
      (\<exists>c. NewClientSubscriber (h_redis h) (cfg_Database cfg) w = (Inr c, w1))"
    and "init_publisher h cfg svc (Some c) w = (Inr pub, w1) \<Longrightarrow>
      pub = external_publisher h cfg c \<and> w1 = w"
  using assms
  by (auto simp: init_SubnetRepo_def init_LimiterRepo_def init_subscriber_def init_publisher_def
      and_then_Inr wrapped_Inr Pg_NewSubnetListDB_def NewRedisSubnetUpdatesPublisher_def
      external_publisher_def Let_def split: prod.splits sum.splits)

lemma init_RateLimiter_Inr:
  assumes "init_RateLimiter hp cfg r1 r2 sr lr w = (Inr svc, w1)"
  shows "svc = \<lparr>subnetPolicer = SubnetPolicer_as_port (policer_at hp) (set_policer hp) sr,
      limitChecker = LimitChecker_as_port (NewLimitChecker lr (LimitsFromConfig (cfg_Limits cfg)))\<rparr> \<and>
    RateLimiterService_Init svc r1 r2 (set_policer hp (projr NewSubnetPolicer) w) = (None, w1)"
  using assms by (auto simp: init_RateLimiter_def New_puts_policer split: prod.splits option.splits)

lemma listen_Inr: "listen h cfg w = (Inr addr, w1) \<Longrightarrow> w1 = snd (h_Listen h ''tcp'' addr w)"
  by (auto simp: listen_def Let_def split: prod.splits option.splits)

lemma external_setup:
  assumes "\<not> local_mode cfg" "run_setup h hp cfg r1 r2 w = (Inr (srv, sub), w')"
  shows "\<exists>d c w1 w2 w3 w4 c' addr.
    srv = external_server h hp cfg d c \<and> sub = Some (external_subscriber h hp cfg d c) \<and>
    Pg_NewSubnetListDB (h_sqlx h) (h_db h) (cfg_Database cfg) w = (Inr \<lparr>db = h_db h d\<rparr>, w1) \<and>
    NewClientPolicer (h_redis h) (cfg_Database cfg) w1 = (Inr c, w2) \<and>
    RateLimiterService_Init (external_rate h hp cfg d c) r1 r2 (set_policer hp (projr NewSubnetPolicer) w2) = (None, w3) \<and>
    NewClientSubscriber (h_redis h) (cfg_Database cfg) w3 = (Inr c', w4) \<and>
    w' = snd (h_Listen h ''tcp'' addr w4)"
proof -
  from assms(2) obtain sr w1 lr rdb w2 svc w3 w4 pub w5 addr w6 where
    s: "init_SubnetRepo h hp cfg w = (Inr sr, w1)" "init_LimiterRepo h hp cfg w1 = (Inr (lr, rdb), w2)"
      "init_RateLimiter hp cfg r1 r2 sr lr w2 = (Inr svc, w3)" "init_subscriber h cfg svc w3 = (Inr sub, w4)"
      "init_publisher h cfg svc rdb w4 = (Inr pub, w5)" "listen h cfg w5 = (Inr addr, w')"
    and srv: "srv = NewServer (Some (RateLimiterService_as_usecase svc))
      (Some (SubnetListService_as_usecase (NewSubnetListService sr pub)))"
    by (auto simp: run_setup_def and_then_Inr Let_def)
  note step = external_steps [OF assms(1)]
  from step(1) [OF s(1)] obtain d where d: "sr = postgres_SubnetRepo \<lparr>db = h_db h d\<rparr>"
    "Pg_NewSubnetListDB (h_sqlx h) (h_db h) (cfg_Database cfg) w = (Inr \<lparr>db = h_db h d\<rparr>, w1)" by blast
  from step(2) [OF s(2)] obtain c where c: "rdb = Some c" "lr = redis_LimiterRepo (NewBucketsRepo (h_rdb h c))"
    "NewClientPolicer (h_redis h) (cfg_Database cfg) w1 = (Inr c, w2)" by blast
  from init_RateLimiter_Inr [OF s(3)] have svc: "svc = external_rate h hp cfg d c"
    "RateLimiterService_Init svc r1 r2 (set_policer hp (projr NewSubnetPolicer) w2) = (None, w3)"
    unfolding external_rate_def c d by blast+
  from step(3) [OF s(4)] obtain c' where sub: "sub = Some (external_subscriber h hp cfg d c)"
    "NewClientSubscriber (h_redis h) (cfg_Database cfg) w3 = (Inr c', w4)"
    by (auto simp: external_subscriber_def svc)
  from step(4) [OF s(5) [unfolded c(1)]] have pub: "pub = external_publisher h cfg c" "w5 = w4" by auto
  have "srv = external_server h hp cfg d c"
    by (simp add: srv external_server_def svc(1) d(1) pub)
  with sub d(2) c(3) svc listen_Inr [OF s(6)] pub(2) show ?thesis by auto
qed

section \<open>The policer follows the table\<close>

abbreviation pg_valid :: "('w \<Rightarrow> table) \<Rightarrow> 'w \<Rightarrow> bool" where
  "pg_valid tab w \<equiv> \<forall>c \<in> pg_stored tab w Whitelist \<union> pg_stored tab w Blacklist. valid_cidr c"

definition follows :: "'w heap \<Rightarrow> ('w \<Rightarrow> table) \<Rightarrow> 'w \<Rightarrow> bool" where
  "follows hp tab w \<longleftrightarrow>
     white_texts (policer_at hp w) = pg_stored tab w Whitelist \<and>
     black_texts (policer_at hp w) = pg_stored tab w Blacklist"

lemma pg_stored_cong: "tab w' = tab w \<Longrightarrow> pg_stored tab w' = pg_stored tab w"
  by (simp add: pg_stored_def fun_eq_iff)

text \<open>One reload, on the table as it is: it succeeds only if every stored text is valid.\<close>

lemma external_reload_effect:
  assumes "lawful_host h hp tab zset" "fair_order r1" "fair_order r2" "policer_wired (policer_at hp w)"
    and "RateLimiterService_ReloadSubnets (external_rate h hp cfg d c) r1 r2 w = (err, w')"
  shows "pg_stored tab w' = pg_stored tab w \<and> policer_wired (policer_at hp w') \<and>
    (err = None \<longrightarrow> follows hp tab w' \<and> pg_valid tab w)"
proof -
  obtain sp v where r: "external_reload h hp d r1 r2 w = ((err, sp), v)" "w' = set_policer hp sp v"
    using assms(5) by (auto simp: external_Reload split: prod.splits)
  note cases = subnet_repo.reload_cases [OF postgres_contract [OF lawful_hostD(1) [OF assms(1)]] TrueI assms(2-4) r(1)]
  have "pg_stored tab w' = pg_stored tab v" "policer_at hp w' = sp"
    unfolding r(2) by (rule pg_stored_cong [of tab, OF lawful_hostD(9) [OF assms(1)]]) (rule lawful_hostD(8) [OF assms(1)])
  with cases show ?thesis by (simp add: follows_def)
qed

text \<open>What only the policer and the table see of a step.\<close>

lemma checker_keeps:
  assumes "\<And>m k l win w. f (snd (limiter_Allow repo m k l win w)) = f w"
    and "\<And>k w. f (snd (limiter_Reset repo k w)) = f w"
  shows "f (snd (LimitChecker_Allow (NewLimitChecker repo ls) m lt key w)) = f w"
    "f (snd (LimitChecker_Reset (NewLimitChecker repo ls) lt key w)) = f w"
  by (simp_all add: LimitChecker_Allow_def LimitChecker_Reset_def NewLimitChecker_def NewLimiter_def
      Limiter_Allow_def Limiter_Reset_def assms split: option.split)

lemma service_keeps:
  assumes "\<And>m k l win w. f (snd (limiter_Allow repo m k l win w)) = f w"
    and "\<And>k w. f (snd (limiter_Reset repo k w)) = f w" and "counts_in cfg repo s"
  shows "f (snd (RateLimiterService_Check s m login password ip w)) = f w"
    "f (snd (RateLimiterService_Reset s login password ip w)) = f w"
proof -
  let ?lc = "NewLimitChecker repo (LimitsFromConfig cfg)"
  note keep = checker_keeps [OF assms(1,2), where ls = "LimitsFromConfig cfg"]
  obtain a1 w1 where s1: "LimitChecker_Allow ?lc (at_login m) LoginLimit login w = (a1, w1)" by fastforce
  obtain a2 w2 where s2: "LimitChecker_Allow ?lc (at_password m) PasswordLimit (hashPassword password) w1 = (a2, w2)"
    by fastforce
  obtain a3 w3 where s3: "LimitChecker_Allow ?lc (at_ip m) IPLimit (IP_String ip) w2 = (a3, w3)" by fastforce
  have "f w1 = f w" "f w2 = f w1" "f w3 = f w2"
    using keep(1) s1 s2 s3 by (metis snd_conv)+
  then show "f (snd (RateLimiterService_Check s m login password ip w)) = f w"
    using assms(3)
    by (simp add: RateLimiterService_Check_def counts_in_def port_simps Let_def s1 s2 s3
        split: sum.split PolicyDecision.split)
next
  let ?lc = "NewLimitChecker repo (LimitsFromConfig cfg)"
  note keep = checker_keeps [OF assms(1,2), where ls = "LimitsFromConfig cfg"]
  obtain e1 w1 where s1: "LimitChecker_Reset ?lc LoginLimit login w = (e1, w1)" by fastforce
  obtain e2 w2 where s2: "LimitChecker_Reset ?lc PasswordLimit (hashPassword password) w1 = (e2, w2)" by fastforce
  obtain e3 w3 where s3: "LimitChecker_Reset ?lc IPLimit (IP_String ip) w2 = (e3, w3)" by fastforce
  have "f w1 = f w" "f w2 = f w1" "f w3 = f w2"
    using keep(2) s1 s2 s3 by (metis snd_conv)+
  then show "f (snd (RateLimiterService_Reset s login password ip w)) = f w"
    using assms(3)
    by (simp add: RateLimiterService_Reset_def counts_in_def port_simps Let_def s1 s2 s3 split: option.split)
qed

lemma edit_call_keeps:
  assumes "\<And>lt c w. f (snd (repo_AddCIDR repo lt c w)) = f w" "\<And>lt c w. f (snd (repo_RemoveCIDR repo lt c w)) = f w"
    and "\<And>r1 r2 w. f (snd (PublishSubnetUpdated pub r1 r2 w)) = f w"
  shows "f (snd (edit_call (NewSubnetListService repo pub) e r1 r2 w)) = f w"
proof -
  have port: "subnetRepo (NewSubnetListService repo pub) = repo"
    "subnetUpdatePublisher (NewSubnetListService repo pub) = pub"
    by (simp_all add: NewSubnetListService_def)
  have call: "f (snd (case g w of
        (Some err, w1) \<Rightarrow> (Some (Wrapf t1 err), w1)
      | (None, w1) \<Rightarrow>
          (case PublishSubnetUpdated pub r1 r2 w1 of
             (Some err, w2) \<Rightarrow> (Some (Wrapf t2 err), w2)
           | (None, w2) \<Rightarrow> (None, w2)))) = f w" if "f (snd (g w)) = f w" for g t1 t2
    using that assms(3) [of r1 r2 "snd (g w)"] by (auto split: prod.split option.split)
  show ?thesis
    by (cases e) (simp_all only: edit_call.simps list_service_defs port call assms(1,2))
qed

lemma external_publish:
  "PublishSubnetUpdated (external_publisher h cfg c) r1 r2 =
    rdb_Publish (h_rdb h c) (subscriber_SubnetsChannel (Redis (cfg_Database cfg))) ''reload''"
  by (simp add: external_publisher_def port_simps Redis_PublishSubnetUpdated_def fun_eq_iff)

lemma external_policer_kept:
  assumes "lawful_host h hp tab zset"
  shows "policer_at hp (snd (repo_AddCIDR (postgres_SubnetRepo \<lparr>db = h_db h d\<rparr>) lt x w)) = policer_at hp w"
    "policer_at hp (snd (repo_RemoveCIDR (postgres_SubnetRepo \<lparr>db = h_db h d\<rparr>) lt x w)) = policer_at hp w"
    "policer_at hp (snd (PublishSubnetUpdated (external_publisher h cfg c) r1 r2 w)) = policer_at hp w"
    "policer_at hp (snd (limiter_Allow (redis_LimiterRepo (NewBucketsRepo (h_rdb h c))) m k l win w)) = policer_at hp w"
    "policer_at hp (snd (limiter_Reset (redis_LimiterRepo (NewBucketsRepo (h_rdb h c))) k w)) = policer_at hp w"
proof -
  note law = lawful_hostD [OF assms]
  show "policer_at hp (snd (repo_AddCIDR (postgres_SubnetRepo \<lparr>db = h_db h d\<rparr>) lt x w)) = policer_at hp w"
    "policer_at hp (snd (repo_RemoveCIDR (postgres_SubnetRepo \<lparr>db = h_db h d\<rparr>) lt x w)) = policer_at hp w"
    by (simp_all add: port_simps Pg_AddCIDR_def Pg_RemoveCIDR_def law(4))
  show "policer_at hp (snd (PublishSubnetUpdated (external_publisher h cfg c) r1 r2 w)) = policer_at hp w"
    using quietD(2) [OF law(7)] by (simp add: external_publish)
  show "policer_at hp (snd (limiter_Reset (redis_LimiterRepo (NewBucketsRepo (h_rdb h c))) k w)) = policer_at hp w"
    using quietD(2) [OF law(6)] by (simp add: port_simps BucketsRepo_Reset_def NewBucketsRepo_def)
  have exec: "policer_at hp w' = policer_at hp v" if "rdb_Exec (h_rdb h c) cmds v = (r, w')" for cmds v r w'
    using quietD(2) [OF law(5), of c cmds v] that by simp
  show "policer_at hp (snd (limiter_Allow (redis_LimiterRepo (NewBucketsRepo (h_rdb h c))) m k l win w)) = policer_at hp w"
    by (auto simp: port_simps BucketsRepo_Allow_def NewBucketsRepo_def Let_def dest: exec
        split: prod.split sum.split)
qed

lemma external_counts_in: "counts_in (cfg_Limits cfg) (redis_LimiterRepo (NewBucketsRepo (h_rdb h c))) (external_rate h hp cfg d c)"
  by (simp add: counts_in_def external_rate_def)

text \<open>No request changes the policer; an edit that succeeds changes the table as it says.\<close>

lemma external_serve_policer:
  assumes "lawful_host h hp tab zset"
  shows "policer_at hp (snd (serve (external_server h hp cfg d c) r w)) = policer_at hp w"
proof -
  note kept = external_policer_kept [OF assms]
  have check: "policer_at hp (snd (RateLimiterService_Check (external_rate h hp cfg d c) m l p ip v)) = policer_at hp v"
    for m l p ip v
    by (rule service_keeps(1) [OF kept(4,5) external_counts_in])
  have reset: "policer_at hp (snd (RateLimiterService_Reset (external_rate h hp cfg d c) l p ip v)) = policer_at hp v"
    for l p ip v
    by (rule service_keeps(2) [OF kept(4,5) external_counts_in])
  show ?thesis
  proof (cases r)
    case (CheckAttempt m req)
    show ?thesis
      using check by (auto simp: CheckAttempt serve.simps Server_CheckAttempt_def external_server_def
          NewServer_def port_simps split: prod.split sum.split option.split) (metis snd_conv)+
  next
    case (ResetBucket req)
    show ?thesis
      using reset by (auto simp: ResetBucket serve.simps Server_ResetBucket_def external_server_def
          NewServer_def port_simps split: prod.split sum.split option.split) (metis snd_conv)+
  next
    case (ManageCIDR e r1 r2)
    show ?thesis
      using edit_call_keeps [where f = "policer_at hp", OF kept(1,2,3), of d cfg c e r1 r2 w]
      by (auto simp: ManageCIDR external_server_def serve_edit split: prod.split option.split)
  qed
qed

lemma external_edit_table:
  assumes "lawful_host h hp tab zset"
    and "serve (external_server h hp cfg d c) (ManageCIDR e r1 r2) w = (Done, w')"
  shows "pg_stored tab w' = edit_sets e (pg_stored tab w)"
proof -
  have "edit_call (NewSubnetListService (postgres_SubnetRepo \<lparr>db = h_db h d\<rparr>) (external_publisher h cfg c)) e r1 r2 w
      = (None, w')"
    using assms(2) by (auto simp: external_server_def serve_edit split: prod.splits option.splits)
  from subnet_repo.edit_success [OF postgres_contract [OF lawful_hostD(1) [OF assms(1)]] TrueI this]
  obtain w1 where w1: "pg_stored tab w1 = edit_sets e (pg_stored tab w)"
    "PublishSubnetUpdated (external_publisher h cfg c) r1 r2 w1 = (None, w')" by blast
  have "tab w' = tab w1"
    using quietD(1) [OF lawful_hostD(7) [OF assms(1)]] w1(2) by (metis external_publish snd_conv)
  with w1(1) show ?thesis
    by (simp add: pg_stored_cong [of tab w' w1])
qed

section \<open>The life of a process\<close>

text \<open>
  What happens to a process after its start: it serves a request, its subscriber takes up a message
  and goes on waiting, or the rest of the world moves (other instances, an operator at the database),
  which does not touch this process' policer.
\<close>

inductive ext_step ::
  "'w Server \<Rightarrow> 'w SubnetUpdatesSubscriber \<Rightarrow> ('w \<Rightarrow> SubnetPolicer) \<Rightarrow> 'w \<Rightarrow> 'w \<Rightarrow> bool"
  for srv sub pol where
  Served: "fair_request r \<Longrightarrow> ext_step srv sub pol w (snd (serve srv r w))"
| Taken_up: "fair_order r1 \<Longrightarrow> fair_order r2 \<Longrightarrow> Start sub [Message r1 r2 (\<lambda>v. v)] w = (None, w') \<Longrightarrow>
    ext_step srv sub pol w w'"
| Elsewhere: "pol w' = pol w \<Longrightarrow> ext_step srv sub pol w w'"

lemma Start_message:
  "Start (external_subscriber h hp cfg d c) (Message r1 r2 (\<lambda>v. v) # es) w =
    (case RateLimiterService_ReloadSubnets (external_rate h hp cfg d c) r1 r2 w of
       (Some err, w1) \<Rightarrow> (Some (Wrapf ''reload subnet policy'' err), w1)
     | (None, w1) \<Rightarrow> Start (external_subscriber h hp cfg d c) es w1)"
  by (simp add: external_subscriber_def NewSubnetUpdatesSubscriber_def port_simps split: prod.split option.split)

lemma taken_up:
  assumes "lawful_host h hp tab zset" "fair_order r1" "fair_order r2" "policer_wired (policer_at hp w)"
    and "Start (external_subscriber h hp cfg d c) [Message r1 r2 (\<lambda>v. v)] w = (None, w')"
  shows "policer_wired (policer_at hp w') \<and> follows hp tab w' \<and> pg_stored tab w' = pg_stored tab w \<and> pg_valid tab w"
proof -
  have "RateLimiterService_ReloadSubnets (external_rate h hp cfg d c) r1 r2 w = (None, w')"
    using assms(5) unfolding Start_message by (auto simp del: Start.simps(4) split: prod.splits option.splits)
  from external_reload_effect [OF assms(1-4) this] show ?thesis by simp
qed

lemma ext_step_wired:
  assumes "lawful_host h hp tab zset"
    and "ext_step (external_server h hp cfg d c) (external_subscriber h hp cfg d c) (policer_at hp) w w'"
    and "policer_wired (policer_at hp w)"
  shows "policer_wired (policer_at hp w')"
  using assms(2)
proof cases
  case (Served r)
  with external_serve_policer [OF assms(1), of cfg d c r w] assms(3) show ?thesis by simp
next
  case (Taken_up r1 r2)
  from taken_up [OF assms(1) Taken_up(1,2) assms(3) Taken_up(3)] show ?thesis by blast
next
  case Elsewhere
  with assms(3) show ?thesis by simp
qed

lemma ext_run_wired:
  assumes "lawful_host h hp tab zset"
    and "(ext_step (external_server h hp cfg d c) (external_subscriber h hp cfg d c) (policer_at hp))\<^sup>*\<^sup>* w w'"
    and "policer_wired (policer_at hp w)"
  shows "policer_wired (policer_at hp w')"
  using assms(2,3) by (induction rule: rtranclp_induct) (auto intro: ext_step_wired [OF assms(1)])

section \<open>The start\<close>

lemma quiet_opening_parts:
  assumes "quiet_opening h hp tab"
  shows "quiet hp tab (\<lambda>w. snd (sqlx_Open (h_sqlx h) drv dsn w))"
    "quiet hp tab (\<lambda>w. snd (sqlx_Ping (h_sqlx h) d w))" "quiet hp tab (sqlx_Close (h_sqlx h) d)"
    "quiet hp tab (sqlx_SetMaxOpenConns (h_sqlx h) n d)" "quiet hp tab (sqlx_SetMaxIdleConns (h_sqlx h) n d)"
    "quiet hp tab (sqlx_SetConnMaxLifetime (h_sqlx h) n d)" "quiet hp tab (sqlx_SetConnMaxIdleTime (h_sqlx h) n d)"
    "quiet hp tab (\<lambda>w. snd (redis_NewClient (h_redis h) opts w))" "quiet hp tab (\<lambda>w. snd (redis_Ping (h_redis h) c w))"
    "quiet hp tab (redis_Close (h_redis h) c)" "quiet hp tab (\<lambda>w. snd (h_OpenFile h p w))"
    "quiet hp tab (\<lambda>w. snd (h_Listen h net addr w))"
  using assms unfolding quiet_opening_def by blast+

lemma quiet_openingD:
  assumes "quiet_opening h hp tab"
  shows "quiet hp tab (\<lambda>w. snd (Pg_NewSubnetListDB (h_sqlx h) (h_db h) cfg w))"
    and "quiet hp tab (\<lambda>w. snd (NewClientPolicer (h_redis h) cfg w))"
    and "quiet hp tab (\<lambda>w. snd (NewClientSubscriber (h_redis h) cfg w))"
    and "quiet hp tab (\<lambda>w. snd (open_log h scfg w))"
proof -
  define obs where "obs = (\<lambda>w. (tab w, policer_at hp w))"
  have quiet_obs: "quiet hp tab f \<longleftrightarrow> (\<forall>w. obs (f w) = obs w)" for f
    by (simp add: quiet_def obs_def)
  note parts = quiet_opening_parts [OF assms, unfolded quiet_obs, rule_format]
  have openDB: "obs (snd (OpenDB (h_sqlx h) cfg w)) = obs w" for w
  proof -
    let ?dsn = "if pg_Dsn (Postgresql cfg) = [] then built_dsn (Postgresql cfg) else pg_Dsn (Postgresql cfg)"
    obtain r w1 where o: "sqlx_Open (h_sqlx h) ''pgx'' ?dsn w = (r, w1)" by fastforce
    have o': "obs w1 = obs w"
      using parts(1) [of "''pgx''" ?dsn w] unfolding o by simp
    show ?thesis
    proof (cases r)
      case (Inl err)
      have "OpenDB (h_sqlx h) cfg w = (Inl err, w1)"
        by (simp only: OpenDB_eq o Inl prod.case sum.case)
      with o' show ?thesis by simp
    next
      case (Inr d)
      obtain e w2 where p: "sqlx_Ping (h_sqlx h) d w1 = (e, w2)" by fastforce
      have "OpenDB (h_sqlx h) cfg w = (case e of Some err \<Rightarrow> (Inl err, sqlx_Close (h_sqlx h) d w2) | None \<Rightarrow> (Inr d, w2))"
        by (simp only: OpenDB_eq o Inr p prod.case sum.case)
      with o' parts(2) [of d w1] p parts(3) [of d w2] show ?thesis
        by (cases e) simp_all
    qed
  qed
  have "obs (snd (Pg_NewSubnetListDB (h_sqlx h) (h_db h) cfg w)) = obs w" for w
  proof (cases "OpenDB (h_sqlx h) cfg w")
    case (Pair r w1)
    with openDB [of w] show ?thesis
      by (cases r) (simp_all add: Pg_NewSubnetListDB_def Let_def parts(4-7))
  qed
  then show "quiet hp tab (\<lambda>w. snd (Pg_NewSubnetListDB (h_sqlx h) (h_db h) cfg w))"
    by (simp add: quiet_obs)
  show "quiet hp tab (\<lambda>w. snd (NewClientPolicer (h_redis h) cfg w))"
    "quiet hp tab (\<lambda>w. snd (NewClientSubscriber (h_redis h) cfg w))"
    unfolding quiet_obs by (intro allI NewClient_keeps parts)+
  have "obs (snd (open_log h scfg w)) = obs w" for w
    using parts(11) [of "logger_File (cfg_Logger scfg)" w]
    by (cases "h_OpenFile h (logger_File (cfg_Logger scfg)) w") (simp add: open_log_def split: option.split)
  then show "quiet hp tab (\<lambda>w. snd (open_log h scfg w))"
    by (simp add: quiet_obs)
qed

text \<open>A start that succeeds found only valid texts, and leaves the policer with all of them.\<close>

lemma external_started:
  assumes "lawful_host h hp tab zset" "\<not> local_mode cfg" "fair_order r1" "fair_order r2"
    and "run_setup h hp cfg r1 r2 w = (Inr (srv, sub), w0)"
  shows "\<exists>d c. srv = external_server h hp cfg d c \<and> sub = Some (external_subscriber h hp cfg d c) \<and>
    policer_wired (policer_at hp w0) \<and> follows hp tab w0 \<and> pg_stored tab w0 = pg_stored tab w \<and> pg_valid tab w"
proof -
  note quiet = lawful_hostD(10) [OF assms(1)]
  note law = quiet_openingD [OF quiet] quiet_opening_parts(12) [OF quiet]
  from external_setup [OF assms(2,5)] obtain d c w1 w2 w3 w4 c' addr where
    parts: "srv = external_server h hp cfg d c" "sub = Some (external_subscriber h hp cfg d c)" and
    s1: "Pg_NewSubnetListDB (h_sqlx h) (h_db h) (cfg_Database cfg) w = (Inr \<lparr>db = h_db h d\<rparr>, w1)" and
    s2: "NewClientPolicer (h_redis h) (cfg_Database cfg) w1 = (Inr c, w2)" and
    s3: "RateLimiterService_Init (external_rate h hp cfg d c) r1 r2 (set_policer hp (projr NewSubnetPolicer) w2) = (None, w3)" and
    s4: "NewClientSubscriber (h_redis h) (cfg_Database cfg) w3 = (Inr c', w4)" and
    s5: "w0 = snd (h_Listen h ''tcp'' addr w4)" by blast
  let ?v = "set_policer hp (projr NewSubnetPolicer) w2"
  have v: "policer_at hp ?v = projr NewSubnetPolicer" "tab ?v = tab w2"
    using lawful_hostD(8,9) [OF assms(1)] by blast+
  have "policer_wired (policer_at hp ?v)"
    using NewSubnetPolicer_wired [of "projr NewSubnetPolicer"] unfolding v by (simp add: NewSubnetPolicer_def)
  moreover have "RateLimiterService_ReloadSubnets (external_rate h hp cfg d c) r1 r2 ?v = (None, w3)"
    using s3 by (auto simp: external_Init split: prod.splits)
  ultimately have reload: "pg_stored tab w3 = pg_stored tab ?v" "policer_wired (policer_at hp w3)" "follows hp tab w3"
    "pg_valid tab ?v"
    using external_reload_effect [OF assms(1,3,4)] by blast+
  have "tab w2 = tab w"
    using quietD(1) [OF law(1), of "cfg_Database cfg" w] quietD(1) [OF law(2), of "cfg_Database cfg" w1] s1 s2 by simp
  then have before: "pg_stored tab ?v = pg_stored tab w"
    by (intro pg_stored_cong) (simp add: v)
  have "tab w0 = tab w3" "policer_at hp w0 = policer_at hp w3"
    using quietD [OF law(3), of "cfg_Database cfg" w3] quietD [OF law(5), of "''tcp''" addr w4] s4 s5 by simp_all
  with reload parts before show ?thesis
    by (auto simp: follows_def pg_stored_cong [of tab w0 w3])
qed

section \<open>Errors of a reload\<close>

text \<open>When the database answers, what stops a reload is an invalid text, never a cancellation.\<close>

lemma ParseCIDR_error: "ParseCIDR s = Inl err \<Longrightarrow> err = ParseError ''CIDR address'' s"
  unfolding ParseCIDR_def Let_def by (simp split: list.split_asm option.split_asm if_split_asm)

lemma add_all_not_canceled: "fst (add_all cs nl) = Some e \<Longrightarrow> \<not> errors_Is e (ContextErr Canceled)"
proof (induction cs arbitrary: nl)
  case (Cons c cs)
  from Cons show ?case
    by (auto simp: SubnetList_Add_def dest!: ParseCIDR_error split: sum.splits prod.splits if_splits)
qed simp

definition reads_succeed :: "('db, 'rdb, 'w) host \<Rightarrow> bool" where
  "reads_succeed h \<longleftrightarrow> (\<forall>d lt w. \<exists>cs. fst (db_Select (h_db h d) (SelectCidrs lt) w) = Inr cs)"

lemma Load_not_canceled:
  assumes "reads_succeed h"
    and "SubnetList_Load (postgres_SubnetRepo \<lparr>db = h_db h d\<rparr>) r nl w = ((Some e, nl'), w')"
  shows "\<not> errors_Is e (ContextErr Canceled)"
proof -
  obtain cs v where "db_Select (h_db h d) (SelectCidrs (listType nl)) w = (Inr cs, v)"
    using assms(1) unfolding reads_succeed_def by (metis prod.collapse)
  with assms(2) have "fst (add_all cs (SubnetList_Clear nl)) = Some e"
    by (simp add: SubnetList_Load_def port_simps Pg_Get_select)
  then show ?thesis by (rule add_all_not_canceled)
qed

lemma reload_not_canceled:
  assumes "reads_succeed h" "external_reload h hp d r1 r2 w = ((Some e, sp), w')"
  shows "\<not> errors_Is e (ContextErr Canceled)"
  using assms(2)
  by (auto simp: SubnetPolicer_ReloadSubnets_def reload_list_def dest: Load_not_canceled [OF assms(1)]
      split: prod.splits option.splits)

section \<open>Properties\<close>

text \<open>A process that has started and run for a while.\<close>

definition ext_running ::
  "('db, 'rdb, 'w) host \<Rightarrow> 'w heap \<Rightarrow> Config \<Rightarrow> 'w Server \<Rightarrow> 'w SubnetUpdatesSubscriber \<Rightarrow> 'w \<Rightarrow> bool" where
  "ext_running h hp cfg srv sub w \<longleftrightarrow>
     \<not> local_mode cfg \<and>
     (\<exists>r1 r2 v w0. fair_order r1 \<and> fair_order r2 \<and> run_setup h hp cfg r1 r2 v = (Inr (srv, Some sub), w0) \<and>
       (ext_step srv sub (policer_at hp))\<^sup>*\<^sup>* w0 w)"

lemma ext_runningD:
  assumes "lawful_host h hp tab zset" "ext_running h hp cfg srv sub w"
  shows "\<exists>d c. srv = external_server h hp cfg d c \<and> sub = external_subscriber h hp cfg d c \<and>
    policer_wired (policer_at hp w)"
proof -
  from assms(2) obtain r1 r2 v w0 where run: "fair_order r1" "fair_order r2" "\<not> local_mode cfg"
    "run_setup h hp cfg r1 r2 v = (Inr (srv, Some sub), w0)" "(ext_step srv sub (policer_at hp))\<^sup>*\<^sup>* w0 w"
    by (auto simp: ext_running_def)
  from external_started [OF assms(1) run(3,1,2,4)] obtain d c where
    d: "srv = external_server h hp cfg d c" "sub = external_subscriber h hp cfg d c" "policer_wired (policer_at hp w0)"
    by auto
  from ext_run_wired [OF assms(1) run(5) [unfolded d(1,2)] d(3)] d(1,2) show ?thesis by blast
qed

lemma ext_running_step:
  "ext_running h hp cfg srv sub w \<Longrightarrow> (ext_step srv sub (policer_at hp))\<^sup>*\<^sup>* w w' \<Longrightarrow> ext_running h hp cfg srv sub w'"
  unfolding ext_running_def by (meson rtranclp_trans)

text \<open>A world with a table, sorted sets and a policer, and a host that keeps every law on it.\<close>

record ext_world =
  ew_tab :: "(string \<times> string) list"
  ew_z :: zsets
  ew_pol :: SubnetPolicer

definition ext_places :: "ext_world heap" where
  "ext_places =
     \<lparr>buckets_at = (\<lambda>w. NewBucketsDB), set_buckets = (\<lambda>db w. w),
      subnets_at = (\<lambda>w. NewSubnetListDB), set_subnets = (\<lambda>db w. w),
      policer_at = ew_pol, set_policer = (\<lambda>sp w. w\<lparr>ew_pol := sp\<rparr>)\<rparr>"

definition ext_db :: "ext_world sql_db" where
  "ext_db =
     \<lparr>db_Select = (\<lambda>q. on_part ew_tab (\<lambda>t w. w\<lparr>ew_tab := t\<rparr>) (db_Select ideal_db q)),
      db_Exec = (\<lambda>q. on_part ew_tab (\<lambda>t w. w\<lparr>ew_tab := t\<rparr>) (db_Exec ideal_db q)),
      db_Close = (\<lambda>w. (None, w))\<rparr>"

definition ext_rdb :: "ext_world redis_client" where
  "ext_rdb =
     \<lparr>rdb_Exec = (\<lambda>cmds. on_part ew_z (\<lambda>z w. w\<lparr>ew_z := z\<rparr>) (rdb_Exec ideal_client cmds)),
      rdb_Del = (\<lambda>k. on_part ew_z (\<lambda>z w. w\<lparr>ew_z := z\<rparr>) (rdb_Del ideal_client k)),
      rdb_Publish = (\<lambda>ch msg w. (None, w))\<rparr>"

definition ext_host :: "(unit, unit, ext_world) host" where
  "ext_host = bare_host
     \<lparr>h_sqlx := (h_sqlx bare_host)\<lparr>sqlx_Open := (\<lambda>drv dsn w. (Inr (), w))\<rparr>, h_db := (\<lambda>d. ext_db),
      h_redis := (h_redis bare_host)\<lparr>redis_Ping := (\<lambda>c w. (None, w))\<rparr>, h_rdb := (\<lambda>c. ext_rdb)\<rparr>"

definition ext_init :: ext_world where
  "ext_init = \<lparr>ew_tab = [], ew_z = (\<lambda>_. Map.empty), ew_pol = projr NewSubnetPolicer\<rparr>"

abbreviation ext_tab :: "ext_world \<Rightarrow> table" where
  "ext_tab w \<equiv> set (ew_tab w)"

lemma lawful_ext_db: "lawful_sql ext_db ext_tab"
proof -
  have sel: "db_Select ext_db q w = (fst (db_Select ideal_db q (ew_tab w)), w\<lparr>ew_tab := snd (db_Select ideal_db q (ew_tab w))\<rparr>)"
    "db_Exec ext_db q w = (fst (db_Exec ideal_db q (ew_tab w)), w\<lparr>ew_tab := snd (db_Exec ideal_db q (ew_tab w))\<rparr>)" for q w
    by (simp_all add: ext_db_def on_part_def split: prod.split)
  show ?thesis
    using lawful_ideal_db unfolding lawful_sql_def sel by (auto split: prod.splits sum.splits option.splits)
qed

lemma lawful_ext_rdb: "lawful_redis ext_rdb ew_z"
  by (auto simp: lawful_redis_def ext_rdb_def ideal_client_def on_part_def split: prod.split)

lemma lawful_ext_host: "lawful_host ext_host ext_places ext_tab ew_z"
proof -
  have open_quiet: "quiet_opening ext_host ext_places ext_tab"
    by (simp add: quiet_opening_def quiet_def ext_host_def bare_host_def)
  have parts: "h_db ext_host d = ext_db" "h_rdb ext_host c = ext_rdb" for d c
    by (simp_all add: ext_host_def)
  have keeps: "ew_pol (snd (db_Select ext_db q w)) = ew_pol w" "ew_pol (snd (db_Exec ext_db q w)) = ew_pol w" for q w
    by (simp_all add: ext_db_def)
  have quiets: "quiet ext_places ext_tab (\<lambda>w. snd (rdb_Exec ext_rdb cmds w))"
    "quiet ext_places ext_tab (\<lambda>w. snd (rdb_Del ext_rdb k w))"
    "quiet ext_places ext_tab (\<lambda>w. snd (rdb_Publish ext_rdb ch msg w))" for cmds k ch msg
    by (simp_all add: quiet_def ext_rdb_def ext_places_def)
  have places: "policer_at ext_places = ew_pol" "set_policer ext_places p w = w\<lparr>ew_pol := p\<rparr>" for p w
    by (simp_all add: ext_places_def)
  show ?thesis
    unfolding lawful_host_def parts places
    using open_quiet keeps quiets lawful_ext_db lawful_ext_rdb by (simp add: places)
qed

abbreviation ext_config :: Config where
  "ext_config \<equiv> sample_config ''external''"

abbreviation ext_server :: "ext_world Server" where
  "ext_server \<equiv> external_server ext_host ext_places ext_config () ()"

abbreviation ext_subscriber :: "ext_world SubnetUpdatesSubscriber" where
  "ext_subscriber \<equiv> external_subscriber ext_host ext_places ext_config () ()"

lemma ext_config_external: "\<not> local_mode ext_config"
  by (simp add: local_mode_def sample_config_def)

lemma ext_setup:
  "run_setup ext_host ext_places ext_config rev rev ext_init = (Inr (ext_server, Some ext_subscriber), ext_init)"
proof -
  have open1: "Pg_NewSubnetListDB (h_sqlx ext_host) (h_db ext_host) cfg w = (Inr \<lparr>db = h_db ext_host ()\<rparr>, w)" for cfg w
    by (simp add: Pg_NewSubnetListDB_def OpenDB_eq ext_host_def bare_host_def Let_def)
  have open2: "NewClientPolicer (h_redis ext_host) cfg w = (Inr (), w)"
    "NewClientSubscriber (h_redis ext_host) cfg w = (Inr (), w)" for cfg w
    by (simp_all add: NewClientPolicer_def NewClientSubscriber_def ext_host_def bare_host_def)
  have init: "RateLimiterService_Init (external_rate ext_host ext_places ext_config () ()) rev rev ext_init = (None, ext_init)"
    by (simp add: external_Init external_Reload SubnetPolicer_ReloadSubnets_def reload_list_def SubnetList_Load_def
        port_simps Pg_Get_select ext_host_def ext_db_def ideal_db_def on_part_def ext_init_def ext_places_def
        NewSubnetPolicer_def NewSubnetList_def SubnetList_Clear_def)
  have put: "set_policer ext_places (projr NewSubnetPolicer) ext_init = ext_init"
    by (simp add: ext_places_def ext_init_def)
  show ?thesis
    using ext_config_external init
    by (simp add: run_setup_def init_SubnetRepo_def init_LimiterRepo_def init_RateLimiter_def init_subscriber_def
        init_publisher_def New_puts_policer open1 open2 put Let_def NewRedisSubnetUpdatesPublisher_def listen_def
        external_server_def external_rate_def external_subscriber_def external_publisher_def)
      (simp add: ext_host_def bare_host_def)
qed

lemma ext_runs: "(ext_step ext_server ext_subscriber (policer_at ext_places))\<^sup>*\<^sup>* ext_init w \<Longrightarrow>
    ext_running ext_host ext_places ext_config ext_server ext_subscriber w"
  unfolding ext_running_def using ext_config_external ext_setup fair_order_id(2) by blast

text \<open>
  C23. In external mode an edit takes effect in two steps. Answered without error, it has changed the
  table, but this server decides as before; whatever happens in between, once its subscriber has
  taken up a message and goes on waiting, it decides by the table as it is then.
\<close>

theorem external_edit_two_steps:
  assumes "lawful_host h hp tab zset" "ext_running h hp cfg srv sub w"
    and "serve srv (ManageCIDR e r1 r2) w = (Done, w1)"
    and "(ext_step srv sub (policer_at hp))\<^sup>*\<^sup>* w1 w2" "fair_order r1" "fair_order r2" "fair_order r3" "fair_order r4"
    and "Start sub [Message r3 r4 (\<lambda>v. v)] w2 = (None, w3)"
  shows "pg_stored tab w1 = edit_sets e (pg_stored tab w) \<and>
    SubnetPolicer_Check (policer_at hp w1) ip = SubnetPolicer_Check (policer_at hp w) ip \<and>
    pg_stored tab w3 = pg_stored tab w2 \<and>
    SubnetPolicer_Check (policer_at hp w3) ip = decide (pg_stored tab w3 Whitelist) (pg_stored tab w3 Blacklist) ip"
proof -
  from ext_runningD [OF assms(1,2)] obtain d c where
    d: "srv = external_server h hp cfg d c" "sub = external_subscriber h hp cfg d c" by blast
  have same: "policer_at hp w1 = policer_at hp w"
    using external_serve_policer [OF assms(1), of cfg d c "ManageCIDR e r1 r2" w] assms(3) by (simp add: d)
  have "ext_running h hp cfg srv sub w2"
  proof (rule ext_running_step [OF assms(2)])
    have "ext_step srv sub (policer_at hp) w w1"
      using ext_step.Served [of "ManageCIDR e r1 r2" srv sub "policer_at hp" w] assms(3,5,6) by simp
    then show "(ext_step srv sub (policer_at hp))\<^sup>*\<^sup>* w w2"
      using assms(4) by (rule converse_rtranclp_into_rtranclp)
  qed
  then have "policer_wired (policer_at hp w2)"
    using ext_runningD [OF assms(1)] by blast
  note up = taken_up [OF assms(1,7,8) this assms(9) [unfolded d(2)]]
  have "SubnetPolicer_Check (policer_at hp w3) ip = decide (pg_stored tab w3 Whitelist) (pg_stored tab w3 Blacklist) ip"
    using Check_decides [of "policer_at hp w3" ip] conjunct1 [OF up] conjunct1 [OF conjunct2 [OF up]]
    by (simp add: follows_def)
  with same up external_edit_table [OF assms(1) assms(3) [unfolded d(1)]] show ?thesis
    by metis
qed

abbreviation ext_listed :: ext_world where
  "ext_listed \<equiv> ext_init\<lparr>ew_tab := [(''10.0.0.0/8'', Blacklist)]\<rparr>"

lemma ext_edit: "serve ext_server (ManageCIDR (AddB ''10.0.0.0/8'') rev rev) ext_init = (Done, ext_listed)"
  by (simp add: external_server_def serve_edit AddToBlacklist_def NewSubnetListService_def port_simps Pg_AddCIDR_def
      external_publish ext_host_def ext_db_def ideal_db_def ext_rdb_def on_part_def ext_init_def)

lemma ext_message: "fst (Start ext_subscriber [Message rev rev (\<lambda>v. v)] ext_listed) = None"
proof -
  obtain nl where add: "SubnetList_Add ''10.0.0.0/8'' (SubnetList_Clear (NewSubnetList Blacklist)) = (None, nl)"
    using witness_net_facts(1) by (auto simp: valid_cidr_def SubnetList_Add_def split: sum.splits prod.splits)
  show ?thesis
    unfolding Start_message external_Reload
    by (simp add: SubnetPolicer_ReloadSubnets_def reload_list_def SubnetList_Load_def
        port_simps Pg_Get_select ext_host_def ext_db_def ideal_db_def on_part_def ext_init_def ext_places_def
        NewSubnetPolicer_def NewSubnetList_def SubnetList_Clear_def add [unfolded SubnetList_Clear_def NewSubnetList_def, simplified])
qed

lemma ext_message_table:
  "ew_tab (snd (Start ext_subscriber [Message rev rev (\<lambda>v. v)] ext_listed)) = ew_tab ext_listed"
  unfolding Start_message external_Reload
  by (auto simp: SubnetPolicer_ReloadSubnets_def reload_list_def SubnetList_Load_def
        port_simps Pg_Get_select ext_host_def ext_db_def ideal_db_def on_part_def ext_init_def ext_places_def
        split: prod.split option.split)

lemma ext_places_policer: "policer_at ext_places = ew_pol"
  by (simp add: ext_places_def)

theorem external_edit_two_steps_witness:
  "SubnetPolicer_Check (ew_pol (snd (Start ext_subscriber [Message rev rev (\<lambda>v. v)] ext_listed)))
     (v4InV6Prefix @ [10, 1, 2, 3]) = DecisionDeny \<and>
   SubnetPolicer_Check (ew_pol ext_listed) (v4InV6Prefix @ [10, 1, 2, 3]) =
     SubnetPolicer_Check (ew_pol ext_init) (v4InV6Prefix @ [10, 1, 2, 3])"
proof -
  let ?w3 = "snd (Start ext_subscriber [Message rev rev (\<lambda>v. v)] ext_listed)"
  have m: "Start ext_subscriber [Message rev rev (\<lambda>v. v)] ext_listed = (None, ?w3)"
    using ext_message by (simp add: prod_eq_iff)
  from external_edit_two_steps [OF lawful_ext_host ext_runs [OF rtranclp.rtrancl_refl] ext_edit rtranclp.rtrancl_refl
      fair_order_id(2) fair_order_id(2) fair_order_id(2) fair_order_id(2) m, of "v4InV6Prefix @ [10, 1, 2, 3]"]
  show ?thesis
    using witness_net_facts(2) ext_message_table
    by (simp add: ext_places_policer decide_def pg_stored_def del: Start.simps)
qed

text \<open>
  C22. One invalid text in the table brings the service down: the next message makes the subscriber
  return an error that is no cancellation, so \<open>run\<close> returns it and the process ends; and a process
  started on that table exits with code 1, whatever its configuration, until someone removes the
  text in the database itself.
\<close>

theorem external_poison:
  assumes "lawful_host h hp tab zset" "reads_succeed h" "\<And>err rs. g_Wait (Some err # rs) = Some err"
    and "ext_running h hp cfg srv sub w" "\<not> pg_valid tab w" "fair_order r1" "fair_order r2"
    and "fair_order r3" "fair_order r4" "LoadConfig ld path = Inr cfg'" "\<not> local_mode cfg'"
  shows "(\<exists>err. fst (Start sub (Message r1 r2 (\<lambda>v. v) # es) w) = Some err \<and> run_finish g_Wait (Some err # rs) = Some err) \<and>
    (\<exists>msg. fst (main ld h hp g_Wait serving [] path r3 r4 w) = Exit 1 msg)"
proof (rule conjI)
  from ext_runningD [OF assms(1,4)] obtain d c where
    d: "srv = external_server h hp cfg d c" "sub = external_subscriber h hp cfg d c" "policer_wired (policer_at hp w)"
    by blast
  obtain e w1 where reload: "RateLimiterService_ReloadSubnets (external_rate h hp cfg d c) r1 r2 w = (e, w1)"
    by fastforce
  from external_reload_effect [OF assms(1,6,7) d(3) reload] assms(5) obtain err where err: "e = Some err" by blast
  with reload have "\<not> errors_Is err (ContextErr Canceled)"
    by (auto simp: external_Reload dest: reload_not_canceled [OF assms(2)] split: prod.splits)
  then show "\<exists>err. fst (Start sub (Message r1 r2 (\<lambda>v. v) # es) w) = Some err \<and> run_finish g_Wait (Some err # rs) = Some err"
    unfolding d(2) Start_message reload err by (simp add: run_finish_def assms(3))
next
  obtain e w1 where log: "open_log h cfg' w = (e, w1)" by fastforce
  have "tab w1 = tab w"
    using quietD(1) [OF quiet_openingD(4) [OF lawful_hostD(10) [OF assms(1)]], of cfg' w] log by simp
  then have "\<not> pg_valid tab w1"
    using assms(5) by (simp add: pg_stored_cong [of tab w1 w])
  then have "fst (run_setup h hp cfg' r3 r4 w1) \<noteq> Inr q" for q
    using external_started [OF assms(1,11,8,9), of w1] by (metis prod.collapse)
  then obtain err w2 where fails: "run_setup h hp cfg' r3 r4 w1 = (Inl err, w2)"
    by (metis prod.collapse sum.exhaust)
  show "\<exists>msg. fst (main ld h hp g_Wait serving [] path r3 r4 w) = Exit 1 msg"
    by (cases e) (simp_all add: main_def run_def assms(10) log fails split: prod.split)
qed

text \<open>A loader whose file sets the work mode, and the waiting for the first error.\<close>

definition external_loader :: loader where
  "external_loader = plain_loader\<lparr>ReadInConfig := (\<lambda>_. Inr [''database.workmode'' \<mapsto> SStr ''external''])\<rparr>"

lemma external_loads: "\<exists>cfg. LoadConfig external_loader [] = Inr cfg \<and> \<not> local_mode cfg"
proof -
  let ?s = "default_settings(''database.workmode'' \<mapsto> SStr ''external'')"
  have "decode_Redis c ?s = Inr zero_Redis" for c
  proof (intro decode_Redis_absent ballI)
    fix k
    assume k: "k \<in> set redis_keys"
    then have "k \<noteq> ''database.workmode''"
      by (auto simp: redis_keys_def)
    with default_Redis [OF k] show "?s k = None" by simp
  qed
  then have "\<exists>cfg. decode_Config (projr (NewDecoder plain_loader)) ?s = Inr cfg \<and> \<not> local_mode cfg"
    by (simp add: decode_parts default_lookups plain_loader_def plain_duration_def local_mode_def)
  then show ?thesis
    by (simp add: LoadConfig_def read_and_decode_def external_loader_def plain_loader_def)
qed

definition first_error :: "go_error option list \<Rightarrow> go_error option" where
  "first_error rs = (case filter (\<lambda>r. r \<noteq> None) rs of [] \<Rightarrow> None | r # _ \<Rightarrow> r)"

theorem external_poison_witness:
  "\<exists>msg. fst (main external_loader ext_host ext_places first_error (\<lambda>srv sub w. ([], w)) [] [] rev rev
     (ext_init\<lparr>ew_tab := [(''10.0.0.0'', Whitelist)]\<rparr>)) = Exit 1 msg"
proof -
  let ?w = "ext_init\<lparr>ew_tab := [(''10.0.0.0'', Whitelist)]\<rparr>"
  have "ext_step ext_server ext_subscriber (policer_at ext_places) ext_init ?w"
    by (rule ext_step.Elsewhere) (simp add: ext_places_def)
  then have run: "ext_running ext_host ext_places ext_config ext_server ext_subscriber ?w"
    by (intro ext_runs r_into_rtranclp)
  obtain cfg where cfg: "LoadConfig external_loader [] = Inr cfg" "\<not> local_mode cfg"
    using external_loads by blast
  have reads: "reads_succeed ext_host"
    by (simp add: reads_succeed_def ext_host_def ext_db_def ideal_db_def)
  have wait: "first_error (Some err # rs) = Some err" for err rs
    by (simp add: first_error_def)
  have bad: "\<not> pg_valid ext_tab ?w"
    using witness_net_facts(4) by (simp add: pg_stored_def)
  note fair = fair_order_id(2)
  show ?thesis
    using external_poison [OF lawful_ext_host reads wait run bad fair fair fair fair cfg] by blast
qed

text \<open>
  A reset unblocks in external mode too: after \<open>ResetBucket\<close> was answered without error, the
  next attempt with the same login, password and address is not refused, if the lists leave it to
  the counters and every limit is positive (it may still fail, when Redis does).
\<close>

theorem external_reset_opens:
  assumes "lawful_host h hp tab zset" "ext_running h hp cfg srv sub w" "redis_inv zset w"
    and "serve srv (ResetBucket rq) w = (Done, w1)" "\<forall>lt \<in> limit_types. 0 < attempts (cfg_Limits cfg) lt"
    and "\<forall>lt \<in> limit_types. in_range (config_Window (cfg_Limits cfg)) (moment_of lt m)"
    and "reset_Login rq = req_Login req" "reset_Password rq = req_Password req"
      "ParseIP (reset_Ip rq) = Some ip" "ParseIP (req_Ip req) = Some ip"
    and "SubnetPolicer_Check (policer_at hp w) ip = DecisionContinue"
  shows "fst (serve srv (CheckAttempt m req) w1) \<noteq> Checked False"
proof -
  from ext_runningD [OF assms(1,2)] obtain d c where d: "srv = external_server h hp cfg d c" by blast
  let ?svc = "external_rate h hp cfg d c"
  note redis = redis_contract [OF lawful_hostD(2) [OF assms(1)], of c]
  have rl: "rateLimiter srv = Some (RateLimiterService_as_usecase ?svc)"
    by (simp add: d external_server_def NewServer_def)
  have "RateLimiterService_Reset ?svc (req_Login req) (req_Password req) ip w = (None, w1)"
    using assms(4,7-9) by (auto simp: serve.simps Server_ResetBucket_def rl port_simps split: prod.splits option.splits)
  then have cleared: "redis_inv zset w1 \<and>
      redis_used zset w1 (attempt_key lt (req_Login req) (req_Password req) ip) cut_off = 0" if "lt \<in> limit_types" for lt cut_off
    by (rule limiter_repo.service_reset_clears [OF redis external_counts_in assms(3) _ that])
  have "policer_at hp w1 = policer_at hp w"
    using external_serve_policer [OF assms(1), of cfg d c "ResetBucket rq" w] assms(4) by (simp add: d)
  then have "policer_Check (subnetPolicer ?svc) ip w1 = DecisionContinue"
    using assms(11) by (simp add: external_rate_def port_simps)
  moreover have "redis_inv zset w1"
    using cleared [of LoginLimit] by (simp add: limit_types_def)
  ultimately have "fst (RateLimiterService_Check ?svc m (req_Login req) (req_Password req) ip w1) \<noteq> Inr False"
    using limiter_repo.service_fresh [OF redis external_counts_in] assms(5,6) cleared by blast
  then show ?thesis
    by (auto simp: serve.simps Server_CheckAttempt_def rl port_simps assms(10) split: prod.splits sum.splits)
qed

theorem external_reset_opens_witness:
  "fst (serve ext_server
      (CheckAttempt \<lparr>at_login = \<lparr>now = 0, rnd = Inr 0\<rparr>, at_password = \<lparr>now = 0, rnd = Inr 0\<rparr>, at_ip = \<lparr>now = 0, rnd = Inr 0\<rparr>\<rparr>
        \<lparr>req_Login = ''u'', req_Password = ''p'', req_Ip = ''1.2.3.4''\<rparr>)
      (snd (serve ext_server (ResetBucket \<lparr>reset_Login = ''u'', reset_Password = ''p'', reset_Ip = ''1.2.3.4''\<rparr>) ext_init)))
    \<noteq> Checked False"
proof -
  have ip: "ParseIP ''1.2.3.4'' = Some (v4InV6Prefix @ [1, 2, 3, 4])"
    by (simp add: ParseIP_def ParseAddr_def parseIPv4_def digit_val_def Let_def)
  let ?reset = "ResetBucket \<lparr>reset_Login = ''u'', reset_Password = ''p'', reset_Ip = ''1.2.3.4''\<rparr>"
  have "fst (serve ext_server ?reset ext_init) = Done"
    by (simp add: serve.simps Server_ResetBucket_def external_server_def NewServer_def port_simps ip
        RateLimiterService_Reset_def external_rate_def LimitChecker_Reset_def NewLimitChecker_def NewLimiter_def
        Limiter_Reset_def BucketsRepo_Reset_def NewBucketsRepo_def ext_host_def ext_rdb_def ideal_client_def
        on_part_def Let_def split: prod.split)
  then have answered: "serve ext_server ?reset ext_init = (Done, snd (serve ext_server ?reset ext_init))"
    by (simp add: prod_eq_iff)
  have inv: "redis_inv ew_z ext_init"
    by (simp add: redis_inv_def ext_init_def)
  have policy: "SubnetPolicer_Check (policer_at ext_places ext_init) ip = DecisionContinue" for ip
    by (simp add: ext_places_def ext_init_def SubnetPolicer_Check_def list_holds_def NewSubnetPolicer_def
        NewSubnetList_def SubnetList_Contains_def)
  show ?thesis
    by (rule external_reset_opens [OF lawful_ext_host ext_runs [OF rtranclp.rtrancl_refl] inv answered _ _ _ _ _ _ policy])
      (simp_all add: limit_types_def attempts_def sample_config_def in_range_def moment_of_def ip)
qed

end
