(* ===== verification/Buckets_Concurrent.thy ===== *)
theory Buckets_Concurrent
  imports Memory_Buckets
begin

text \<open>
  \<open>internal/storage/memory/bucketsdb.go\<close> under concurrency: every statement that takes or releases a
  lock, or reads or writes shared memory, is a step of its own, and the goroutines, one call each,
  are interleaved by an arbitrary schedule. The map holds pointers to timelines that live in a heap.
  The theory proves that the locking makes the calls race free and that they behave as the atomic
  methods of \<open>Memory_Buckets\<close> do in the order of their last step on the timeline.
\<close>

section \<open>Goroutines and shared state\<close>

datatype call = CallAllow string int int | CallReset string

fun key_of :: "call \<Rightarrow> string" where
  "key_of (CallAllow k l win) = k"
| "key_of (CallReset k) = k"

text \<open>
  Where a goroutine is, with its local variables: the sampled time (not used by a reset) and the
  timeline pointer. A constructor says what the next step does.
\<close>

datatype pc =
    Ready
  | RLocking int
  | Reading int
  | RUnlocking int "nat option"
  | WLocking int
  | Checking int
  | Inserting int
  | WUnlocking int nat
  | TLocking int nat
  | Working int nat
  | Deciding int nat
  | TUnlocking nat bool
  | Returned bool

record cstate =
  c_data :: "string \<rightharpoonup> nat"
  c_cells :: "nat \<Rightarrow> int list"
  c_next :: nat
  c_readers :: "nat set"
  c_writer :: "nat option"
  c_tl :: "nat \<Rightarrow> nat option"
  c_pc :: "nat \<Rightarrow> pc"
  c_hist :: "(nat \<times> bucket_event \<times> bool) list"

text \<open>
  \<open>c_hist\<close> is no state of the program: it records each call, as the event it amounts to and the answer
  it gets, at the step from which that answer is fixed.
\<close>

definition go_to :: "nat \<Rightarrow> pc \<Rightarrow> cstate \<Rightarrow> cstate" where
  "go_to t p st = st\<lparr>c_pc := (c_pc st)(t := p)\<rparr>"

definition record_call :: "nat \<Rightarrow> bucket_event \<Rightarrow> bool \<Rightarrow> cstate \<Rightarrow> cstate" where
  "record_call t e b st = st\<lparr>c_hist := c_hist st @ [(t, e, b)]\<rparr>"

abbreviation allow_event :: "int \<Rightarrow> string \<Rightarrow> int \<Rightarrow> int \<Rightarrow> bucket_event" where
  "allow_event n k l win \<equiv> AllowAt \<lparr>now = n, rnd = Inr 0\<rparr> k l win"

text \<open>
  One step of goroutine \<open>t\<close>, the clock showing \<open>clk\<close>; \<open>None\<close> when a lock is not free or the call has
  returned. A reader gets the \<open>RWMutex\<close> whenever no writer holds it; Go also makes it wait for a writer
  that waits, so these runs include Go's, and no goroutine takes the lock for reading twice.
\<close>

definition cstep :: "(nat \<Rightarrow> call) \<Rightarrow> nat \<Rightarrow> int \<Rightarrow> cstate \<Rightarrow> cstate option" where
  "cstep calls t clk st =
     (case c_pc st t of
        Ready \<Rightarrow>
          (case calls t of
             CallAllow k l win \<Rightarrow>
               if l \<le> 0 then Some (record_call t (allow_event clk k l win) False (go_to t (Returned False) st))
               else if win \<le> 0 then Some (record_call t (allow_event clk k l win) True (go_to t (Returned True) st))
               else Some (go_to t (RLocking clk) st)
           | CallReset k \<Rightarrow> Some (go_to t (RLocking clk) st))
      | RLocking n \<Rightarrow>
          (if c_writer st = None then Some (go_to t (Reading n) (st\<lparr>c_readers := insert t (c_readers st)\<rparr>)) else None)
      | Reading n \<Rightarrow>
          (let p = c_data st (key_of (calls t));
               st1 = go_to t (RUnlocking n p) st
           in case calls t of
                CallAllow k l win \<Rightarrow> Some st1
              | CallReset k \<Rightarrow> if p = None then Some (record_call t (ResetKey k) True st1) else Some st1)
      | RUnlocking n p \<Rightarrow>
          (let st1 = st\<lparr>c_readers := c_readers st - {t}\<rparr>
           in case p of
                Some a \<Rightarrow> Some (go_to t (TLocking n a) st1)
              | None \<Rightarrow>
                  (case calls t of
                     CallAllow k l win \<Rightarrow> Some (go_to t (WLocking n) st1)
                   | CallReset k \<Rightarrow> Some (go_to t (Returned True) st1)))
      | WLocking n \<Rightarrow>
          (if c_writer st = None \<and> c_readers st = {} then Some (go_to t (Checking n) (st\<lparr>c_writer := Some t\<rparr>)) else None)
      | Checking n \<Rightarrow>
          (case c_data st (key_of (calls t)) of
             None \<Rightarrow> Some (go_to t (Inserting n) st)
           | Some a \<Rightarrow> Some (go_to t (WUnlocking n a) st))
      | Inserting n \<Rightarrow>
          (let a = c_next st
           in Some (go_to t (WUnlocking n a)
                (st\<lparr>c_data := (c_data st)(key_of (calls t) \<mapsto> a), c_cells := (c_cells st)(a := []), c_next := Suc a\<rparr>)))
      | WUnlocking n a \<Rightarrow> Some (go_to t (TLocking n a) (st\<lparr>c_writer := None\<rparr>))
      | TLocking n a \<Rightarrow>
          (if c_tl st a = None then Some (go_to t (Working n a) (st\<lparr>c_tl := (c_tl st)(a := Some t)\<rparr>)) else None)
      | Working n a \<Rightarrow>
          (case calls t of
             CallAllow k l win \<Rightarrow>
               Some (go_to t (Deciding n a)
                 (st\<lparr>c_cells := (c_cells st)(a := evict (UnixMilli (n - win)) (c_cells st a))\<rparr>))
           | CallReset k \<Rightarrow>
               Some (record_call t (ResetKey k) True
                 (go_to t (TUnlocking a True) (st\<lparr>c_cells := (c_cells st)(a := [])\<rparr>))))
      | Deciding n a \<Rightarrow>
          (case calls t of
             CallAllow k l win \<Rightarrow>
               if int (length (c_cells st a)) \<ge> l
               then Some (record_call t (allow_event n k l win) False (go_to t (TUnlocking a False) st))
               else Some (record_call t (allow_event n k l win) True (go_to t (TUnlocking a True)
                 (st\<lparr>c_cells := (c_cells st)(a := c_cells st a @ [UnixMilli n])\<rparr>)))
           | CallReset k \<Rightarrow> None)
      | TUnlocking a b \<Rightarrow> Some (go_to t (Returned b) (st\<lparr>c_tl := (c_tl st)(a := None)\<rparr>))
      | Returned b \<Rightarrow> None)"

definition cinit :: cstate where
  "cinit = \<lparr>c_data = Map.empty, c_cells = (\<lambda>_. []), c_next = 0, c_readers = {}, c_writer = None,
     c_tl = (\<lambda>_. None), c_pc = (\<lambda>_. Ready), c_hist = []\<rparr>"

inductive creach :: "(nat \<Rightarrow> call) \<Rightarrow> cstate \<Rightarrow> bool" for calls where
  creach_init: "creach calls cinit"
| creach_step: "creach calls st \<Longrightarrow> cstep calls t clk st = Some st' \<Longrightarrow> creach calls st'"

text \<open>A schedule is a list of goroutines to move, each with the clock it sees.\<close>

fun crun :: "(nat \<Rightarrow> call) \<Rightarrow> (nat \<times> int) list \<Rightarrow> cstate \<Rightarrow> cstate option" where
  "crun calls [] st = Some st"
| "crun calls ((t, clk) # sched) st =
     (case cstep calls t clk st of None \<Rightarrow> None | Some st1 \<Rightarrow> crun calls sched st1)"

lemma crun_reach: "creach calls st \<Longrightarrow> crun calls sched st = Some st' \<Longrightarrow> creach calls st'"
  by (induction calls sched st rule: crun.induct) (auto split: option.splits intro: creach_step)

section \<open>Locks\<close>

fun holds_read :: "pc \<Rightarrow> bool" where
  "holds_read (Reading n) = True"
| "holds_read (RUnlocking n p) = True"
| "holds_read p = False"

fun holds_write :: "pc \<Rightarrow> bool" where
  "holds_write (Checking n) = True"
| "holds_write (Inserting n) = True"
| "holds_write (WUnlocking n a) = True"
| "holds_write p = False"

fun holds_tl :: "pc \<Rightarrow> nat option" where
  "holds_tl (Working n a) = Some a"
| "holds_tl (Deciding n a) = Some a"
| "holds_tl (TUnlocking a b) = Some a"
| "holds_tl p = None"

text \<open>The three locks are held by exactly the goroutines that are between locking and unlocking.\<close>

definition locks_ok :: "cstate \<Rightarrow> bool" where
  "locks_ok st \<longleftrightarrow>
     (\<forall>t. t \<in> c_readers st \<longleftrightarrow> holds_read (c_pc st t)) \<and>
     (\<forall>t. c_writer st = Some t \<longleftrightarrow> holds_write (c_pc st t)) \<and>
     (c_writer st \<noteq> None \<longrightarrow> c_readers st = {}) \<and>
     (\<forall>t a. c_tl st a = Some t \<longleftrightarrow> holds_tl (c_pc st t) = Some a)"

lemma shared_simps [simp]:
  "c_data (go_to t p st) = c_data st" "c_cells (go_to t p st) = c_cells st" "c_next (go_to t p st) = c_next st"
  "c_readers (go_to t p st) = c_readers st" "c_writer (go_to t p st) = c_writer st" "c_tl (go_to t p st) = c_tl st"
  "c_hist (go_to t p st) = c_hist st" "c_pc (go_to t p st) = (c_pc st)(t := p)"
  "c_data (record_call t e b st) = c_data st" "c_cells (record_call t e b st) = c_cells st"
  "c_next (record_call t e b st) = c_next st" "c_readers (record_call t e b st) = c_readers st"
  "c_writer (record_call t e b st) = c_writer st" "c_tl (record_call t e b st) = c_tl st"
  "c_hist (record_call t e b st) = c_hist st @ [(t, e, b)]" "c_pc (record_call t e b st) = c_pc st"
  by (simp_all add: go_to_def record_call_def)

text \<open>Where a step can lead, and what it does to the locks.\<close>

lemma cstep_locks:
  assumes "cstep calls t clk st = Some st'"
  shows "\<exists>p. c_pc st' = (c_pc st)(t := p) \<and>
    (case c_pc st t of
       RLocking n \<Rightarrow> p = Reading n \<and> c_writer st = None \<and> c_readers st' = insert t (c_readers st)
     | RUnlocking n q \<Rightarrow> \<not> holds_read p \<and> \<not> holds_write p \<and> holds_tl p = None \<and> c_readers st' = c_readers st - {t}
     | x \<Rightarrow> holds_read p = holds_read x \<and> c_readers st' = c_readers st) \<and>
    (case c_pc st t of
       WLocking n \<Rightarrow> p = Checking n \<and> c_writer st = None \<and> c_readers st = {} \<and> c_writer st' = Some t
     | WUnlocking n a \<Rightarrow> p = TLocking n a \<and> c_writer st' = None
     | x \<Rightarrow> holds_write p = holds_write x \<and> c_writer st' = c_writer st) \<and>
    (case c_pc st t of
       TLocking n a \<Rightarrow> p = Working n a \<and> c_tl st a = None \<and> c_tl st' = (c_tl st)(a := Some t)
     | TUnlocking a b \<Rightarrow> p = Returned b \<and> c_tl st' = (c_tl st)(a := None)
     | x \<Rightarrow> holds_tl p = holds_tl x \<and> c_tl st' = c_tl st)"
  using assms
  by (cases "c_pc st t") (auto simp: cstep_def Let_def split: call.splits if_splits option.splits)

lemma locks_ok_step:
  assumes "locks_ok st" "cstep calls t clk st = Some st'"
  shows "locks_ok st'"
proof -
  from cstep_locks [OF assms(2)] obtain p where
    pc: "c_pc st' = (c_pc st)(t := p)" and
    r: "case c_pc st t of
       RLocking n \<Rightarrow> p = Reading n \<and> c_writer st = None \<and> c_readers st' = insert t (c_readers st)
     | RUnlocking n q \<Rightarrow> \<not> holds_read p \<and> \<not> holds_write p \<and> holds_tl p = None \<and> c_readers st' = c_readers st - {t}
     | x \<Rightarrow> holds_read p = holds_read x \<and> c_readers st' = c_readers st" and
    w: "case c_pc st t of
       WLocking n \<Rightarrow> p = Checking n \<and> c_writer st = None \<and> c_readers st = {} \<and> c_writer st' = Some t
     | WUnlocking n a \<Rightarrow> p = TLocking n a \<and> c_writer st' = None
     | x \<Rightarrow> holds_write p = holds_write x \<and> c_writer st' = c_writer st" and
    l: "case c_pc st t of
       TLocking n a \<Rightarrow> p = Working n a \<and> c_tl st a = None \<and> c_tl st' = (c_tl st)(a := Some t)
     | TUnlocking a b \<Rightarrow> p = Returned b \<and> c_tl st' = (c_tl st)(a := None)
     | x \<Rightarrow> holds_tl p = holds_tl x \<and> c_tl st' = c_tl st" by blast
  from assms(1) have I: "\<And>u. u \<in> c_readers st \<longleftrightarrow> holds_read (c_pc st u)"
    "\<And>u. c_writer st = Some u \<longleftrightarrow> holds_write (c_pc st u)"
    "c_writer st \<noteq> None \<Longrightarrow> c_readers st = {}"
    "\<And>u a. c_tl st a = Some u \<longleftrightarrow> holds_tl (c_pc st u) = Some a"
    by (auto simp: locks_ok_def)
  have "u \<in> c_readers st' \<longleftrightarrow> holds_read (c_pc st' u)" for u
    using r I(1) [of u] by (cases "c_pc st t") (auto simp: pc)
  moreover have "c_writer st' = Some u \<longleftrightarrow> holds_write (c_pc st' u)" for u
    using w I(2) [of u] I(2) [of t] by (cases "c_pc st t") (auto simp: pc)
  moreover have "c_writer st' \<noteq> None \<Longrightarrow> c_readers st' = {}"
    using r w I(3) I(2) [of t] by (cases "c_pc st t") auto
  moreover have "c_tl st' a = Some u \<longleftrightarrow> holds_tl (c_pc st' u) = Some a" for u a
    using l I(4) [of a u] I(4) [of a t] by (cases "c_pc st t") (auto simp: pc)
  ultimately show ?thesis by (simp add: locks_ok_def)
qed

lemma locks_ok_reach: "creach calls st \<Longrightarrow> locks_ok st"
proof (induction rule: creach.induct)
  case creach_init
  show ?case by (simp add: locks_ok_def cinit_def)
qed (rule locks_ok_step)

section \<open>The map and its pointers\<close>

fun points :: "pc \<Rightarrow> nat option" where
  "points (RUnlocking n q) = q"
| "points (WUnlocking n a) = Some a"
| "points (TLocking n a) = Some a"
| "points (Working n a) = Some a"
| "points (Deciding n a) = Some a"
| "points (TUnlocking a b) = Some a"
| "points p = None"

fun inserting :: "pc \<Rightarrow> bool" where
  "inserting (Inserting n) = True"
| "inserting p = False"

text \<open>The places a call can be at: only attempts with a positive limit and window get to a timeline.\<close>

fun at_place :: "call \<Rightarrow> pc \<Rightarrow> bool" where
  "at_place c Ready = True"
| "at_place c (Returned b) = True"
| "at_place (CallAllow k l win) p = (0 < l \<and> 0 < win)"
| "at_place (CallReset k) (WLocking n) = False"
| "at_place (CallReset k) (Checking n) = False"
| "at_place (CallReset k) (Inserting n) = False"
| "at_place (CallReset k) (WUnlocking n a) = False"
| "at_place (CallReset k) (Deciding n a) = False"
| "at_place (CallReset k) p = True"

definition data_ok :: "(nat \<Rightarrow> call) \<Rightarrow> cstate \<Rightarrow> bool" where
  "data_ok calls st \<longleftrightarrow>
     (\<forall>k a. c_data st k = Some a \<longrightarrow> a < c_next st) \<and>
     (\<forall>k k' a. c_data st k = Some a \<longrightarrow> c_data st k' = Some a \<longrightarrow> k = k') \<and>
     (\<forall>t a. points (c_pc st t) = Some a \<longrightarrow> c_data st (key_of (calls t)) = Some a) \<and>
     (\<forall>t. inserting (c_pc st t) \<longrightarrow> c_data st (key_of (calls t)) = None) \<and>
     (\<forall>t. at_place (calls t) (c_pc st t))"

lemma data_okD:
  assumes "data_ok calls st"
  shows "c_data st k = Some a \<Longrightarrow> a < c_next st" "c_data st k = Some a \<Longrightarrow> c_data st k' = Some a \<Longrightarrow> k = k'"
    "points (c_pc st t) = Some a \<Longrightarrow> c_data st (key_of (calls t)) = Some a"
    "inserting (c_pc st t) \<Longrightarrow> c_data st (key_of (calls t)) = None" "at_place (calls t) (c_pc st t)"
  using assms unfolding data_ok_def by blast+

text \<open>What a step does to the map.\<close>

lemma cstep_data:
  assumes "cstep calls t clk st = Some st'"
  shows "\<exists>p. c_pc st' = (c_pc st)(t := p) \<and> (at_place (calls t) (c_pc st t) \<longrightarrow> at_place (calls t) p) \<and>
    (case c_pc st t of
       Inserting n \<Rightarrow> p = WUnlocking n (c_next st) \<and>
         c_data st' = (c_data st)(key_of (calls t) \<mapsto> c_next st) \<and> c_next st' = Suc (c_next st)
     | x \<Rightarrow> c_data st' = c_data st \<and> c_next st' = c_next st \<and>
         (inserting p \<longrightarrow> c_data st (key_of (calls t)) = None) \<and>
         (\<forall>a. points p = Some a \<longrightarrow> points x = Some a \<or> c_data st (key_of (calls t)) = Some a))"
  using assms
  by (cases "c_pc st t"; cases "calls t") (auto simp: cstep_def Let_def split: if_splits option.splits)

lemma inserting_write: "inserting p \<Longrightarrow> holds_write p"
  by (cases p) auto

lemma data_ok_step:
  assumes "data_ok calls st" "locks_ok st" "cstep calls t clk st = Some st'"
  shows "data_ok calls st'"
proof -
  note D = data_okD [OF assms(1)]
  from cstep_data [OF assms(3)] obtain p where
    pc: "c_pc st' = (c_pc st)(t := p)" "at_place (calls t) p" and
    d: "case c_pc st t of
       Inserting n \<Rightarrow> p = WUnlocking n (c_next st) \<and>
         c_data st' = (c_data st)(key_of (calls t) \<mapsto> c_next st) \<and> c_next st' = Suc (c_next st)
     | x \<Rightarrow> c_data st' = c_data st \<and> c_next st' = c_next st \<and>
         (inserting p \<longrightarrow> c_data st (key_of (calls t)) = None) \<and>
         (\<forall>a. points p = Some a \<longrightarrow> points x = Some a \<or> c_data st (key_of (calls t)) = Some a)"
    using D(5) [of t] by blast
  have place: "at_place (calls u) (c_pc st' u)" for u
    using D(5) [of u] pc by simp
  show ?thesis
  proof (cases "inserting (c_pc st t)")
    case True
    then obtain n where n: "c_pc st t = Inserting n" by (cases "c_pc st t") auto
    with d have ins: "p = WUnlocking n (c_next st)" "c_data st' = (c_data st)(key_of (calls t) \<mapsto> c_next st)"
      "c_next st' = Suc (c_next st)" by simp_all
    have fresh: "c_data st (key_of (calls t)) = None"
      using D(4) [OF True] .
    have alone: "\<not> inserting (c_pc st u)" if "u \<noteq> t" for u
      using assms(2) inserting_write [OF True] inserting_write [of "c_pc st u"] that
      unfolding locks_ok_def by (metis option.inject)
    have points': "c_data st' (key_of (calls u)) = Some a" if "points (c_pc st' u) = Some a" for u a
      using that D(3) [of u a] fresh by (cases "u = t") (auto simp: pc ins)
    have "a < c_next st'" if "c_data st' k = Some a" for k a
      using that D(1) [of k a] by (auto simp: ins split: if_splits)
    moreover have "k = k'" if "c_data st' k = Some a" "c_data st' k' = Some a" for k k' a
      using that D(2) [of k a k'] D(1) [of k a] D(1) [of k' a] by (auto simp: ins split: if_splits)
    moreover have "c_data st' (key_of (calls u)) = None" if "inserting (c_pc st' u)" for u
    proof (cases "u = t")
      case False
      with that alone show ?thesis by (simp add: pc)
    qed (use that in \<open>simp add: pc ins\<close>)
    ultimately show ?thesis
      using points' place unfolding data_ok_def by blast
  next
    case False
    then have same: "c_data st' = c_data st" "c_next st' = c_next st"
      "inserting p \<Longrightarrow> c_data st (key_of (calls t)) = None"
      "points p = Some a \<Longrightarrow> points (c_pc st t) = Some a \<or> c_data st (key_of (calls t)) = Some a" for a
      using d by (cases "c_pc st t"; simp)+
    have "c_data st' (key_of (calls u)) = Some a" if "points (c_pc st' u) = Some a" for u a
      using that D(3) [of u a] same(4) [of a] by (cases "u = t") (auto simp: pc same(1))
    moreover have "c_data st' (key_of (calls u)) = None" if "inserting (c_pc st' u)" for u
      using that D(4) [of u] same(3) by (cases "u = t") (auto simp: pc same(1))
    ultimately show ?thesis
      using D(1,2) place unfolding data_ok_def same(1,2) by blast
  qed
qed

lemma data_ok_reach: "creach calls st \<Longrightarrow> data_ok calls st"
proof (induction rule: creach.induct)
  case creach_init
  show ?case by (simp add: data_ok_def cinit_def)
next
  case (creach_step st t clk st')
  then show ?case using data_ok_step locks_ok_reach by blast
qed

section \<open>The recorded history\<close>

text \<open>The answer a call is bound to give, once it is fixed, and the event a call amounts to.\<close>

fun answer_of :: "call \<Rightarrow> pc \<Rightarrow> bool option" where
  "answer_of c (Returned b) = Some b"
| "answer_of c (TUnlocking a b) = Some b"
| "answer_of (CallReset k) (RUnlocking n None) = Some True"
| "answer_of c p = None"

fun event_of :: "call \<Rightarrow> bucket_event \<Rightarrow> bool" where
  "event_of (CallAllow k l win) (AllowAt m k' l' win') \<longleftrightarrow> k' = k \<and> l' = l \<and> win' = win"
| "event_of (CallReset k) (ResetKey k') \<longleftrightarrow> k' = k"
| "event_of c e \<longleftrightarrow> False"

definition hist_ok :: "(nat \<Rightarrow> call) \<Rightarrow> cstate \<Rightarrow> bool" where
  "hist_ok calls st \<longleftrightarrow>
     distinct (map fst (c_hist st)) \<and> (\<forall>(t, e, b) \<in> set (c_hist st). event_of (calls t) e) \<and>
     (\<forall>t b. answer_of (calls t) (c_pc st t) = Some b \<longleftrightarrow> (\<exists>e. (t, e, b) \<in> set (c_hist st)))"

lemma answer_of_unlocking: "c = CallAllow k l win \<Longrightarrow> answer_of c (RUnlocking n q) = None"
  "answer_of c (RUnlocking n (Some a)) = None"
  by (cases q; simp) (cases c; simp)

lemma upd_eq_iff: "f(t := x) = f(t := y) \<longleftrightarrow> x = y"
  by (metis fun_upd_same)

lemma cstep_hist:
  assumes "cstep calls t clk st = Some st'"
  shows "\<exists>p. c_pc st' = (c_pc st)(t := p) \<and>
    ((c_hist st' = c_hist st \<and> answer_of (calls t) p = answer_of (calls t) (c_pc st t)) \<or>
     (\<exists>e b. c_hist st' = c_hist st @ [(t, e, b)] \<and> event_of (calls t) e \<and>
        answer_of (calls t) (c_pc st t) = None \<and> answer_of (calls t) p = Some b))"
  using assms
  by (cases "c_pc st t"; cases "calls t")
    (auto simp: cstep_def Let_def answer_of_unlocking upd_eq_iff split: if_splits option.splits)

lemma hist_ok_step:
  assumes "hist_ok calls st" "cstep calls t clk st = Some st'"
  shows "hist_ok calls st'"
proof -
  from assms(1) have H: "distinct (map fst (c_hist st))"
    "\<And>u e b. (u, e, b) \<in> set (c_hist st) \<Longrightarrow> event_of (calls u) e"
    "\<And>u b. answer_of (calls u) (c_pc st u) = Some b \<longleftrightarrow> (\<exists>e. (u, e, b) \<in> set (c_hist st))"
    by (auto simp: hist_ok_def)
  from cstep_hist [OF assms(2)] obtain p where pc: "c_pc st' = (c_pc st)(t := p)" and
    "(c_hist st' = c_hist st \<and> answer_of (calls t) p = answer_of (calls t) (c_pc st t)) \<or>
     (\<exists>e b. c_hist st' = c_hist st @ [(t, e, b)] \<and> event_of (calls t) e \<and>
        answer_of (calls t) (c_pc st t) = None \<and> answer_of (calls t) p = Some b)" by blast
  then show ?thesis
  proof (elim disjE exE conjE)
    assume same: "c_hist st' = c_hist st" "answer_of (calls t) p = answer_of (calls t) (c_pc st t)"
    have "answer_of (calls u) (c_pc st' u) = answer_of (calls u) (c_pc st u)" for u
      by (simp add: pc same(2))
    with H show ?thesis
      by (auto simp: hist_ok_def same(1))
  next
    fix e b
    assume new: "c_hist st' = c_hist st @ [(t, e, b)]" "event_of (calls t) e"
      "answer_of (calls t) (c_pc st t) = None" "answer_of (calls t) p = Some b"
    have absent: "t \<notin> fst ` set (c_hist st)"
      using H(3) [of t] new(3) by force
    have "answer_of (calls u) (c_pc st' u) = Some b' \<longleftrightarrow> (\<exists>e'. (u, e', b') \<in> set (c_hist st'))" for u b'
      using H(3) [of u b'] absent new(4) by (cases "u = t") (force simp: pc new(1))+
    with H(1,2) absent new(2) show ?thesis
      by (auto simp: hist_ok_def new(1))
  qed
qed

lemma hist_ok_reach: "creach calls st \<Longrightarrow> hist_ok calls st"
proof (induction rule: creach.induct)
  case creach_init
  show ?case by (simp add: hist_ok_def cinit_def)
qed (rule hist_ok_step)

section \<open>The timelines follow the history\<close>

abbreviation events_of :: "(nat \<times> bucket_event \<times> bool) list \<Rightarrow> bucket_event list" where
  "events_of h \<equiv> map (\<lambda>(t, e, b). e) h"

definition seq_db :: "cstate \<Rightarrow> BucketsDB" where
  "seq_db st = bucket_run (events_of (c_hist st)) NewBucketsDB"

fun event_answer :: "bucket_event \<Rightarrow> BucketsDB \<Rightarrow> bool" where
  "event_answer (AllowAt m k l win) db \<longleftrightarrow> fst (BucketsDB_Allow m k l win db) = Inr True"
| "event_answer (ResetKey k) db \<longleftrightarrow> fst (BucketsDB_Reset k db) = None"

text \<open>The answers the atomic methods give to a sequence of events.\<close>

fun seq_answers :: "bucket_event list \<Rightarrow> BucketsDB \<Rightarrow> bool list" where
  "seq_answers [] db = []"
| "seq_answers (e # es) db = event_answer e db # seq_answers es (bucket_step e db)"

lemma bucket_run_snoc: "bucket_run (es @ [e]) db = bucket_step e (bucket_run es db)"
  by (induction es arbitrary: db) simp_all

lemma seq_answers_snoc: "seq_answers (es @ [e]) db = seq_answers es db @ [event_answer e (bucket_run es db)]"
  by (induction es arbitrary: db) simp_all

definition answers_ok :: "cstate \<Rightarrow> bool" where
  "answers_ok st \<longleftrightarrow> map (\<lambda>(t, e, b). b) (c_hist st) = seq_answers (events_of (c_hist st)) NewBucketsDB"

text \<open>Between its two steps under the mutex an attempt has dropped the expired stamps already.\<close>

definition pending :: "(nat \<Rightarrow> call) \<Rightarrow> nat option \<Rightarrow> (nat \<Rightarrow> pc) \<Rightarrow> int list \<Rightarrow> int list" where
  "pending calls holder pcs xs =
     (case holder of
        None \<Rightarrow> xs
      | Some u \<Rightarrow>
          (case pcs u of
             Deciding n a \<Rightarrow>
               (case calls u of CallAllow k l win \<Rightarrow> evict (UnixMilli (n - win)) xs | CallReset k \<Rightarrow> xs)
           | _ \<Rightarrow> xs))"

definition mem_ok :: "(nat \<Rightarrow> call) \<Rightarrow> cstate \<Rightarrow> bool" where
  "mem_ok calls st \<longleftrightarrow>
     (\<forall>k. case c_data st k of
        None \<Rightarrow> stamps (seq_db st) k = []
      | Some a \<Rightarrow> c_cells st a = pending calls (c_tl st a) (c_pc st) (stamps (seq_db st) k))"

fun deciding :: "pc \<Rightarrow> bool" where
  "deciding (Deciding n a) = True"
| "deciding p = False"

lemma pending_none [simp]: "pending calls None pcs xs = xs"
  by (simp add: pending_def)

lemma pending_plain: "\<not> deciding (pcs u) \<Longrightarrow> pending calls (Some u) pcs xs = xs"
  by (cases "pcs u") (simp_all add: pending_def)

lemma pending_other: "h \<noteq> Some t \<Longrightarrow> pending calls h (pcs(t := p)) xs = pending calls h pcs xs"
  by (cases h) (simp_all add: pending_def)

lemma pending_keep:
  assumes "\<not> deciding (pcs t)" "\<not> deciding p"
    and "h' = h \<or> {h, h'} = {None, Some t}"
  shows "pending calls h' (pcs(t := p)) xs = pending calls h pcs xs"
proof -
  have plain: "pending calls (Some t) (pcs(t := p)) xs = xs" "pending calls (Some t) pcs xs = xs"
    using assms(1,2) by (simp_all add: pending_plain)
  show ?thesis
    using assms(3) plain pending_other [of h t calls pcs p xs]
    by (cases "h = Some t") (auto simp: doubleton_eq_iff)
qed

lemma seq_db_record:
  assumes "c_hist st' = c_hist st @ [(t, e, b)]"
  shows "seq_db st' = bucket_step e (seq_db st)"
  by (simp add: seq_db_def assms bucket_run_snoc)

lemma seq_db_same: "c_hist st' = c_hist st \<Longrightarrow> seq_db st' = seq_db st"
  by (simp add: seq_db_def)

lemma seq_db_simps [simp]:
  "seq_db (go_to t p st) = seq_db st" "seq_db (st\<lparr>c_cells := cs\<rparr>) = seq_db st"
  by (simp_all add: seq_db_def)

text \<open>A step that leaves memory and the stamps of the history as they are.\<close>

lemma mem_ok_quiet:
  assumes "mem_ok calls st" "c_pc st' = (c_pc st)(t := p)" "\<not> deciding (c_pc st t)" "\<not> deciding p"
    and "c_data st' = c_data st" "c_cells st' = c_cells st"
    and "\<And>a. c_tl st' a = c_tl st a \<or> {c_tl st a, c_tl st' a} = {None, Some t}"
    and "\<And>k. stamps (seq_db st') k = stamps (seq_db st) k"
  shows "mem_ok calls st'"
proof -
  have pend: "pending calls (c_tl st' a) (c_pc st') xs = pending calls (c_tl st a) (c_pc st) xs" for a xs
    unfolding assms(2) by (rule pending_keep [where pcs = "c_pc st", OF assms(3,4)]) (use assms(7) [of a] in auto)
  show ?thesis
    using assms(1) unfolding mem_ok_def assms(5,6,8) pend by blast
qed

text \<open>A step on the timeline of the goroutine's own key, whose mutex it holds.\<close>

lemma mem_ok_cell:
  assumes "mem_ok calls st" "data_ok calls st" "locks_ok st" "holds_tl (c_pc st t) = Some a"
    and "c_pc st' = (c_pc st)(t := p)" "c_data st' = c_data st" "c_cells st' = (c_cells st)(a := xs)"
    and "c_tl st' = c_tl st" "\<And>k. k \<noteq> key_of (calls t) \<Longrightarrow> stamps (seq_db st') k = stamps (seq_db st) k"
    and "xs = pending calls (Some t) ((c_pc st)(t := p)) (stamps (seq_db st') (key_of (calls t)))"
  shows "mem_ok calls st'"
  unfolding mem_ok_def
proof
  fix k
  have tl: "c_tl st a = Some t"
    using assms(3,4) by (simp add: locks_ok_def)
  have own: "c_data st (key_of (calls t)) = Some a"
    using assms(4) by (intro data_okD(3) [OF assms(2)]) (cases "c_pc st t"; simp)
  have before: "case c_data st k of None \<Rightarrow> stamps (seq_db st) k = []
      | Some a \<Rightarrow> c_cells st a = pending calls (c_tl st a) (c_pc st) (stamps (seq_db st) k)"
    using assms(1) by (simp add: mem_ok_def)
  show "case c_data st' k of None \<Rightarrow> stamps (seq_db st') k = []
      | Some a \<Rightarrow> c_cells st' a = pending calls (c_tl st' a) (c_pc st') (stamps (seq_db st') k)"
  proof (cases "k = key_of (calls t)")
    case True
    then show ?thesis using own tl assms(5-8,10) by simp
  next
    case False
    have "a' \<noteq> a" "c_tl st a' \<noteq> Some t" if "c_data st k = Some a'" for a'
      using that False own data_okD(2) [OF assms(2), of k a "key_of (calls t)"] assms(3,4)
      by (auto simp: locks_ok_def)
    with before False show ?thesis
      by (auto simp: assms(5-9) pending_other split: option.splits)
  qed
qed

lemma pending_own:
  "\<not> deciding p \<Longrightarrow> pending calls (Some t) (pcs(t := p)) xs = xs"
  "calls t = CallAllow k l win \<Longrightarrow> pending calls (Some t) (pcs(t := Deciding n a)) xs = evict (UnixMilli (n - win)) xs"
  by (simp_all add: pending_plain) (simp add: pending_def)

lemma at_Working:
  assumes "mem_ok calls st" "data_ok calls st" "locks_ok st" "holds_tl (c_pc st t) = Some a"
  shows "c_cells st a = pending calls (Some t) (c_pc st) (stamps (seq_db st) (key_of (calls t)))"
proof -
  have "c_data st (key_of (calls t)) = Some a"
    using assms(4) by (intro data_okD(3) [OF assms(2)]) (cases "c_pc st t"; simp)
  moreover have "c_tl st a = Some t"
    using assms(3,4) by (simp add: locks_ok_def)
  ultimately show ?thesis
    using assms(1) by (auto simp: mem_ok_def dest!: spec [of _ "key_of (calls t)"])
qed

lemma stamps_disabled:
  "l \<le> 0 \<or> win \<le> 0 \<Longrightarrow> stamps (bucket_step (AllowAt m k l win) db) = stamps db"
  by (simp add: Allow_disabled)

fun touches_memory :: "pc \<Rightarrow> bool" where
  "touches_memory (Inserting n) = True"
| "touches_memory (Working n a) = True"
| "touches_memory (Deciding n a) = True"
| "touches_memory p = False"

lemma cstep_plain:
  assumes "cstep calls t clk st = Some st'" "\<not> touches_memory (c_pc st t)"
  shows "\<exists>p. c_pc st' = (c_pc st)(t := p) \<and> \<not> deciding p \<and> c_data st' = c_data st \<and> c_cells st' = c_cells st \<and>
    (c_tl st' = c_tl st \<or> (\<exists>a. c_tl st a = None \<and> c_tl st' = (c_tl st)(a := Some t)) \<or>
      (\<exists>a. holds_tl (c_pc st t) = Some a \<and> c_tl st' = (c_tl st)(a := None))) \<and>
    (c_hist st' = c_hist st \<or>
      (\<exists>m k l win b. c_hist st' = c_hist st @ [(t, AllowAt m k l win, b)] \<and> (l \<le> 0 \<or> win \<le> 0)) \<or>
      (\<exists>k. c_hist st' = c_hist st @ [(t, ResetKey k, True)] \<and> c_data st k = None))"
  using assms
  by (cases "c_pc st t"; cases "calls t")
    (auto simp: cstep_def Let_def upd_eq_iff split: if_splits option.splits)

lemma mem_ok_plain:
  assumes "mem_ok calls st" "locks_ok st" "cstep calls t clk st = Some st'" "\<not> touches_memory (c_pc st t)"
  shows "mem_ok calls st'"
proof -
  from cstep_plain [OF assms(3,4)] obtain p where
    pc: "c_pc st' = (c_pc st)(t := p)" "\<not> deciding p" "c_data st' = c_data st" "c_cells st' = c_cells st" and
    tl: "c_tl st' = c_tl st \<or> (\<exists>a. c_tl st a = None \<and> c_tl st' = (c_tl st)(a := Some t)) \<or>
      (\<exists>a. holds_tl (c_pc st t) = Some a \<and> c_tl st' = (c_tl st)(a := None))" and
    hist: "c_hist st' = c_hist st \<or>
      (\<exists>m k l win b. c_hist st' = c_hist st @ [(t, AllowAt m k l win, b)] \<and> (l \<le> 0 \<or> win \<le> 0)) \<or>
      (\<exists>k. c_hist st' = c_hist st @ [(t, ResetKey k, True)] \<and> c_data st k = None)" by blast
  have "stamps (seq_db st) k = []" if "c_data st k = None" for k
    using assms(1) that by (auto simp: mem_ok_def dest!: spec [of _ k])
  note none = this
  have stamps: "stamps (seq_db st') k = stamps (seq_db st) k" for k
  proof -
    consider (same) "c_hist st' = c_hist st"
      | (off) m k' l win b where "c_hist st' = c_hist st @ [(t, AllowAt m k' l win, b)]" "l \<le> 0 \<or> win \<le> 0"
      | (reset) k' where "c_hist st' = c_hist st @ [(t, ResetKey k', True)]" "c_data st k' = None"
      using hist by blast
    then show ?thesis
    proof cases
      case same
      then show ?thesis by (simp add: seq_db_same [of st' st])
    next
      case off
      show ?thesis
        by (simp only: seq_db_record [OF off(1)] stamps_disabled [OF off(2)])
    next
      case reset
      show ?thesis
        using none [OF reset(2)] by (cases "k = k'") (simp_all add: seq_db_record [OF reset(1)] bucket_frame)
    qed
  qed
  have held: "c_tl st a = Some t" if "holds_tl (c_pc st t) = Some a" for a
    using assms(2) that by (simp add: locks_ok_def)
  have "\<not> deciding (c_pc st t)"
    using assms(4) by (cases "c_pc st t") auto
  moreover have "c_tl st' a = c_tl st a \<or> {c_tl st a, c_tl st' a} = {None, Some t}" for a
    using tl held by (elim disjE exE conjE) (simp_all add: doubleton_eq_iff)
  ultimately show ?thesis
    by (rule mem_ok_quiet [OF assms(1) pc(1) _ pc(2-4) _ stamps])
qed

lemma mem_ok_step:
  assumes "mem_ok calls st" "data_ok calls st" "locks_ok st" "cstep calls t clk st = Some st'"
  shows "mem_ok calls st'"
proof (cases "c_pc st t")
  case (Inserting n)
  let ?k = "key_of (calls t)" and ?a = "c_next st"
  from assms(4) Inserting have st': "c_pc st' = (c_pc st)(t := WUnlocking n ?a)"
    "c_data st' = (c_data st)(?k \<mapsto> ?a)" "c_cells st' = (c_cells st)(?a := [])" "c_tl st' = c_tl st"
    "c_hist st' = c_hist st"
    by (auto simp: cstep_def Let_def)
  have none: "c_data st ?k = None"
    using data_okD(4) [OF assms(2), of t] Inserting by simp
  have free: "c_tl st ?a = None"
  proof (rule ccontr)
    assume "c_tl st ?a \<noteq> None"
    then obtain u where "holds_tl (c_pc st u) = Some ?a"
      using assms(3) by (auto simp: locks_ok_def)
    then have "points (c_pc st u) = Some ?a" by (cases "c_pc st u") auto
    with data_okD(1,3) [OF assms(2)] show False by blast
  qed
  show ?thesis
    unfolding mem_ok_def
  proof
    fix k
    have "case c_data st k of None \<Rightarrow> stamps (seq_db st) k = []
        | Some a \<Rightarrow> c_cells st a = pending calls (c_tl st a) (c_pc st) (stamps (seq_db st) k)"
      using assms(1) by (simp add: mem_ok_def)
    moreover have "pending calls (c_tl st a) (c_pc st') xs = pending calls (c_tl st a) (c_pc st) xs" for a xs
      unfolding st'(1) by (rule pending_keep) (simp_all add: Inserting)
    moreover have "a \<noteq> ?a" if "c_data st k = Some a" for a
      using that data_okD(1) [OF assms(2)] by blast
    ultimately show "case c_data st' k of None \<Rightarrow> stamps (seq_db st') k = []
        | Some a \<Rightarrow> c_cells st' a = pending calls (c_tl st' a) (c_pc st') (stamps (seq_db st') k)"
      using none free by (cases "k = ?k") (auto simp: st'(2-4) seq_db_same [OF st'(5)] split: option.splits)
  qed
next
  case (Working n a)
  note own = at_Working [OF assms(1-3), of t a]
  show ?thesis
  proof (cases "calls t")
    case (CallAllow k l win)
    with assms(4) Working own show ?thesis
      by (intro mem_ok_cell [OF assms(1-3), of t a st' "Deciding n a"])
        (auto simp: cstep_def seq_db_same [of st' st] pending_own pending_plain)
  next
    case (CallReset k)
    with assms(4) Working have "c_hist st' = c_hist st @ [(t, ResetKey k, True)]"
      by (auto simp: cstep_def)
    from seq_db_record [OF this] assms(4) Working CallReset show ?thesis
      by (intro mem_ok_cell [OF assms(1-3), of t a st' "TUnlocking a True"])
        (auto simp: cstep_def pending_own bucket_frame)
  qed
next
  case (Deciding n a)
  from data_okD(5) [OF assms(2), of t] Deciding obtain k l win where
    call: "calls t = CallAllow k l win" "0 < l" "0 < win" by (cases "calls t") auto
  have own: "c_cells st a = evict (UnixMilli (n - win)) (stamps (seq_db st) k)"
    using at_Working [OF assms(1-3), of t a] Deciding call by (simp add: pending_def)
  let ?b = "int (length (c_cells st a)) < l"
  from assms(4) Deciding call have st': "c_pc st' = (c_pc st)(t := TUnlocking a ?b)" "c_data st' = c_data st"
    "c_tl st' = c_tl st" "c_hist st' = c_hist st @ [(t, allow_event n k l win, ?b)]"
    "c_cells st' = (c_cells st)(a := (if ?b then c_cells st a @ [UnixMilli n] else c_cells st a))"
    by (auto simp: cstep_def not_less split: if_splits)
  have "stamps (seq_db st') k = (if ?b then c_cells st a @ [UnixMilli n] else c_cells st a)"
    using call own by (simp add: seq_db_record [OF st'(4)] Allow_stamps Let_def)
  then show ?thesis
    using call st' Deciding
    by (intro mem_ok_cell [OF assms(1-3), of t a st' "TUnlocking a ?b"])
      (auto simp: seq_db_record [OF st'(4)] pending_own bucket_frame)
qed (rule mem_ok_plain [OF assms(1,3,4)], simp)+

lemma answers_ok_step:
  assumes "answers_ok st" "mem_ok calls st" "data_ok calls st" "locks_ok st" "cstep calls t clk st = Some st'"
  shows "answers_ok st'"
proof (cases "c_hist st' = c_hist st")
  case True
  with assms(1) show ?thesis by (simp add: answers_ok_def)
next
  case False
  have "\<exists>e. c_hist st' = c_hist st @ [(t, e, event_answer e (seq_db st))]"
  proof (cases "c_pc st t")
    case (Deciding n a)
    from data_okD(5) [OF assms(3), of t] Deciding obtain k l win where
      call: "calls t = CallAllow k l win" "0 < l" "0 < win" by (cases "calls t") auto
    have own: "c_cells st a = evict (UnixMilli (n - win)) (stamps (seq_db st) k)"
      using at_Working [OF assms(2-4), of t a] Deciding call by (simp add: pending_def)
    then have "event_answer (allow_event n k l win) (seq_db st) = (int (length (c_cells st a)) < l)"
      using call by (simp add: Allow_decision)
    moreover have "c_hist st' = c_hist st @ [(t, allow_event n k l win, int (length (c_cells st a)) < l)]"
      using assms(5) Deciding call by (auto simp: cstep_def not_less split: if_splits)
    ultimately show ?thesis by (intro exI [of _ "allow_event n k l win"]) simp
  qed (use assms(5) False in \<open>auto simp: cstep_def Let_def Allow_decision split: call.splits if_splits option.splits\<close>)
  then obtain e where e: "c_hist st' = c_hist st @ [(t, e, event_answer e (seq_db st))]" by blast
  then show ?thesis
    using assms(1) by (simp add: answers_ok_def seq_answers_snoc seq_db_def)
qed

lemma store_ok_reach: "creach calls st \<Longrightarrow> mem_ok calls st \<and> answers_ok st"
proof (induction rule: creach.induct)
  case creach_init
  show ?case by (simp add: mem_ok_def answers_ok_def cinit_def seq_db_def)
next
  case (creach_step st t clk st')
  then show ?case
    using mem_ok_step answers_ok_step data_ok_reach locks_ok_reach by meson
qed

text \<open>The history only grows at its end.\<close>

lemma cstep_hist_grows: "cstep calls t clk st = Some st' \<Longrightarrow> \<exists>h. c_hist st' = c_hist st @ h"
  using cstep_hist by (metis append_Nil2)

lemma crun_hist_grows: "crun calls sched st = Some st' \<Longrightarrow> \<exists>h. c_hist st' = c_hist st @ h"
proof (induction calls sched st rule: crun.induct)
  case (2 calls t clk sched st)
  then obtain st1 where "cstep calls t clk st = Some st1" "crun calls sched st1 = Some st'"
    by (auto split: option.splits)
  with 2(1) cstep_hist_grows show ?case by (metis append_assoc)
qed simp

section \<open>Progress\<close>

fun rank :: "pc \<Rightarrow> nat" where
  "rank Ready = 12"
| "rank (RLocking n) = 11"
| "rank (Reading n) = 10"
| "rank (RUnlocking n q) = 9"
| "rank (WLocking n) = 8"
| "rank (Checking n) = 7"
| "rank (Inserting n) = 6"
| "rank (WUnlocking n a) = 5"
| "rank (TLocking n a) = 4"
| "rank (Working n a) = 3"
| "rank (Deciding n a) = 2"
| "rank (TUnlocking a b) = 1"
| "rank (Returned b) = 0"

lemma cstep_rank:
  assumes "cstep calls t clk st = Some st'"
  shows "\<exists>p. c_pc st' = (c_pc st)(t := p) \<and> rank p < rank (c_pc st t)"
  using assms
  by (cases "c_pc st t"; cases "calls t") (auto simp: cstep_def Let_def upd_eq_iff split: if_splits option.splits)

text \<open>Each goroutine moves at most twelve times, whatever the schedule.\<close>

lemma crun_rank:
  "crun calls sched st = Some st' \<Longrightarrow>
    length (filter (\<lambda>(u, _). u = t) sched) + rank (c_pc st' t) \<le> rank (c_pc st t)"
proof (induction calls sched st rule: crun.induct)
  case (2 calls u clk sched st)
  then obtain st1 where st1: "cstep calls u clk st = Some st1" "crun calls sched st1 = Some st'"
    by (auto split: option.splits)
  from cstep_rank [OF st1(1)] obtain p where "c_pc st1 = (c_pc st)(u := p)" "rank p < rank (c_pc st u)" by blast
  with 2(1) [OF st1] show ?case by (cases "u = t") auto
qed simp

text \<open>A goroutine that holds a lock is never blocked, and one that is blocked waits for such a one.\<close>

lemma holder_moves:
  assumes "data_ok calls st" "holds_read (c_pc st t) \<or> holds_write (c_pc st t) \<or> holds_tl (c_pc st t) \<noteq> None"
  shows "\<exists>st'. cstep calls t clk st = Some st'"
  using assms(2) data_okD(5) [OF assms(1), of t]
  by (cases "c_pc st t"; cases "calls t") (auto simp: cstep_def Let_def split: option.splits)

lemma some_move:
  assumes "data_ok calls st" "locks_ok st" "\<forall>b. c_pc st t \<noteq> Returned b"
  shows "\<exists>u st'. (u = t \<or> c_pc st u \<noteq> Ready) \<and> cstep calls u clk st = Some st'"
proof (cases "\<exists>st'. cstep calls t clk st = Some st'")
  case False
  then have "\<exists>u. holds_read (c_pc st u) \<or> holds_write (c_pc st u) \<or> holds_tl (c_pc st u) \<noteq> None"
    using assms(2,3) data_okD(5) [OF assms(1), of t] holder_moves [OF assms(1), of t clk]
    by (cases "c_pc st t") (auto simp: cstep_def Let_def locks_ok_def split: call.splits option.splits if_splits)
  then obtain u where u: "holds_read (c_pc st u) \<or> holds_write (c_pc st u) \<or> holds_tl (c_pc st u) \<noteq> None" by blast
  then have "c_pc st u \<noteq> Ready" by auto
  with holder_moves [OF assms(1) u] show ?thesis by blast
qed blast

lemma started_finite: "creach calls st \<Longrightarrow> finite {u. c_pc st u \<noteq> Ready}"
proof (induction rule: creach.induct)
  case (creach_step st t clk st')
  from cstep_rank [OF creach_step(2)] obtain p where "c_pc st' = (c_pc st)(t := p)" by blast
  then have "{u. c_pc st' u \<noteq> Ready} \<subseteq> insert t {u. c_pc st u \<noteq> Ready}" by auto
  with creach_step(3) show ?case by (meson finite_insert finite_subset)
qed (simp add: cinit_def)

lemma call_finishes:
  assumes "creach calls st"
  shows "\<exists>sched st' b. crun calls sched st = Some st' \<and> c_pc st' t = Returned b"
  using assms
proof (induction "\<Sum>u \<in> insert t {u. c_pc st u \<noteq> Ready}. rank (c_pc st u)" arbitrary: st rule: less_induct)
  case less
  let ?S = "\<lambda>st. insert t {u. c_pc st u \<noteq> Ready}"
  show ?case
  proof (cases "\<exists>b. c_pc st t = Returned b")
    case True
    then show ?thesis by (metis crun.simps(1))
  next
    case False
    then obtain u st1 where u: "u \<in> ?S st" "cstep calls u 0 st = Some st1"
      using some_move [OF data_ok_reach [OF less(2)] locks_ok_reach [OF less(2)], of t 0] by blast
    from cstep_rank [OF u(2)] obtain p where p: "c_pc st1 = (c_pc st)(u := p)" "rank p < rank (c_pc st u)" by blast
    have fin: "finite (?S st)"
      using started_finite [OF less(2)] by simp
    have sub: "?S st1 \<subseteq> ?S st"
      using u(1) by (auto simp: p split: if_splits)
    have "(\<Sum>v \<in> ?S st1. rank (c_pc st1 v)) \<le> (\<Sum>v \<in> ?S st. rank (c_pc st1 v))"
      by (rule sum_mono2 [OF fin sub]) simp
    also have "\<dots> < (\<Sum>v \<in> ?S st. rank (c_pc st v))"
      by (rule sum_strict_mono_ex1 [OF fin]) (use u(1) p in auto)
    finally obtain sched st' b where "crun calls sched st1 = Some st'" "c_pc st' t = Returned b"
      using less(1) creach_step [OF less(2) u(2)] by blast
    then have "crun calls ((u, 0) # sched) st = Some st' \<and> c_pc st' t = Returned b"
      by (simp add: u(2))
    then show ?thesis by blast
  qed
qed

section \<open>Properties\<close>

text \<open>What a goroutine's next step reads (\<open>False\<close>) or writes (\<open>True\<close>): the map or a timeline.\<close>

fun accesses :: "pc \<Rightarrow> (nat option \<times> bool) option" where
  "accesses (Reading n) = Some (None, False)"
| "accesses (Checking n) = Some (None, False)"
| "accesses (Inserting n) = Some (None, True)"
| "accesses (Working n a) = Some (Some a, True)"
| "accesses (Deciding n a) = Some (Some a, True)"
| "accesses p = None"

lemma accesses_locks:
  "accesses p = Some (None, False) \<Longrightarrow> holds_read p \<or> holds_write p"
  "accesses p = Some (None, True) \<Longrightarrow> holds_write p"
  "accesses p = Some (Some a, w) \<Longrightarrow> holds_tl p = Some a"
  by (cases p; simp)+

text \<open>
  C26. The store is free of data races: no two goroutines are ever both about to access the map, or
  the same timeline, when one of them writes.
\<close>

theorem concurrent_race_free:
  assumes "creach calls st" "t \<noteq> u" "accesses (c_pc st t) = Some (x, True)" "accesses (c_pc st u) = Some (y, w)"
  shows "x \<noteq> y"
proof
  assume "x = y"
  from locks_ok_reach [OF assms(1)] have L: "holds_read (c_pc st v) \<longleftrightarrow> v \<in> c_readers st"
    "holds_write (c_pc st v) \<longleftrightarrow> c_writer st = Some v" "c_writer st \<noteq> None \<Longrightarrow> c_readers st = {}"
    "holds_tl (c_pc st v) = Some a \<longleftrightarrow> c_tl st a = Some v" for v a
    by (auto simp: locks_ok_def)
  show False
  proof (cases x)
    case None
    then have "c_writer st = Some t"
      using accesses_locks(2) [of "c_pc st t"] L(2) [of t] assms(3) by simp
    moreover have "u \<in> c_readers st \<or> c_writer st = Some u"
      using accesses_locks(1,2) [of "c_pc st u"] L(1,2) [of u] assms(4) None \<open>x = y\<close> by (cases w) auto
    ultimately show False
      using L(3) assms(2) by auto
  next
    case (Some a)
    with assms(3,4) \<open>x = y\<close> have "c_tl st a = Some t" "c_tl st a = Some u"
      using accesses_locks(3) [of "c_pc st t" a True] accesses_locks(3) [of "c_pc st u" a w] L(4) [of t a] L(4) [of u a]
      by simp_all
    with assms(2) show False by simp
  qed
qed

text \<open>
  C25. The interleaved calls are linearizable: in every reachable state the calls whose answer is
  fixed, in the order in which it was, are a sequence of calls of the atomic methods with the same
  answers, started on an empty store; every call that has returned is among them with what it
  returned, one that has not begun is not; later steps only add at the end, so the order respects
  the order of calls that do not overlap; and, while no attempt is between its two steps on it, each
  timeline holds the stamps the atomic methods would have left.
\<close>

theorem concurrent_linearizable:
  assumes "creach calls st"
  shows "distinct (map fst (c_hist st)) \<and> (\<forall>(t, e, b) \<in> set (c_hist st). event_of (calls t) e) \<and>
    map (\<lambda>(t, e, b). b) (c_hist st) = seq_answers (events_of (c_hist st)) NewBucketsDB \<and>
    (\<forall>t b. c_pc st t = Returned b \<longrightarrow> (\<exists>e. (t, e, b) \<in> set (c_hist st))) \<and>
    (\<forall>t. c_pc st t = Ready \<longrightarrow> t \<notin> fst ` set (c_hist st)) \<and>
    (\<forall>sched st'. crun calls sched st = Some st' \<longrightarrow> (\<exists>h. c_hist st' = c_hist st @ h)) \<and>
    (\<forall>k. (\<forall>t. \<not> deciding (c_pc st t)) \<longrightarrow>
      (case c_data st k of None \<Rightarrow> [] | Some a \<Rightarrow> c_cells st a) =
      stamps (bucket_run (events_of (c_hist st)) NewBucketsDB) k)"
proof -
  from hist_ok_reach [OF assms] have H: "distinct (map fst (c_hist st))"
    "\<forall>(t, e, b) \<in> set (c_hist st). event_of (calls t) e"
    "\<And>t b. answer_of (calls t) (c_pc st t) = Some b \<longleftrightarrow> (\<exists>e. (t, e, b) \<in> set (c_hist st))"
    by (auto simp: hist_ok_def)
  have returned: "\<exists>e. (t, e, b) \<in> set (c_hist st)" if "c_pc st t = Returned b" for t b
    using H(3) [of t b] that by simp
  have ready: "t \<notin> fst ` set (c_hist st)" if "c_pc st t = Ready" for t
    using H(3) [of t] that by force
  have cells: "(case c_data st k of None \<Rightarrow> [] | Some a \<Rightarrow> c_cells st a) = stamps (seq_db st) k"
    if "\<forall>t. \<not> deciding (c_pc st t)" for k
  proof -
    have "pending calls (c_tl st a) (c_pc st) xs = xs" for a xs
      using that by (cases "c_tl st a") (simp_all add: pending_plain)
    then show ?thesis
      using store_ok_reach [OF assms] by (auto simp: mem_ok_def dest!: spec [of _ k] split: option.splits)
  qed
  from H(1,2) returned ready cells crun_hist_grows store_ok_reach [OF assms] show ?thesis
    by (simp add: answers_ok_def seq_db_def)
qed

text \<open>
  C27. Every call returns: from every reachable state some schedule lets it, so there is no deadlock
  to run into, and whatever the schedule a goroutine makes at most twelve steps.
\<close>

theorem concurrent_calls_return:
  assumes "creach calls st"
  shows "(\<exists>sched st' b. crun calls sched st = Some st' \<and> c_pc st' t = Returned b) \<and>
    (\<forall>sched st'. crun calls sched st = Some st' \<longrightarrow> length (filter (\<lambda>(u, _). u = t) sched) \<le> 12)"
proof -
  have "rank p \<le> 12" for p by (cases p) simp_all
  with call_finishes [OF assms, of t] crun_rank [of calls _ st _ t] show ?thesis
    by (meson add_leD1 le_trans)
qed

text \<open>
  Two attempts at 96 ms; one that samples its time at 145 ms and is then overtaken by one that
  samples 146 ms and runs to its end.
\<close>

definition late_schedule :: "(nat \<times> int) list" where
  "late_schedule =
     replicate 12 (0, 96000000) @ replicate 8 (1, 96000000) @ [(3, 145000000)] @
     replicate 8 (2, 146000000) @ replicate 7 (3, 146000000)"

definition late_calls :: "nat \<Rightarrow> call" where
  "late_calls t = CallAllow ''k'' 2 50000000"

lemma late_history:
  "map_option c_hist (crun late_calls late_schedule cinit) =
    Some [(0, allow_event 96000000 ''k'' 2 50000000, True), (1, allow_event 96000000 ''k'' 2 50000000, True),
      (2, allow_event 146000000 ''k'' 2 50000000, True), (3, allow_event 145000000 ''k'' 2 50000000, True)]"
proof -
  have n: "(12::nat) = Suc (Suc (Suc (Suc (Suc (Suc (Suc (Suc (Suc (Suc (Suc (Suc 0)))))))))))"
    "(8::nat) = Suc (Suc (Suc (Suc (Suc (Suc (Suc (Suc 0)))))))" "(7::nat) = Suc (Suc (Suc (Suc (Suc (Suc (Suc 0))))))"
    by simp_all
  show ?thesis
    unfolding late_schedule_def n replicate.simps append.simps
    by (simp add: late_calls_def cstep_def go_to_def record_call_def cinit_def Let_def
      evict_dropWhile UnixMilli_def)
qed

text \<open>Runs in which the goroutines start, or finish, one after the other.\<close>

lemma crun_append:
  "crun calls (s1 @ s2) st = (case crun calls s1 st of None \<Rightarrow> None | Some st1 \<Rightarrow> crun calls s2 st1)"
  by (induction calls s1 st rule: crun.induct) (auto split: option.split)

definition quiet :: "cstate \<Rightarrow> bool" where
  "quiet st \<longleftrightarrow> c_readers st = {} \<and> c_writer st = None \<and> c_tl st = (\<lambda>_. None)"

lemma start_all:
  assumes "\<And>u. calls u = CallAllow k l win" "0 < l" "0 < win" "distinct ts" "\<forall>t \<in> set ts. c_pc st t = Ready" "quiet st"
  shows "\<exists>st'. crun calls (map (\<lambda>t. (t, clk)) ts) st = Some st' \<and> quiet st' \<and> c_hist st' = c_hist st \<and>
    (\<forall>u. c_pc st' u = (if u \<in> set ts then RLocking clk else c_pc st u))"
  using assms(4-6)
proof (induction ts arbitrary: st)
  case (Cons t ts)
  have "cstep calls t clk st = Some (go_to t (RLocking clk) st)"
    using Cons.prems(2) assms(1-3) by (simp add: cstep_def)
  moreover obtain st' where "crun calls (map (\<lambda>t. (t, clk)) ts) (go_to t (RLocking clk) st) = Some st'" "quiet st'"
      "c_hist st' = c_hist st" "\<forall>u. c_pc st' u = (if u \<in> set ts then RLocking clk else c_pc (go_to t (RLocking clk) st) u)"
    using Cons.IH [of "go_to t (RLocking clk) st"] Cons.prems by (force simp: quiet_def)
  ultimately show ?case
    by (intro exI [of _ st']) auto
qed simp

lemma bool_cases: "(\<exists>b. b) \<and> (\<exists>b. \<not> b)"
  by blast

lemma solo_finish:
  assumes "calls t = CallAllow k l win" "c_pc st t = RLocking n" "quiet st"
  shows "\<exists>j st' b. crun calls (replicate j (t, clk)) st = Some st' \<and> quiet st' \<and>
    (\<forall>u. u \<noteq> t \<longrightarrow> c_pc st' u = c_pc st u) \<and> c_hist st' = c_hist st @ [(t, allow_event n k l win, b)]"
proof -
  have n: "(7::nat) = Suc (Suc (Suc (Suc (Suc (Suc (Suc 0))))))"
    "(11::nat) = Suc (Suc (Suc (Suc (Suc (Suc (Suc (Suc (Suc (Suc (Suc 0))))))))))" by simp_all
  from assms(3) have free: "c_readers st = {}" "c_writer st = None" "c_tl st a = None" for a
    by (simp_all add: quiet_def)
  show ?thesis
  proof (cases "c_data st k")
    case (Some a)
    have "\<exists>st' b. crun calls (replicate 7 (t, clk)) st = Some st' \<and> quiet st' \<and>
        (\<forall>u. u \<noteq> t \<longrightarrow> c_pc st' u = c_pc st u) \<and> c_hist st' = c_hist st @ [(t, allow_event n k l win, b)]"
      unfolding n replicate.simps
      by (simp add: cstep_def go_to_def record_call_def Let_def assms(1,2) free Some quiet_def fun_eq_iff bool_cases)
    then show ?thesis by blast
  next
    case None
    have "\<exists>st' b. crun calls (replicate 11 (t, clk)) st = Some st' \<and> quiet st' \<and>
        (\<forall>u. u \<noteq> t \<longrightarrow> c_pc st' u = c_pc st u) \<and> c_hist st' = c_hist st @ [(t, allow_event n k l win, b)]"
      unfolding n replicate.simps
      by (simp add: cstep_def go_to_def record_call_def Let_def assms(1,2) free None quiet_def fun_eq_iff bool_cases)
    then show ?thesis by blast
  qed
qed

lemma finish_all:
  assumes "\<And>u. calls u = CallAllow k l win" "distinct ts" "\<forall>t \<in> set ts. c_pc st t = RLocking n" "quiet st"
  shows "\<exists>sched st'. crun calls sched st = Some st' \<and> quiet st' \<and> snd ` set sched \<subseteq> {clk} \<and>
    (\<forall>u. u \<notin> set ts \<longrightarrow> c_pc st' u = c_pc st u) \<and>
    events_of (c_hist st') = events_of (c_hist st) @ replicate (length ts) (allow_event n k l win)"
  using assms(2-4)
proof (induction ts arbitrary: st)
  case Nil
  then show ?case by (intro exI [of _ "[]"]) simp
next
  case (Cons t ts)
  obtain j st1 b where st1: "crun calls (replicate j (t, clk)) st = Some st1" "quiet st1"
      "\<forall>u. u \<noteq> t \<longrightarrow> c_pc st1 u = c_pc st u" "c_hist st1 = c_hist st @ [(t, allow_event n k l win, b)]"
    using solo_finish [of calls t k l win st n clk] assms(1) Cons.prems by auto
  with Cons.prems obtain sched st' where st': "crun calls sched st1 = Some st'" "quiet st'" "snd ` set sched \<subseteq> {clk}"
      "\<forall>u. u \<notin> set ts \<longrightarrow> c_pc st' u = c_pc st1 u"
      "events_of (c_hist st') = events_of (c_hist st1) @ replicate (length ts) (allow_event n k l win)"
    using Cons.IH [of st1] by (metis distinct.simps(2) list.set_intros(2))
  show ?case
    by (intro exI [of _ "replicate j (t, clk) @ sched"] exI [of _ st'])
      (use st1 st' in \<open>auto simp: crun_append\<close>)
qed

text \<open>The answers of the atomic methods to a burst that has room.\<close>

lemma seq_answers_append: "seq_answers (es @ es') db = seq_answers es db @ seq_answers es' (bucket_run es db)"
  by (induction es arbitrary: db) simp_all

lemma length_accepted: "length (accepted k es db) \<le> length es"
proof (induction es arbitrary: db)
  case (Cons e es)
  show ?case using Cons [of "bucket_step e db"] by (cases e) auto
qed simp

lemma burst_answers:
  "accepted k (replicate j (AllowAt m k l w)) db = replicate j (now m) \<Longrightarrow>
    seq_answers (replicate j (AllowAt m k l w)) db = replicate j True"
proof (induction j arbitrary: db)
  case (Suc j)
  with length_accepted [of k "replicate j (AllowAt m k l w)" "snd (BucketsDB_Allow m k l w db)"]
    arg_cong [OF Suc.prems, of length]
  show ?case by (auto split: if_splits)
qed simp

lemma late_answers:
  assumes "1 \<le> limit" "1000000 \<le> window"
  shows "set (seq_answers (replicate (nat limit) (allow_event 0 k limit window) @ [allow_event window k limit window] @
    replicate (nat limit - 1) (allow_event (window - 1000000) k limit window)) NewBucketsDB) \<subseteq> {True}"
proof -
  let ?at = "\<lambda>n. \<lparr>now = n, rnd = Inr 0 :: go_error + int\<rparr>"
  let ?db1 = "bucket_run (replicate (nat limit) (allow_event 0 k limit window)) NewBucketsDB"
  let ?db2 = "snd (BucketsDB_Allow (?at window) k limit window ?db1)"
  have first: "accepted k (replicate (nat limit) (allow_event 0 k limit window)) NewBucketsDB = replicate (nat limit) 0"
    using burst [OF assms(2), of "?at 0" NewBucketsDB k "nat limit" limit] assms(1) by (simp add: evict_dropWhile)
  have "\<forall>t \<in> set (stamps ?db1 k). t \<le> 0"
    using stamps_accepted [of "replicate (nat limit) (allow_event 0 k limit window)" NewBucketsDB k]
    unfolding first by (auto simp: UnixMilli_def)
  then have free: "evict (UnixMilli (window - window)) (stamps ?db1 k) = []"
    by (simp add: evict_dropWhile UnixMilli_def)
  then have db2: "stamps ?db2 k = [UnixMilli window]"
    using assms by (simp add: Allow_stamps Let_def)
  have "UnixMilli (-1000000) < UnixMilli window"
    using assms(2) by (simp add: UnixMilli_def)
  then have "evict (UnixMilli (now (?at (window - 1000000)) - window)) (stamps ?db2 k) = [UnixMilli window]"
    by (simp add: db2 evict_dropWhile)
  with burst [OF assms(2), of "?at (window - 1000000)" ?db2 k "nat limit - 1" limit] assms(1)
  have "seq_answers (replicate (nat limit - 1) (allow_event (window - 1000000) k limit window)) ?db2
      = replicate (nat limit - 1) True"
    by (intro burst_answers) simp
  moreover have "event_answer (allow_event window k limit window) ?db1"
    using free assms by (simp add: Allow_decision)
  moreover have "seq_answers (replicate (nat limit) (allow_event 0 k limit window)) NewBucketsDB = replicate (nat limit) True"
    using first by (intro burst_answers) simp
  ultimately show ?thesis
    by (auto simp: seq_answers_append)
qed

lemma sorted_const: "set xs \<subseteq> {c :: int} \<Longrightarrow> sorted xs"
  by (induction xs) auto

text \<open>The schedule in which \<open>limit - 1\<close> attempts are overtaken by one.\<close>

lemma late_run:
  assumes "2 \<le> limit" "1000000 \<le> window"
  shows "\<exists>sched st. crun (\<lambda>_. CallAllow k limit window) sched cinit = Some st \<and>
    sorted (map snd sched) \<and> snd ` set sched \<subseteq> {0..window} \<and>
    events_of (c_hist st) = replicate (nat limit) (allow_event 0 k limit window) @ [allow_event window k limit window] @
      replicate (nat limit - 1) (allow_event (window - 1000000) k limit window)"
proof -
  let ?calls = "\<lambda>_ :: nat. CallAllow k limit window" and ?n = "nat limit"
  let ?late = "window - 1000000" and ?ev = "\<lambda>t. allow_event t k limit window"
  let ?early = "[0..<?n]" and ?slow = "[Suc ?n..<2 * ?n]"
  have pos: "0 < limit" "0 < window" using assms by simp_all
  have init: "quiet cinit" "\<forall>t. c_pc cinit t = Ready" "c_hist cinit = []"
    by (simp_all add: quiet_def cinit_def)
  obtain st1 where st1: "crun ?calls (map (\<lambda>t. (t, 0)) ?early) cinit = Some st1" "quiet st1" "c_hist st1 = []"
      "\<forall>u. c_pc st1 u = (if u \<in> set ?early then RLocking 0 else Ready)"
    using start_all [of ?calls k limit window ?early cinit 0] pos init by auto
  then obtain s2 st2 where st2: "crun ?calls s2 st1 = Some st2" "quiet st2" "snd ` set s2 \<subseteq> {0}"
      "\<forall>u. u \<notin> set ?early \<longrightarrow> c_pc st2 u = c_pc st1 u" "events_of (c_hist st2) = replicate ?n (?ev 0)"
    using finish_all [of ?calls k limit window ?early st1 0 0] by auto
  have "\<forall>t \<in> set ?slow. c_pc st2 t = Ready" using st1(4) st2(4) by simp
  then obtain st3 where st3: "crun ?calls (map (\<lambda>t. (t, ?late)) ?slow) st2 = Some st3" "quiet st3" "c_hist st3 = c_hist st2"
      "\<forall>u. c_pc st3 u = (if u \<in> set ?slow then RLocking ?late else c_pc st2 u)"
    using start_all [of ?calls k limit window ?slow st2 ?late] pos st2(2) by auto
  have "c_pc st3 ?n = Ready" using st1(4) st2(4) st3(4) by simp
  then obtain st4 where st4: "crun ?calls [(?n, window)] st3 = Some st4" "quiet st4" "c_hist st4 = c_hist st3"
      "\<forall>u. c_pc st4 u = (if u = ?n then RLocking window else c_pc st3 u)"
    using start_all [of ?calls k limit window "[?n]" st3 window] pos st3(2) by auto
  then obtain s5 st5 where st5: "crun ?calls s5 st4 = Some st5" "quiet st5" "snd ` set s5 \<subseteq> {window}"
      "\<forall>u. u \<noteq> ?n \<longrightarrow> c_pc st5 u = c_pc st4 u" "events_of (c_hist st5) = replicate ?n (?ev 0) @ [?ev window]"
    using finish_all [of ?calls k limit window "[?n]" st4 window window] st2(5) st3(3) by auto
  have "\<forall>t \<in> set ?slow. c_pc st5 t = RLocking ?late" using st3(4) st4(4) st5(4) by simp
  then obtain s6 st6 where st6: "crun ?calls s6 st5 = Some st6" "snd ` set s6 \<subseteq> {window}"
      "events_of (c_hist st6) = replicate ?n (?ev 0) @ [?ev window] @ replicate (?n - 1) (?ev ?late)"
    using finish_all [of ?calls k limit window ?slow st5 ?late window] st5(2,5) by auto
  let ?sched = "map (\<lambda>t. (t, 0)) ?early @ s2 @ map (\<lambda>t. (t, ?late)) ?slow @ [(?n, window)] @ s5 @ s6"
  have run: "crun ?calls ?sched cinit = Some st6"
    by (simp only: crun_append st1(1) st2(1) st3(1) st4(1) st5(1) st6(1) option.case)
  have "sorted (map snd s2)" "sorted (map snd s5)" "sorted (map snd s6)"
    using st2(3) st5(3) st6(2) by (simp_all add: sorted_const)
  moreover have "\<forall>x \<in> set s2. snd x = 0" "\<forall>x \<in> set s5. snd x = window" "\<forall>x \<in> set s6. snd x = window"
    using st2(3) st5(3) st6(2) by auto
  moreover have "sorted (map snd (map (\<lambda>t. (t, c)) ts))" for c :: int and ts :: "nat list"
    by (rule sorted_const [of _ c]) auto
  ultimately have "sorted (map snd ?sched)"
    using assms(2) by (auto simp: sorted_append simp del: map_map)
  moreover have "snd ` set ?sched \<subseteq> {0..window}"
    using st2(3) st5(3) st6(2) assms(2) by auto
  ultimately show ?thesis
    using run st6(3) by (intro exI [of _ ?sched] exI [of _ st6]) simp
qed

text \<open>
  C28. The bound of the window does not hold when an attempt is overtaken between sampling its time
  and taking the lock: it is then checked against stamps that were dropped for a later time. For
  every key, every limit of at least 2 and every window of at least a millisecond there is a schedule
  of attempts, on a clock that goes from 0 to the window and never back, that lets \<open>2 * limit - 1\<close>
  attempts through in the first \<open>window - 1 ms\<close>: \<open>limit\<close> of them at 0, and \<open>limit - 1\<close> that sample
  their time a millisecond before the window is over and reach the lock after one that samples its
  time when it is over.
\<close>

theorem late_lock_exceeds:
  assumes "2 \<le> limit" "1000000 \<le> window"
  shows "\<exists>sched st. crun (\<lambda>_. CallAllow k limit window) sched cinit = Some st \<and>
    sorted (map snd sched) \<and> snd ` set sched \<subseteq> {0..window} \<and>
    int (length (filter (\<lambda>(t, e, b). b \<and>
      (case e of AllowAt m _ _ _ \<Rightarrow> 0 \<le> now m \<and> now m \<le> window - 1000000 | _ \<Rightarrow> False)) (c_hist st))) = 2 * limit - 1"
proof -
  let ?late = "window - 1000000"
  obtain sched st where run: "crun (\<lambda>_. CallAllow k limit window) sched cinit = Some st"
    "sorted (map snd sched)" "snd ` set sched \<subseteq> {0..window}"
    and evs: "events_of (c_hist st) = replicate (nat limit) (allow_event 0 k limit window) @
      [allow_event window k limit window] @ replicate (nat limit - 1) (allow_event ?late k limit window)"
    using late_run [OF assms] by blast
  have "map (\<lambda>(t, e, b). b) (c_hist st) = seq_answers (events_of (c_hist st)) NewBucketsDB"
    using store_ok_reach [OF crun_reach [OF creach_init run(1)]] by (simp add: answers_ok_def)
  then have "set (map (\<lambda>(t, e, b). b) (c_hist st)) \<subseteq> {True}"
    using late_answers [of limit window k] assms by (simp only: evs)
  then have all: "\<forall>(t, e, b) \<in> set (c_hist st). b" by force
  let ?I = "\<lambda>e. case e of AllowAt m _ _ _ \<Rightarrow> 0 \<le> now m \<and> now m \<le> ?late | _ \<Rightarrow> False"
  have "filter (\<lambda>(t, e, b). b \<and> ?I e) (c_hist st) = filter (\<lambda>(t, e, b). ?I e) (c_hist st)"
    using all by (intro filter_cong) auto
  moreover have "length (filter (\<lambda>(t, e, b). ?I e) (c_hist st)) = length (filter ?I (events_of (c_hist st)))"
    by (simp add: filter_map comp_def case_prod_unfold)
  moreover have "int (length (filter ?I (events_of (c_hist st)))) = 2 * limit - 1"
    using assms unfolding evs by simp
  ultimately have "int (length (filter (\<lambda>(t, e, b). b \<and> ?I e) (c_hist st))) = 2 * limit - 1"
    by (simp only:)
  with run show ?thesis by blast
qed

theorem late_lock_exceeds_witness:
  "\<exists>sched st. crun (\<lambda>_. CallAllow ''login:u'' 10 60000000000) sched cinit = Some st \<and> sorted (map snd sched) \<and>
    int (length (filter (\<lambda>(t, e, b). b \<and>
      (case e of AllowAt m _ _ _ \<Rightarrow> 0 \<le> now m \<and> now m \<le> 60000000000 - 1000000 | _ \<Rightarrow> False)) (c_hist st))) = 19"
  using late_lock_exceeds [of 10 60000000000 "''login:u''"] by auto

text \<open>The instances: the state the schedule above leads to.\<close>

lemma late_reach: "\<exists>st. creach late_calls st \<and> crun late_calls late_schedule cinit = Some st"
  using late_history crun_reach [OF creach_init, of late_calls late_schedule] by auto

theorem concurrent_race_free_witness:
  "\<exists>calls st. creach calls st \<and> accesses (c_pc st 0) = Some (Some 0, True) \<and>
    \<not> (accesses (c_pc st 1) = Some (Some 0, True))"
proof -
  have twelve: "(9::nat) = Suc (Suc (Suc (Suc (Suc (Suc (Suc (Suc (Suc 0))))))))" by simp
  have "\<exists>st. crun late_calls (replicate 9 (0, 96000000)) cinit = Some st \<and> c_pc st 0 = Working 96000000 0"
    unfolding twelve replicate.simps
    by (simp add: late_calls_def cstep_def go_to_def record_call_def cinit_def Let_def evict_dropWhile UnixMilli_def)
  then obtain st where st: "creach late_calls st" "c_pc st 0 = Working 96000000 0"
    using crun_reach [OF creach_init] by blast
  from concurrent_race_free [OF st(1), of 0 1 "Some 0" "Some 0" True] st show ?thesis
    by (intro exI [of _ late_calls] exI [of _ st]) auto
qed

theorem concurrent_linearizable_witness:
  "\<exists>st. crun late_calls late_schedule cinit = Some st \<and>
    seq_answers (events_of (c_hist st)) NewBucketsDB = [True, True, True, True]"
proof -
  obtain st where st: "creach late_calls st" "crun late_calls late_schedule cinit = Some st"
    using late_reach by blast
  then have "c_hist st = [(0, allow_event 96000000 ''k'' 2 50000000, True), (1, allow_event 96000000 ''k'' 2 50000000, True),
      (2, allow_event 146000000 ''k'' 2 50000000, True), (3, allow_event 145000000 ''k'' 2 50000000, True)]"
    using late_history by simp
  with concurrent_linearizable [OF st(1)] st(2) show ?thesis by auto
qed

theorem concurrent_calls_return_witness:
  "\<exists>sched st b. crun late_calls sched cinit = Some st \<and> c_pc st 7 = Returned b"
  using concurrent_calls_return [OF creach_init] by blast

end
