(* ===== verification/Go_Scan.thy ===== *)
theory Go_Scan
  imports Go_Fmt
begin

text \<open>
  The parts of the standard library's \<open>strings\<close>, \<open>fmt\<close> and \<open>strconv\<close> that the migrator and the logger
  use: trimming and lower case, and \<open>fmt.Sscan\<close> into an \<open>int64\<close>. Strings are bytes; a white-space
  character beyond ASCII is its UTF-8 encoding.
\<close>

section \<open>White space and case\<close>

abbreviation bytes :: "nat list \<Rightarrow> string" where
  "bytes ns \<equiv> map char_of ns"

text \<open>The characters that \<open>unicode.IsSpace\<close> accepts beyond ASCII.\<close>

definition wide_spaces :: "string list" where
  "wide_spaces =
     [bytes [0xC2, 0x85], bytes [0xC2, 0xA0], bytes [0xE1, 0x9A, 0x80], bytes [0xE2, 0x80, 0xA8],
      bytes [0xE2, 0x80, 0xA9], bytes [0xE2, 0x80, 0xAF], bytes [0xE2, 0x81, 0x9F], bytes [0xE3, 0x80, 0x80]] @
     map (\<lambda>n. bytes [0xE2, 0x80, n]) [0x80, 0x81, 0x82, 0x83, 0x84, 0x85, 0x86, 0x87, 0x88, 0x89, 0x8A]"

definition ascii_space :: "char \<Rightarrow> bool" where
  "ascii_space c \<longleftrightarrow> (let n = of_char c :: nat in n = 32 \<or> (9 \<le> n \<and> n \<le> 13))"

text \<open>The length of the white-space character a text begins with, 0 if it begins with none.\<close>

definition space_len :: "string list \<Rightarrow> string \<Rightarrow> nat" where
  "space_len wide s =
     (case s of
        [] \<Rightarrow> 0
      | c # _ \<Rightarrow>
          if ascii_space c then 1
          else case filter (\<lambda>e. take (length e) s = e) wide of [] \<Rightarrow> 0 | e # _ \<Rightarrow> length e)"

function skip_spaces :: "string list \<Rightarrow> string \<Rightarrow> string" where
  "skip_spaces wide s = (if space_len wide s = 0 then s else skip_spaces wide (drop (space_len wide s) s))"
  by pat_completeness auto
termination
proof (relation "measure (\<lambda>(wide, s). length s)")
  fix wide s
  assume "space_len wide s \<noteq> 0"
  then have "s \<noteq> []" by (auto simp: space_len_def)
  with \<open>space_len wide s \<noteq> 0\<close> show "((wide, drop (space_len wide s) s), wide, s) \<in> measure (\<lambda>(wide, s). length s)"
    by simp
qed simp

declare skip_spaces.simps [simp del]

definition TrimLeft :: "string \<Rightarrow> string" where
  "TrimLeft s = skip_spaces wide_spaces s"

definition TrimSpace :: "string \<Rightarrow> string" where
  "TrimSpace s = rev (skip_spaces (map rev wide_spaces) (rev (TrimLeft s)))"

text \<open>
  \<open>strings.ToLower\<close> as far as it can give ASCII letters: the ASCII capitals, and the two characters
  beyond ASCII whose lower case is an ASCII letter (dotted capital I and the Kelvin sign). Every
  other character beyond ASCII stays beyond ASCII and is left as it is.
\<close>

definition lower_char :: "char \<Rightarrow> char" where
  "lower_char c = (let n = of_char c :: nat in if 65 \<le> n \<and> n \<le> 90 then char_of (n + 32) else c)"

fun ToLower :: "string \<Rightarrow> string" where
  "ToLower [] = []"
| "ToLower (c # s) =
     (if take 2 (c # s) = bytes [0xC4, 0xB0] then CHR ''i'' # ToLower (drop 1 s)
      else if take 3 (c # s) = bytes [0xE2, 0x84, 0xAA] then CHR ''k'' # ToLower (drop 2 s)
      else lower_char c # ToLower s)"

section \<open>Parsing integers\<close>

text \<open>\<open>strconv.ParseUint\<close>'s digit loop: underscores are passed over, a character that is no digit of the base fails.\<close>

definition any_digit :: "char \<Rightarrow> nat option" where
  "any_digit c =
     (let n = of_char c :: nat; l = of_char (lower_char c) :: nat
      in if 48 \<le> n \<and> n \<le> 57 then Some (n - 48) else if 97 \<le> l \<and> l \<le> 122 then Some (l - 87) else None)"

fun digit_loop :: "nat \<Rightarrow> nat \<Rightarrow> string \<Rightarrow> nat option" where
  "digit_loop base acc [] = Some acc"
| "digit_loop base acc (c # cs) =
     (if c = CHR ''_'' then digit_loop base acc cs
      else case any_digit c of
        None \<Rightarrow> None
      | Some d \<Rightarrow> if base \<le> d then None else digit_loop base (base * acc + d) cs)"

text \<open>\<open>underscoreOK\<close>: an underscore stands between digits, where a base prefix counts as a digit.\<close>

fun underscores_ok :: "bool \<Rightarrow> char \<Rightarrow> string \<Rightarrow> bool" where
  "underscores_ok hex saw [] \<longleftrightarrow> saw \<noteq> CHR ''_''"
| "underscores_ok hex saw (c # cs) \<longleftrightarrow>
     (if digit_val c \<noteq> None \<or> (hex \<and> (case any_digit c of None \<Rightarrow> False | Some d \<Rightarrow> 10 \<le> d \<and> d < 16))
      then underscores_ok hex (CHR ''0'') cs
      else if c = CHR ''_'' then saw = CHR ''0'' \<and> underscores_ok hex (CHR ''_'') cs
      else saw \<noteq> CHR ''_'' \<and> underscores_ok hex (CHR ''!'') cs)"

definition base_prefix :: "string \<Rightarrow> nat option" where
  "base_prefix s =
     (case s of
        z # b # _ \<Rightarrow>
          if z = CHR ''0'' then
            (if lower_char b = CHR ''b'' then Some 2 else if lower_char b = CHR ''o'' then Some 8
             else if lower_char b = CHR ''x'' then Some 16 else None)
          else None
      | _ \<Rightarrow> None)"

text \<open>\<open>strconv.ParseInt(tok, 0, 64)\<close>.\<close>

definition ParseInt0 :: "string \<Rightarrow> int result" where
  "ParseInt0 tok =
     (let signed = tok \<noteq> [] \<and> hd tok \<in> {CHR ''+'', CHR ''-''};
          neg = (tok \<noteq> [] \<and> hd tok = CHR ''-'');
          s = (if signed then tl tok else tok);
          pre = base_prefix s;
          (base, body) =
            (case pre of
               Some b \<Rightarrow> if 3 \<le> length s then (b, drop 2 s) else (8, drop 1 s)
             | None \<Rightarrow> if s \<noteq> [] \<and> hd s = CHR ''0'' then (8, drop 1 s) else (10, s));
          syntax = Inl (Errorf (''strconv.ParseInt: parsing \"'' @ tok @ ''\": invalid syntax''));
          range = Inl (Errorf (''strconv.ParseInt: parsing \"'' @ tok @ ''\": value out of range''))
      in if s = [] then syntax
         else case digit_loop base 0 body of
           None \<Rightarrow> syntax
         | Some n \<Rightarrow>
             if CHR ''_'' \<in> set body \<and>
               \<not> (case pre of Some b \<Rightarrow> underscores_ok (b = 16) (CHR ''0'') (drop 2 s)
                   | None \<Rightarrow> underscores_ok False (CHR ''^'') s)
             then syntax
             else if neg then (if 2 ^ 63 < n then range else Inr (- int n))
             else if 2 ^ 63 \<le> n then range else Inr (int n))"

section \<open>\<open>fmt.Sscan\<close> into an int64\<close>

text \<open>
  The prefix of a number: the characters taken, the digits that may follow, and whether a digit has
  been seen. A leading zero makes the number octal.
\<close>

definition scan_prefix :: "string \<Rightarrow> string \<times> string \<times> bool \<times> string" where
  "scan_prefix s =
     (case s of
        z # r \<Rightarrow>
          if z = CHR ''0'' then
            (case r of
               b # r' \<Rightarrow>
                 if b \<in> set ''bB'' then ([z, b], ''01_'', True, r')
                 else if b \<in> set ''oO'' then ([z, b], ''01234567_'', True, r')
                 else if b \<in> set ''xX'' then ([z, b], ''0123456789aAbBcCdDeEfF_'', True, r')
                 else ([z], ''01234567_'', True, r)
             | [] \<Rightarrow> ([z], ''01234567_'', True, r))
          else ([], ''0123456789_'', False, s)
      | [] \<Rightarrow> ([], ''0123456789_'', False, s))"

definition Sscan_int64 :: "string \<Rightarrow> int result" where
  "Sscan_int64 text0 =
     (let s1 = TrimLeft text0
      in if s1 = [] then Inl (Errorf ''unexpected EOF'')
         else
           let sgn = (if hd s1 \<in> {CHR ''+'', CHR ''-''} then [hd s1] else []);
               s2 = (if sgn = [] then s1 else tl s1)
           in case scan_prefix s2 of
                (pre, digits, have_digits, s3) \<Rightarrow>
                  (let ds = takeWhile (\<lambda>c. c \<in> set digits) s3
                   in if \<not> have_digits \<and> s3 = [] then Inl (Errorf ''unexpected EOF'')
                      else if \<not> have_digits \<and> ds = [] then Inl (Errorf ''expected integer'')
                      else ParseInt0 (sgn @ pre @ ds)))"

section \<open>Reading back what was printed\<close>

lemma digit_chars:
  "digit_char 0 = CHR ''0''"
  "digit_char (Suc 0) = CHR ''1''"
  "digit_char 2 = CHR ''2''"
  "digit_char 3 = CHR ''3''"
  "digit_char 4 = CHR ''4''"
  "digit_char 5 = CHR ''5''"
  "digit_char 6 = CHR ''6''"
  "digit_char 7 = CHR ''7''"
  "digit_char 8 = CHR ''8''"
  "digit_char 9 = CHR ''9''"
  by (simp_all add: digit_char_def char_of_eq_iff)

text \<open>What the ten digits are and are not.\<close>

lemma of_digit_char: "d < 10 \<Longrightarrow> of_char (digit_char d) = 48 + d"
  by (simp add: digit_char_def)

lemma digit_char_eq: "d < 10 \<Longrightarrow> digit_char d = c \<longleftrightarrow> of_char c = 48 + d"
  by (metis of_digit_char of_char_eq_iff)

lemma digit_char_facts:
  assumes "d < 10"
  shows "digit_val (digit_char d) = Some d" "any_digit (digit_char d) = Some d" "digit_char d \<noteq> CHR ''_''"
    "digit_char d \<in> set ''0123456789''" "\<not> ascii_space (digit_char d)" "(of_char (digit_char d) :: nat) < 128"
    "digit_char d \<notin> {CHR ''+'', CHR ''-''}" "digit_char d = CHR ''0'' \<longleftrightarrow> d = 0"
    "digit_char d \<in> set ''01234567_'' \<longleftrightarrow> d < 8" "digit_char d \<notin> set ''bBoOxX''"
    "lower_char (digit_char d) = digit_char d"
proof -
  show "digit_val (digit_char d) = Some d"
    using assms by simp
  show "any_digit (digit_char d) = Some d" "\<not> ascii_space (digit_char d)" "(of_char (digit_char d) :: nat) < 128"
    "lower_char (digit_char d) = digit_char d"
    using assms by (simp_all add: of_digit_char any_digit_def ascii_space_def lower_char_def Let_def)
  show "digit_char d \<noteq> CHR ''_''" "digit_char d \<notin> {CHR ''+'', CHR ''-''}" "digit_char d = CHR ''0'' \<longleftrightarrow> d = 0"
    "digit_char d \<notin> set ''bBoOxX''"
    using assms by (simp_all add: digit_char_eq)
  have "d \<in> set [0..<10]"
    using assms by simp
  then have "d = 0 \<or> d = Suc 0 \<or> d = 2 \<or> d = 3 \<or> d = 4 \<or> d = 5 \<or> d = 6 \<or> d = 7 \<or> d = 8 \<or> d = 9"
    by (simp add: upt_rec [of _ 10] eval_nat_numeral)
  then show "digit_char d \<in> set ''0123456789''" "digit_char d \<in> set ''01234567_'' \<longleftrightarrow> d < 8"
    by (elim disjE; simp add: digit_chars)+
qed

lemma digits_of_set: "set (digits_of n) \<subseteq> digit_char ` {d. d < 10}"
proof (induction n rule: digits_of.induct)
  case (1 n)
  then show ?case by (cases "n < 10") (auto simp: digits_of.simps [of n])
qed

lemma digits_of_hd: "0 < n \<Longrightarrow> hd (digits_of n) \<noteq> CHR ''0''"
proof (induction n rule: digits_of.induct)
  case (1 n)
  then show ?case
    by (cases "n < 10") (auto simp: digits_of.simps [of n] digit_char_facts(8))
qed

lemma digit_loop_append:
  "CHR ''_'' \<notin> set s \<Longrightarrow> digit_loop b a (s @ t) = Option.bind (digit_loop b a s) (\<lambda>x. digit_loop b x t)"
  by (induction s arbitrary: a) (auto split: option.split)

lemma digit_loop_digits: "digit_loop 10 0 (digits_of n) = Some n"
proof (induction n rule: digits_of.induct)
  case (1 n)
  have "CHR ''_'' \<notin> set (digits_of m)" for m
    using digits_of_set [of m] digit_char_facts(3) by (metis (no_types, lifting) imageE mem_Collect_eq subsetD)
  with 1 show ?case
    by (cases "n < 10")
      (simp_all add: digits_of.simps [of n] digit_char_facts(2,3) digit_loop_append)
qed

lemma TrimLeft_plain:
  assumes "s \<noteq> []" "\<not> ascii_space (hd s)" "(of_char (hd s) :: nat) < 128"
  shows "TrimLeft s = s"
proof -
  have wide: "\<forall>e \<in> set wide_spaces. e \<noteq> [] \<and> 128 \<le> (of_char (hd e) :: nat)"
    by (simp add: wide_spaces_def)
  have "take (length e) s \<noteq> e" if "e \<in> set wide_spaces" for e
  proof
    assume "take (length e) s = e"
    then have "hd e = hd s"
      using wide that assms(1) by (cases e; cases s) auto
    with wide that assms(3) show False by auto
  qed
  then have "filter (\<lambda>e. take (length e) s = e) wide_spaces = []"
    by (simp add: filter_empty_conv)
  then have "space_len wide_spaces s = 0"
    using assms(1,2) by (cases s) (simp_all add: space_len_def)
  then show ?thesis
    by (simp add: TrimLeft_def skip_spaces.simps [of wide_spaces s])
qed

lemma ParseInt0_decimal:
  assumes "0 < n" "n < 2 ^ 63"
  shows "ParseInt0 (digits_of n) = Inr (int n)"
proof -
  let ?s = "digits_of n"
  from digits_of_hd [OF assms(1)] have hd: "hd ?s \<noteq> CHR ''0''" .
  have "hd ?s \<in> digit_char ` {d. d < 10}"
    using digits_of_set [of n] hd_in_set [of ?s] by auto
  then have sign: "hd ?s \<notin> {CHR ''+'', CHR ''-''}"
    using digit_char_facts(7) by (metis (no_types, lifting) imageE mem_Collect_eq)
  have none: "base_prefix ?s = None"
    using hd by (auto simp: base_prefix_def split: list.split)
  have plain: "CHR ''_'' \<notin> set ?s"
    using digits_of_set [of n] digit_char_facts(3) by (metis (no_types, lifting) imageE mem_Collect_eq subsetD)
  show ?thesis
    using assms(2) hd sign none plain digit_loop_digits [of n] by (simp add: ParseInt0_def Let_def)
qed

text \<open>Scanning reads a printed number back.\<close>

lemma Sscan_Sprint:
  assumes "0 \<le> v" "v < 2 ^ 63"
  shows "Sscan_int64 (Sprint_int v) = Inr v"
proof (cases "v = 0")
  case True
  have "TrimLeft ''0'' = ''0''"
    by (rule TrimLeft_plain) (simp_all add: ascii_space_def)
  then show ?thesis
    by (simp add: True Sprint_int_def digits_of.simps [of 0] digit_chars Sscan_int64_def scan_prefix_def
        ParseInt0_def base_prefix_def Let_def)
next
  case False
  let ?n = "nat v" and ?s = "digits_of (nat v)"
  from assms False have n: "0 < ?n" "?n < 2 ^ 63" "int ?n = v" by (simp_all add: nat_less_iff)
  have digits: "set ?s \<subseteq> set ''0123456789''"
    using digits_of_set [of ?n] digit_char_facts(4) by blast
  have "hd ?s \<in> digit_char ` {d. d < 10}"
    using digits_of_set [of ?n] hd_in_set [of ?s] by auto
  then have head: "\<not> ascii_space (hd ?s)" "(of_char (hd ?s) :: nat) < 128" "hd ?s \<notin> {CHR ''+'', CHR ''-''}"
    using digit_char_facts(5-7) by (metis (no_types, lifting) imageE mem_Collect_eq)+
  have trim: "TrimLeft ?s = ?s"
    by (rule TrimLeft_plain) (use head in simp_all)
  have prefix: "scan_prefix ?s = ([], ''0123456789_'', False, ?s)"
    using digits_of_hd [OF n(1)] by (auto simp: scan_prefix_def split: list.split)
  have "set ''0123456789'' \<subseteq> set ''0123456789_''" by simp
  with digits have "\<forall>c \<in> set ?s. c \<in> set ''0123456789_''" by blast
  then have all: "takeWhile (\<lambda>c. c \<in> set ''0123456789_'') ?s = ?s"
    by (simp only: takeWhile_eq_all_conv)
  have printed: "Sprint_int v = ?s"
    using assms(1) by (simp add: Sprint_int_def)
  have "ParseInt0 ?s = Inr v"
    using ParseInt0_decimal [OF n(1,2)] n(3) by simp
  moreover have "?s \<noteq> []"
    using digits_of_nonempty [of ?n] by simp
  ultimately show ?thesis
    using head(3) by (simp add: printed Sscan_int64_def trim prefix all Let_def del: set_simps list.set)
qed

end
