(* ===== verification/Migrator.thy ===== *)
theory Migrator
  imports Go_Scan Config Postgres_Subnets
begin

text \<open>
  \<open>cmd/migrator/main.go\<close>: the tool that migrates the database schema. goose, the driver and the
  standard output are parameters; the choice of the operation by the command, the reading of the
  version argument, the closing of the database and the error texts are the file's own.
\<close>

section \<open>The packages the tool calls\<close>

record ('db, 'w) goose =
  goose_SetDialect :: "string \<Rightarrow> 'w \<Rightarrow> go_error option \<times> 'w"
  goose_Up :: "'db \<Rightarrow> string \<Rightarrow> 'w \<Rightarrow> go_error option \<times> 'w"
  goose_Down :: "'db \<Rightarrow> string \<Rightarrow> 'w \<Rightarrow> go_error option \<times> 'w"
  goose_Redo :: "'db \<Rightarrow> string \<Rightarrow> 'w \<Rightarrow> go_error option \<times> 'w"
  goose_Reset :: "'db \<Rightarrow> string \<Rightarrow> 'w \<Rightarrow> go_error option \<times> 'w"
  goose_Status :: "'db \<Rightarrow> string \<Rightarrow> 'w \<Rightarrow> go_error option \<times> 'w"
  goose_GetDBVersion :: "'db \<Rightarrow> 'w \<Rightarrow> int result \<times> 'w"
  goose_UpTo :: "'db \<Rightarrow> string \<Rightarrow> int \<Rightarrow> 'w \<Rightarrow> go_error option \<times> 'w"
  goose_DownTo :: "'db \<Rightarrow> string \<Rightarrow> int \<Rightarrow> 'w \<Rightarrow> go_error option \<times> 'w"
  std_Print :: "string \<Rightarrow> 'w \<Rightarrow> 'w"

text \<open>The flags of the command line, as the flag package leaves them after \<open>flag.Parse\<close>.\<close>

record flags =
  flag_config :: string
  flag_dir :: string
  flag_command :: string
  flag_arg :: string

definition default_flags :: flags where
  "default_flags = \<lparr>flag_config = ''config.yaml'', flag_dir = ''./migrations'', flag_command = ''up'', flag_arg = []\<rparr>"

section \<open>The tool\<close>

definition mustParseInt64 :: "string \<Rightarrow> int result" where
  "mustParseInt64 s = (if s = [] then Inl (Errorf ''arg is required for this command'') else Sscan_int64 s)"

text \<open>The end of \<open>runMigration\<close>: the error of the operation is wrapped.\<close>

definition migrated :: "go_error option \<times> 'w \<Rightarrow> go_error option \<times> 'w" where
  "migrated r = (map_option (Wrapf ''migration error'') (fst r), snd r)"

text \<open>The two commands that take a version.\<close>

definition with_version :: "string \<Rightarrow> (int \<Rightarrow> 'w \<Rightarrow> go_error option \<times> 'w) \<Rightarrow> 'w \<Rightarrow> go_error option \<times> 'w" where
  "with_version arg goTo w =
     (case mustParseInt64 arg of
        Inl err \<Rightarrow> (Some (Wrapf ''parse version error'' err), w)
      | Inr v \<Rightarrow> migrated (goTo v w))"

definition run_command ::
  "('db, 'w) goose \<Rightarrow> 'db \<Rightarrow> string \<Rightarrow> string \<Rightarrow> string \<Rightarrow> 'w \<Rightarrow> go_error option \<times> 'w" where
  "run_command g d migrationsDir command arg w =
     (let cmd = ToLower command in
      if cmd = ''up'' then migrated (goose_Up g d migrationsDir w)
      else if cmd = ''down'' then migrated (goose_Down g d migrationsDir w)
      else if cmd = ''redo'' then migrated (goose_Redo g d migrationsDir w)
      else if cmd = ''reset'' then migrated (goose_Reset g d migrationsDir w)
      else if cmd = ''status'' then migrated (goose_Status g d migrationsDir w)
      else if cmd = ''version'' then
        (case goose_GetDBVersion g d w of
           (Inl err, w1) \<Rightarrow> (Some (Wrapf ''get DB version'' err), w1)
         | (Inr v, w1) \<Rightarrow> (None, std_Print g (''Current version: '' @ Sprint_int v @ [CHR 0x0A]) w1))
      else if cmd = ''up-to'' then with_version arg (goose_UpTo g d migrationsDir) w
      else if cmd = ''down-to'' then with_version arg (goose_DownTo g d migrationsDir) w
      else (Some (Errorf (''unknown command: '' @ command)), w))"

text \<open>\<open>runMigration\<close>; the deferred \<open>Close\<close> runs on every path that opened the database.\<close>

definition runMigration ::
  "('db, 'w) goose \<Rightarrow> ('db, 'w) sqlx \<Rightarrow> loader \<Rightarrow> string \<Rightarrow> string \<Rightarrow> string \<Rightarrow> string \<Rightarrow> 'w \<Rightarrow>
    go_error option \<times> 'w" where
  "runMigration g x h configFile migrationsDir command arg w =
     (case goose_SetDialect g ''postgres'' w of
        (Some err, w1) \<Rightarrow> (Some (Wrapf ''set dialect'' err), w1)
      | (None, w1) \<Rightarrow>
          (case LoadConfig h configFile of
             Inl err \<Rightarrow> (Some (Wrapf ''config load'' err), w1)
           | Inr cfg \<Rightarrow>
               (case OpenDB x (cfg_Database cfg) w1 of
                  (Inl err, w2) \<Rightarrow> (Some (Wrapf ''DB open error'' err), w2)
                | (Inr d, w2) \<Rightarrow>
                    (case run_command g d migrationsDir command arg w2 of
                       (e, w3) \<Rightarrow> (e, sqlx_Close x d w3)))))"

text \<open>\<open>main\<close> after the flags: the exit status, and what was printed last.\<close>

definition migrator_main :: "('db, 'w) goose \<Rightarrow> ('db, 'w) sqlx \<Rightarrow> loader \<Rightarrow> flags \<Rightarrow> 'w \<Rightarrow> nat \<times> 'w" where
  "migrator_main g x h fl w =
     (case runMigration g x h (flag_config fl) (flag_dir fl) (flag_command fl) (flag_arg fl) w of
        (Some err, w1) \<Rightarrow> (1, std_Print g (''migration failed: '' @ Error err) w1)
      | (None, w1) \<Rightarrow> (0, std_Print g (''migration completed successfully'' @ [CHR 0x0A]) w1))"

section \<open>Going to a version\<close>

lemma mustParse_Sprint: "0 \<le> v \<Longrightarrow> v < 2 ^ 63 \<Longrightarrow> mustParseInt64 (Sprint_int v) = Inr v"
  using Sscan_Sprint [of v] by (simp add: mustParseInt64_def Sprint_int_def)

lemma runMigration_opened:
  assumes "goose_SetDialect g ''postgres'' w = (None, w1)" "LoadConfig h file0 = Inr cfg"
    and "OpenDB x (cfg_Database cfg) w1 = (Inr d, w2)"
  shows "runMigration g x h file0 dir command arg w =
    (fst (run_command g d dir command arg w2), sqlx_Close x d (snd (run_command g d dir command arg w2)))"
  by (simp add: runMigration_def assms split: prod.split)

lemma lower_to: "ToLower ''Up-To'' = ''up-to''" "ToLower ''up-to'' = ''up-to''" "ToLower ''down-to'' = ''down-to''"
  by code_simp+

lemma run_command_to:
  "ToLower command = ''up-to'' \<Longrightarrow> run_command g d dir command arg w = with_version arg (goose_UpTo g d dir) w"
  "ToLower command = ''down-to'' \<Longrightarrow> run_command g d dir command arg w = with_version arg (goose_DownTo g d dir) w"
  by (simp_all add: run_command_def)

section \<open>Zero-padded versions\<close>












section \<open>What the tool does with a version\<close>

text \<open>
  C30. Versions round trip: with the argument a version was printed as, \<open>up-to\<close> and \<open>down-to\<close>, in
  any letter case, migrate to exactly that version, close the database afterwards, and report the
  operation's error.
\<close>

theorem printed_version_round_trip:
  assumes "0 \<le> v" "v < 2 ^ 63"
    and "goose_SetDialect g ''postgres'' w = (None, w1)" "LoadConfig h file0 = Inr cfg"
    and "OpenDB x (cfg_Database cfg) w1 = (Inr d, w2)"
    and "(ToLower command, goTo) \<in> {(''up-to'', goose_UpTo g), (''down-to'', goose_DownTo g)}"
  shows "runMigration g x h file0 dir command (Sprint_int v) w =
    (map_option (Wrapf ''migration error'') (fst (goTo d dir v w2)), sqlx_Close x d (snd (goTo d dir v w2)))"
  using runMigration_opened [OF assms(3-5), of dir command "Sprint_int v"] mustParse_Sprint [OF assms(1,2)] assms(6)
  by (auto simp: run_command_to with_version_def migrated_def)


text \<open>A world that is the list of the operations done, on a database that opens.\<close>

definition log_goose :: "(unit, string list) goose" where
  "log_goose =
     \<lparr>goose_SetDialect = (\<lambda>s w. (None, w)), goose_Up = (\<lambda>d s w. (None, w @ [''up''])),
      goose_Down = (\<lambda>d s w. (None, w @ [''down''])), goose_Redo = (\<lambda>d s w. (None, w @ [''redo''])),
      goose_Reset = (\<lambda>d s w. (None, w @ [''reset''])), goose_Status = (\<lambda>d s w. (None, w @ [''status''])),
      goose_GetDBVersion = (\<lambda>d w. (Inr 0, w)), goose_UpTo = (\<lambda>d s v w. (None, w @ [''up-to '' @ Sprint_int v])),
      goose_DownTo = (\<lambda>d s v w. (None, w @ [''down-to '' @ Sprint_int v])), std_Print = (\<lambda>s w. w @ [s])\<rparr>"

definition log_sqlx :: "(unit, string list) sqlx" where
  "log_sqlx =
     \<lparr>sqlx_Open = (\<lambda>s t w. (Inr (), w)), sqlx_Ping = (\<lambda>d w. (None, w)), sqlx_Close = (\<lambda>d w. w @ [''close'']),
      sqlx_SetMaxOpenConns = (\<lambda>i d w. w), sqlx_SetMaxIdleConns = (\<lambda>i d w. w),
      sqlx_SetConnMaxLifetime = (\<lambda>i d w. w), sqlx_SetConnMaxIdleTime = (\<lambda>i d w. w)\<rparr>"

lemma log_opens:
  "goose_SetDialect log_goose ''postgres'' w = (None, w)" "OpenDB log_sqlx cfg w = (Inr (), w)"
  "sqlx_Close log_sqlx () w = w @ [''close'']"
  "goose_UpTo log_goose () dir v w = (None, w @ [''up-to '' @ Sprint_int v])"
  "goose_DownTo log_goose () dir v w = (None, w @ [''down-to '' @ Sprint_int v])"
  by (simp_all add: log_goose_def log_sqlx_def OpenDB_def built_dsn_def Let_def)

theorem printed_version_round_trip_witness:
  "runMigration log_goose log_sqlx plain_loader [] ''db'' ''Up-To'' (Sprint_int 12) [] =
     (None, [''up-to '' @ Sprint_int 12, ''close''])"
proof -
  obtain cfg where "LoadConfig plain_loader [] = Inr cfg" using plain_loads by blast
  from printed_version_round_trip [OF _ _ log_opens(1) this log_opens(2), of 12 "''Up-To''" "goose_UpTo log_goose" "''db''" "[]"]
  show ?thesis by (simp add: log_opens lower_to del: ToLower.simps)
qed


end
