(* ===== verification/Ctx_Logger.thy ===== *)
theory Ctx_Logger
  imports Go_Scan Config
begin

text \<open>
  \<open>internal/ctxmeta/ctxmeta.go\<close> and \<open>internal/logger/logger.go\<close>: the values a request's context
  carries and the logger that adds them to its entries. Of \<open>log/slog\<close> the model has the level test
  and the attributes; an entry goes to its writer as a record, not as the text of the text handler.
\<close>

section \<open>Request values in the context\<close>

text \<open>The keys are of a type of the package's own, so no other package's values are met under them.\<close>

datatype meta_key = KeyRequestID | KeyUserID | KeyTraceID

datatype any_value = AnyString string | AnyInt64 int | AnyError go_error

text \<open>A context: what the libraries put there, and the values under the package's keys.\<close>

record 'c ctx =
  ctx_base :: 'c
  ctx_values :: "meta_key \<rightharpoonup> any_value"

definition WithValue :: "'c ctx \<Rightarrow> meta_key \<Rightarrow> any_value \<Rightarrow> 'c ctx" where
  "WithValue c k v = c\<lparr>ctx_values := (ctx_values c)(k \<mapsto> v)\<rparr>"

definition WithRequestID :: "'c ctx \<Rightarrow> string \<Rightarrow> 'c ctx" where
  "WithRequestID c i = WithValue c KeyRequestID (AnyString i)"

definition WithUserID :: "'c ctx \<Rightarrow> int \<Rightarrow> 'c ctx" where
  "WithUserID c i = WithValue c KeyUserID (AnyInt64 i)"

definition WithTraceID :: "'c ctx \<Rightarrow> string \<Rightarrow> 'c ctx" where
  "WithTraceID c i = WithValue c KeyTraceID (AnyString i)"

text \<open>The type assertions with their second result; a failed one gives the zero value.\<close>

fun as_string :: "any_value option \<Rightarrow> string \<times> bool" where
  "as_string (Some (AnyString s)) = (s, True)"
| "as_string _ = ([], False)"

fun as_int64 :: "any_value option \<Rightarrow> int \<times> bool" where
  "as_int64 (Some (AnyInt64 i)) = (i, True)"
| "as_int64 _ = (0, False)"

definition RequestID :: "'c ctx \<Rightarrow> string \<times> bool" where
  "RequestID c = (case as_string (ctx_values c KeyRequestID) of (v, ok) \<Rightarrow> (v, ok \<and> v \<noteq> []))"

definition UserID :: "'c ctx \<Rightarrow> int \<times> bool" where
  "UserID c = (case as_int64 (ctx_values c KeyUserID) of (v, ok) \<Rightarrow> (v, ok \<and> v \<noteq> 0))"

definition TraceID :: "'c ctx \<Rightarrow> string \<times> bool" where
  "TraceID c = (case as_string (ctx_values c KeyTraceID) of (v, ok) \<Rightarrow> (v, ok \<and> v \<noteq> []))"

text \<open>A value is read back under its own key and leaves the other keys alone.\<close>

lemma meta_reads_back [simp]:
  "RequestID (WithRequestID c i) = (i, i \<noteq> [])" "RequestID (WithUserID c n) = RequestID c"
  "RequestID (WithTraceID c i) = RequestID c"
  "UserID (WithUserID c n) = (n, n \<noteq> 0)" "UserID (WithRequestID c i) = UserID c" "UserID (WithTraceID c i) = UserID c"
  "TraceID (WithTraceID c i) = (i, i \<noteq> [])" "TraceID (WithRequestID c i) = TraceID c"
  "TraceID (WithUserID c n) = TraceID c"
  by (simp_all add: RequestID_def UserID_def TraceID_def WithRequestID_def WithUserID_def WithTraceID_def WithValue_def)

section \<open>The structured logger of the standard library\<close>

datatype writer = Stdout | Stderr | LogFile string

type_synonym attrs = "(string \<times> any_value) list"

record entry =
  entry_Level :: int
  entry_Msg :: string
  entry_Attrs :: attrs

record slog_Logger =
  slog_Level :: int
  slog_Writer :: writer
  slog_Attrs :: attrs

abbreviation LevelDebug :: int where "LevelDebug \<equiv> - 4"
abbreviation LevelInfo :: int where "LevelInfo \<equiv> 0"
abbreviation LevelWarn :: int where "LevelWarn \<equiv> 4"
abbreviation LevelError :: int where "LevelError \<equiv> 8"

definition slog_Default :: slog_Logger where
  "slog_Default = \<lparr>slog_Level = LevelInfo, slog_Writer = Stderr, slog_Attrs = []\<rparr>"

definition slog_With :: "slog_Logger \<Rightarrow> attrs \<Rightarrow> slog_Logger" where
  "slog_With l as = l\<lparr>slog_Attrs := slog_Attrs l @ as\<rparr>"

definition slog_Log ::
  "(writer \<Rightarrow> entry \<Rightarrow> 'w \<Rightarrow> 'w) \<Rightarrow> slog_Logger \<Rightarrow> int \<Rightarrow> string \<Rightarrow> attrs \<Rightarrow> 'w \<Rightarrow> 'w" where
  "slog_Log put l lvl msg as w =
     (if slog_Level l \<le> lvl
      then put (slog_Writer l) \<lparr>entry_Level = lvl, entry_Msg = msg, entry_Attrs = slog_Attrs l @ as\<rparr> w
      else w)"

section \<open>The program's logger\<close>

record Logger =
  Logger_slog :: "slog_Logger option"

definition parseLevel :: "string \<Rightarrow> int" where
  "parseLevel s0 =
     (let s = ToLower (TrimSpace s0)
      in if s = ''debug'' then LevelDebug
         else if s = ''info'' \<or> s = [] then LevelInfo
         else if s = ''warn'' \<or> s = ''warning'' then LevelWarn
         else if s = ''error'' then LevelError
         else LevelInfo)"

definition NewWithWriter :: "writer option \<Rightarrow> config_Logger \<Rightarrow> Logger" where
  "NewWithWriter w logCfg =
     (let out = (case w of None \<Rightarrow> Stdout | Some f \<Rightarrow> f)
      in \<lparr>Logger_slog = Some \<lparr>slog_Level = parseLevel (logger_Level logCfg), slog_Writer = out, slog_Attrs = []\<rparr>\<rparr>)"

definition NewLogger :: "config_Logger \<Rightarrow> Logger" where
  "NewLogger logCfg =
     \<lparr>Logger_slog = Some \<lparr>slog_Level = parseLevel (logger_Level logCfg), slog_Writer = Stdout, slog_Attrs = []\<rparr>\<rparr>"

text \<open>\<open>withCtx\<close>: a nil logger and a nil context are \<open>None\<close>.\<close>

definition ctx_attrs :: "'c ctx \<Rightarrow> attrs" where
  "ctx_attrs c =
     (case RequestID c of (rid, ok) \<Rightarrow> if ok then [(''request_id'', AnyString rid)] else []) @
     (case UserID c of (uid, ok) \<Rightarrow> if ok then [(''user_id'', AnyInt64 uid)] else []) @
     (case TraceID c of (tid, ok) \<Rightarrow> if ok then [(''trace_id'', AnyString tid)] else [])"

definition withCtx :: "Logger option \<Rightarrow> 'c ctx option \<Rightarrow> slog_Logger" where
  "withCtx l c =
     (case Option.bind l Logger_slog of
        None \<Rightarrow> slog_Default
      | Some sl \<Rightarrow>
          (case c of
             None \<Rightarrow> sl
           | Some c' \<Rightarrow> if ctx_attrs c' = [] then sl else slog_With sl (ctx_attrs c')))"

definition InfoContext ::
  "(writer \<Rightarrow> entry \<Rightarrow> 'w \<Rightarrow> 'w) \<Rightarrow> Logger option \<Rightarrow> 'c ctx option \<Rightarrow> string \<Rightarrow> attrs \<Rightarrow> 'w \<Rightarrow> 'w" where
  "InfoContext put l c msg v w = slog_Log put (withCtx l c) LevelInfo msg v w"

definition ErrorContext ::
  "(writer \<Rightarrow> entry \<Rightarrow> 'w \<Rightarrow> 'w) \<Rightarrow> Logger option \<Rightarrow> 'c ctx option \<Rightarrow> string \<Rightarrow> attrs \<Rightarrow> 'w \<Rightarrow> 'w" where
  "ErrorContext put l c msg v w = slog_Log put (withCtx l c) LevelError msg v w"

definition DebugContext ::
  "(writer \<Rightarrow> entry \<Rightarrow> 'w \<Rightarrow> 'w) \<Rightarrow> Logger option \<Rightarrow> 'c ctx option \<Rightarrow> string \<Rightarrow> attrs \<Rightarrow> 'w \<Rightarrow> 'w" where
  "DebugContext put l c msg v w = slog_Log put (withCtx l c) LevelDebug msg v w"

definition WarnContext ::
  "(writer \<Rightarrow> entry \<Rightarrow> 'w \<Rightarrow> 'w) \<Rightarrow> Logger option \<Rightarrow> 'c ctx option \<Rightarrow> string \<Rightarrow> attrs \<Rightarrow> 'w \<Rightarrow> 'w" where
  "WarnContext put l c msg v w = slog_Log put (withCtx l c) LevelWarn msg v w"

lemma withCtx_level: "slog_Level (withCtx (Some \<lparr>Logger_slog = Some sl\<rparr>) c) = slog_Level sl"
  and withCtx_writer: "slog_Writer (withCtx (Some \<lparr>Logger_slog = Some sl\<rparr>) c) = slog_Writer sl"
  and withCtx_attrs: "slog_Attrs (withCtx (Some \<lparr>Logger_slog = Some sl\<rparr>) (Some c')) = slog_Attrs sl @ ctx_attrs c'"
  by (simp_all add: withCtx_def slog_With_def split: option.split)

text \<open>No level that can be configured keeps an error out of the log, or lets debug entries into it unless it is \<open>debug\<close>.\<close>

lemma parseLevel_bounds: "LevelDebug \<le> parseLevel s" "parseLevel s \<le> LevelError"
  by (simp_all add: parseLevel_def Let_def)

section \<open>The text of a duration\<close>

text \<open>\<open>time.Duration.String\<close>: a fraction loses its trailing zeros.\<close>

definition fmtFrac :: "nat \<Rightarrow> nat \<Rightarrow> string" where
  "fmtFrac prec v =
     (let ds = digits_of (v mod 10 ^ prec);
          padded = replicate (prec - length ds) CHR ''0'' @ ds;
          cutz = rev (dropWhile (\<lambda>c. c = CHR ''0'') (rev padded))
      in if cutz = [] then [] else CHR ''.'' # cutz)"

definition Duration_String :: "int \<Rightarrow> string" where
  "Duration_String d =
     (let u = nat \<bar>d\<bar>;
          sgn = (if d < 0 then ''-'' else []);
          secs = u div 10 ^ 9
      in if u = 0 then ''0s''
         else if u < 10 ^ 3 then sgn @ digits_of u @ ''ns''
         else if u < 10 ^ 6 then sgn @ digits_of (u div 10 ^ 3) @ fmtFrac 3 u @ bytes [0xC2, 0xB5] @ ''s''
         else if u < 10 ^ 9 then sgn @ digits_of (u div 10 ^ 6) @ fmtFrac 6 u @ ''ms''
         else sgn @
           (if secs < 60 then []
            else if secs < 3600 then digits_of (secs div 60) @ ''m''
            else digits_of (secs div 3600) @ ''h'' @ digits_of (secs div 60 mod 60) @ ''m'') @
           digits_of (secs mod 60) @ fmtFrac 9 u @ ''s'')"

end
