(* ===== verification/Grpc_Middleware.thy ===== *)
theory Grpc_Middleware
  imports Ctx_Logger Local_Behaviour
begin

text \<open>
  \<open>internal/delivery/grpc/interceptors\<close>: the two interceptors every call passes, composed with the
  handlers as \<open>run\<close> hands them to \<open>grpc.NewServer\<close>. gRPC, the generator of identifiers, the clock
  and the log's writer are parameters that act on a part of the world of their own.
\<close>

section \<open>What the interceptors call\<close>

text \<open>
  \<open>FromIncomingContext\<close> gives \<open>md.Get\<close> of the metadata that came with the call, \<open>peer_FromContext\<close>
  the text of the peer's address, \<open>None\<close> when there is no peer.
\<close>

record ('c, 'h) grpc_api =
  FromIncomingContext :: "'c \<Rightarrow> (string \<Rightarrow> string list) option"
  SetHeader :: "'c \<Rightarrow> (string \<times> string) list \<Rightarrow> 'h \<Rightarrow> go_error option \<times> 'h"
  peer_FromContext :: "'c \<Rightarrow> string option"
  status_Code :: "go_error option \<Rightarrow> string"
  uuid_NewString :: "'h \<Rightarrow> string \<times> 'h"
  time_Now :: "'h \<Rightarrow> int \<times> 'h"
  put_entry :: "writer \<Rightarrow> entry \<Rightarrow> 'h \<Rightarrow> 'h"

text \<open>A handler that panics has no result, \<open>None\<close>; nothing in the program recovers it.\<close>

type_synonym ('c, 'q, 'a, 'w) handler = "'c ctx \<Rightarrow> 'q \<Rightarrow> 'w \<Rightarrow> 'a result option \<times> 'w"

type_synonym ('c, 'q, 'a, 'w) interceptor =
  "'c ctx \<Rightarrow> 'q \<Rightarrow> string \<Rightarrow> ('c, 'q, 'a, 'w) handler \<Rightarrow> 'w \<Rightarrow> 'a result option \<times> 'w"

section \<open>The request id\<close>

abbreviation requestIDHeader :: string where
  "requestIDHeader \<equiv> ''x-request-id''"

definition incoming_id :: "(string \<Rightarrow> string list) option \<Rightarrow> string" where
  "incoming_id md =
     (case md of
        None \<Rightarrow> []
      | Some get \<Rightarrow> (let vals = get requestIDHeader in if vals \<noteq> [] \<and> hd vals \<noteq> [] then hd vals else []))"

definition UnaryRequestIDInterceptor :: "('c, 'h) grpc_api \<Rightarrow> ('c, 'q, 'a, 'h \<times> 'v) interceptor" where
  "UnaryRequestIDInterceptor g c req m h w =
     (let rid0 = incoming_id (FromIncomingContext g (ctx_base c));
          (rid, w1) = (if rid0 = [] then uuid_NewString g (fst w) else (rid0, fst w));
          c' = WithRequestID c rid;
          w2 = snd (SetHeader g (ctx_base c') [(requestIDHeader, rid)] w1)
      in h c' req (w2, snd w))"

section \<open>The log of calls\<close>

definition call_fields ::
  "('c, 'h) grpc_api \<Rightarrow> string \<Rightarrow> int \<Rightarrow> go_error option \<Rightarrow> string \<Rightarrow> attrs" where
  "call_fields g m elapsed err addr =
     [(''method'', AnyString m), (''duration'', AnyString (Duration_String elapsed)),
      (''grpc_code'', AnyString (status_Code g err)), (''remote_addr'', AnyString addr)] @
     (case err of None \<Rightarrow> [] | Some e \<Rightarrow> [(''error'', AnyError e)])"

definition UnaryLoggingInterceptor ::
  "('c, 'h) grpc_api \<Rightarrow> Logger option \<Rightarrow> ('c, 'q, 'a, 'h \<times> 'v) interceptor" where
  "UnaryLoggingInterceptor g log c req m h w =
     (case time_Now g (fst w) of
        (start, w1) \<Rightarrow>
          (case h c req (w1, snd w) of
             (None, w2) \<Rightarrow> (None, w2)
           | (Some res, w2) \<Rightarrow>
               (case time_Now g (fst w2) of
                  (stop, w3) \<Rightarrow>
                    (let err = (case res of Inl e \<Rightarrow> Some e | Inr a \<Rightarrow> None)
                     in case peer_FromContext g (ctx_base c) of
                          None \<Rightarrow> (None, (w3, snd w2))
                        | Some addr \<Rightarrow>
                            (let fields = call_fields g m (stop - start) err addr;
                                 w4 = (if err \<noteq> None
                                   then ErrorContext (put_entry g) log (Some c) ''gRPC request failed'' fields w3
                                   else InfoContext (put_entry g) log (Some c) ''gRPC request handled'' fields w3)
                             in (Some res, (w4, snd w2)))))))"

section \<open>The server behind the interceptors\<close>

text \<open>\<open>grpc.ChainUnaryInterceptor\<close> calls the first interceptor with the rest as its handler.\<close>

definition lawful_chain ::
  "(('c, 'q, 'a, 'w) interceptor list \<Rightarrow> ('c, 'q, 'a, 'w) interceptor) \<Rightarrow> bool" where
  "lawful_chain chain \<longleftrightarrow>
     (\<forall>c req m h. chain [] c req m h = h c req) \<and>
     (\<forall>i is c req m h. chain (i # is) c req m h = i c req m (\<lambda>c' req'. chain is c' req' m h))"

text \<open>The handlers as gRPC calls them; they do not look at the context.\<close>

fun answer_result :: "response \<Rightarrow> response result" where
  "answer_result (Failed err) = Inl err"
| "answer_result r = Inr r"

definition server_handler :: "'v Server \<Rightarrow> ('c, request, response, 'h \<times> 'v) handler" where
  "server_handler srv c req w =
     (case serve srv req (snd w) of (r, v) \<Rightarrow> (Some (answer_result r), (fst w, v)))"

definition grpc_calls ::
  "(('c, request, response, 'h \<times> 'v) interceptor list \<Rightarrow> ('c, request, response, 'h \<times> 'v) interceptor) \<Rightarrow>
    ('c, 'h) grpc_api \<Rightarrow> Logger option \<Rightarrow> 'v Server \<Rightarrow> 'c ctx \<Rightarrow> request \<Rightarrow> string \<Rightarrow> 'h \<times> 'v \<Rightarrow>
    response result option \<times> 'h \<times> 'v" where
  "grpc_calls chain g log srv c req m w =
     chain [UnaryRequestIDInterceptor g, UnaryLoggingInterceptor g log] c req m (server_handler srv) w"

lemma grpc_calls_eq:
  "lawful_chain chain \<Longrightarrow> grpc_calls chain g log srv c req m w =
    UnaryRequestIDInterceptor g c req m
      (\<lambda>c' req'. UnaryLoggingInterceptor g log c' req' m (server_handler srv)) w"
  by (simp add: grpc_calls_def lawful_chain_def)

text \<open>The logger that \<open>run\<close> makes: it writes to the configured file, without one to the standard output.\<close>

definition run_logger :: "config_Logger \<Rightarrow> Logger" where
  "run_logger lc =
     (if logger_File lc \<noteq> [] then NewWithWriter (Some (LogFile (logger_File lc))) lc else NewLogger lc)"

definition log_target :: "config_Logger \<Rightarrow> writer" where
  "log_target lc = (if logger_File lc \<noteq> [] then LogFile (logger_File lc) else Stdout)"

lemma run_logger_eq:
  "run_logger lc = \<lparr>Logger_slog = Some \<lparr>slog_Level = parseLevel (logger_Level lc), slog_Writer = log_target lc, slog_Attrs = []\<rparr>\<rparr>"
  by (simp add: run_logger_def NewWithWriter_def NewLogger_def log_target_def)

text \<open>
  What is relied on: the log is a list that only \<open>put_entry\<close> extends, the header is one that only
  \<open>SetHeader\<close> extends, entirely or not at all, and a generated identifier is not empty.
\<close>

definition lawful_grpc :: "('c, 'h) grpc_api \<Rightarrow> ('h \<Rightarrow> (writer \<times> entry) list) \<Rightarrow> ('h \<Rightarrow> (string \<times> string) list) \<Rightarrow> bool" where
  "lawful_grpc g logged sent \<longleftrightarrow>
     (\<forall>o0 e h. logged (put_entry g o0 e h) = logged h @ [(o0, e)] \<and> sent (put_entry g o0 e h) = sent h) \<and>
     (\<forall>b ps h. logged (snd (SetHeader g b ps h)) = logged h \<and>
       sent (snd (SetHeader g b ps h)) = (if fst (SetHeader g b ps h) = None then sent h @ ps else sent h)) \<and>
     (\<forall>h. fst (uuid_NewString g h) \<noteq> [] \<and> logged (snd (uuid_NewString g h)) = logged h \<and>
       sent (snd (uuid_NewString g h)) = sent h) \<and>
     (\<forall>h. logged (snd (time_Now g h)) = logged h \<and> sent (snd (time_Now g h)) = sent h)"

lemma lawful_grpcD:
  assumes "lawful_grpc g logged sent"
  shows "logged (put_entry g o0 e h) = logged h @ [(o0, e)]" "sent (put_entry g o0 e h) = sent h"
    "logged (snd (SetHeader g b ps h)) = logged h"
    "sent (snd (SetHeader g b ps h)) = (if fst (SetHeader g b ps h) = None then sent h @ ps else sent h)"
    "fst (uuid_NewString g h) \<noteq> []" "logged (snd (uuid_NewString g h)) = logged h"
    "sent (snd (uuid_NewString g h)) = sent h" "logged (snd (time_Now g h)) = logged h" "sent (snd (time_Now g h)) = sent h"
  using assms unfolding lawful_grpc_def by blast+

text \<open>The entry a call leaves, with the level and the text by its outcome.\<close>

definition call_entry :: "('c, 'h) grpc_api \<Rightarrow> string \<Rightarrow> string \<Rightarrow> int \<Rightarrow> string \<Rightarrow> response \<Rightarrow> entry" where
  "call_entry g rid m elapsed addr r =
     (let err = (case answer_result r of Inl e \<Rightarrow> Some e | Inr a \<Rightarrow> None)
      in \<lparr>entry_Level = (if err = None then LevelInfo else LevelError),
          entry_Msg = (if err = None then ''gRPC request handled'' else ''gRPC request failed''),
          entry_Attrs = (''request_id'', AnyString rid) # call_fields g m elapsed err addr\<rparr>)"

lemma ctx_attrs_fresh:
  "ctx_values c = Map.empty \<Longrightarrow> rid \<noteq> [] \<Longrightarrow> ctx_attrs (WithRequestID c rid) = [(''request_id'', AnyString rid)]"
  by (simp add: ctx_attrs_def WithRequestID_def WithValue_def RequestID_def UserID_def TraceID_def)

lemma log_put:
  assumes "lawful_grpc g logged sent" "ctx_values c = Map.empty" "rid \<noteq> []"
  shows "logged (slog_Log (put_entry g) (withCtx (Some \<lparr>Logger_slog = Some sl\<rparr>) (Some (WithRequestID c rid))) lvl msg as h) =
      logged h @ (if slog_Level sl \<le> lvl
        then [(slog_Writer sl, \<lparr>entry_Level = lvl, entry_Msg = msg,
          entry_Attrs = slog_Attrs sl @ (''request_id'', AnyString rid) # as\<rparr>)] else [])"
    "sent (slog_Log (put_entry g) l lvl msg as h) = sent h"
  using lawful_grpcD(1,2) [OF assms(1)]
  by (simp_all add: slog_Log_def withCtx_level withCtx_writer withCtx_attrs ctx_attrs_fresh [OF assms(2,3)])

lemma serve_result: "(case answer_result r of Inl e \<Rightarrow> Some e | Inr a \<Rightarrow> None) = None \<longleftrightarrow> (\<forall>e. r \<noteq> Failed e)"
  by (cases r) simp_all

lemma entry_same [simp]: "e\<lparr>entry_Attrs := entry_Attrs e\<rparr> = (e :: entry)"
  by (cases e) simp

text \<open>One call through the logging interceptor.\<close>

lemma logging_call:
  assumes "lawful_grpc g logged sent" "ctx_values c = Map.empty" "rid \<noteq> []"
    and "peer_FromContext g (ctx_base c) = Some addr"
  shows "\<exists>h' elapsed.
    UnaryLoggingInterceptor g (Some \<lparr>Logger_slog = Some sl\<rparr>) (WithRequestID c rid) req m (server_handler srv) (h, v) =
      (Some (answer_result (fst (serve srv req v))), (h', snd (serve srv req v))) \<and>
    sent h' = sent h \<and>
    logged h' = logged h @
      (let e = call_entry g rid m elapsed addr (fst (serve srv req v))
       in if slog_Level sl \<le> entry_Level e
          then [(slog_Writer sl, e\<lparr>entry_Attrs := slog_Attrs sl @ entry_Attrs e\<rparr>)] else [])"
proof -
  obtain start h1 where t0: "time_Now g h = (start, h1)" by fastforce
  obtain stop h3 where t1: "time_Now g h1 = (stop, h3)" by fastforce
  obtain r v1 where r: "serve srv req v = (r, v1)" by fastforce
  from lawful_grpcD(8,9) [OF assms(1), of h] lawful_grpcD(8,9) [OF assms(1), of h1] t0 t1
  have same: "logged h3 = logged h" "sent h3 = sent h" by simp_all
  have base: "ctx_base (WithRequestID c rid) = ctx_base c"
    by (simp add: WithRequestID_def WithValue_def)
  show ?thesis
  proof (cases "answer_result r")
    case (Inl err)
    show ?thesis
      by (simp add: UnaryLoggingInterceptor_def server_handler_def t0 t1 r base assms(4) ErrorContext_def
          log_put [OF assms(1-3)] same call_entry_def Let_def Inl) blast
  next
    case (Inr a)
    show ?thesis
      by (simp add: UnaryLoggingInterceptor_def server_handler_def t0 t1 r base assms(4) InfoContext_def
          log_put [OF assms(1-3)] same call_entry_def Let_def Inr) blast
  qed
qed

text \<open>What the first interceptor passes on.\<close>

lemma request_id_call:
  assumes "lawful_chain chain" "lawful_grpc g logged sent"
  obtains rid h1 where "grpc_calls chain g log srv c req m (h, v) =
      UnaryLoggingInterceptor g log (WithRequestID c rid) req m (server_handler srv) (h1, v)"
    and "rid \<noteq> []" "incoming_id (FromIncomingContext g (ctx_base c)) \<in> {[], rid}"
    and "logged h1 = logged h" "sent h1 = sent h \<or> sent h1 = sent h @ [(requestIDHeader, rid)]"
    and "ctx_base (WithRequestID c rid) = ctx_base c"
proof -
  let ?rid0 = "incoming_id (FromIncomingContext g (ctx_base c))"
  obtain rid w1 where rid: "(if ?rid0 = [] then uuid_NewString g h else (?rid0, h)) = (rid, w1)" by fastforce
  with lawful_grpcD(5-7) [OF assms(2), of h] have w1: "rid \<noteq> []" "?rid0 \<in> {[], rid}" "logged w1 = logged h" "sent w1 = sent h"
    by (auto split: if_splits)
  let ?w2 = "snd (SetHeader g (ctx_base c) [(requestIDHeader, rid)] w1)"
  have base: "ctx_base (WithRequestID c rid) = ctx_base c"
    by (simp add: WithRequestID_def WithValue_def)
  have step: "grpc_calls chain g log srv c req m (h, v) =
      UnaryLoggingInterceptor g log (WithRequestID c rid) req m (server_handler srv) (?w2, v)"
    unfolding grpc_calls_eq [OF assms(1)] UnaryRequestIDInterceptor_def Let_def fst_conv snd_conv rid
    by (simp add: base)
  have w2: "logged ?w2 = logged h" "sent ?w2 = sent h \<or> sent ?w2 = sent h @ [(requestIDHeader, rid)]"
    using lawful_grpcD(3,4) [OF assms(2)] w1(3,4) by auto
  show thesis
    by (rule that [OF step w1(1,2) w2 base])
qed

text \<open>
  C34. The interceptors are transparent and log every call once, for a context with a peer: the client
  gets what the handler returns, computed in the same state of the server, under a request id that is not empty and is the
  one the client sent if it sent one; that id is what is put in the header, and the one entry of the
  log carries it. An error is logged at every level that can be configured, a success only at
  \<open>debug\<close> and \<open>info\<close>.
\<close>

theorem calls_logged_once:
  assumes "lawful_chain chain" "lawful_grpc g logged sent"
    and "ctx_values c = Map.empty" "peer_FromContext g (ctx_base c) = Some addr"
  shows "\<exists>h' rid elapsed.
    grpc_calls chain g (Some (run_logger lc)) srv c req m (h, v) =
      (Some (answer_result (fst (serve srv req v))), (h', snd (serve srv req v))) \<and>
    rid \<noteq> [] \<and> (incoming_id (FromIncomingContext g (ctx_base c)) \<in> {[], rid}) \<and>
    (sent h' = sent h \<or> sent h' = sent h @ [(requestIDHeader, rid)]) \<and>
    logged h' = logged h @
      (let e = call_entry g rid m elapsed addr (fst (serve srv req v))
       in if entry_Level e = LevelError \<or> parseLevel (logger_Level lc) \<le> LevelInfo then [(log_target lc, e)] else [])"
proof -
  let ?sl = "\<lparr>slog_Level = parseLevel (logger_Level lc), slog_Writer = log_target lc, slog_Attrs = []\<rparr>"
  obtain rid h1 where first: "grpc_calls chain g (Some (run_logger lc)) srv c req m (h, v) =
      UnaryLoggingInterceptor g (Some (run_logger lc)) (WithRequestID c rid) req m (server_handler srv) (h1, v)"
    and h1: "rid \<noteq> []" "incoming_id (FromIncomingContext g (ctx_base c)) \<in> {[], rid}" "logged h1 = logged h"
      "sent h1 = sent h \<or> sent h1 = sent h @ [(requestIDHeader, rid)]"
    by (rule request_id_call [OF assms(1,2)]) (rule that)
  from logging_call [OF assms(2,3) h1(1) assms(4), of ?sl req m srv h1 v] obtain h' elapsed where
    call: "UnaryLoggingInterceptor g (Some \<lparr>Logger_slog = Some ?sl\<rparr>) (WithRequestID c rid) req m (server_handler srv) (h1, v) =
      (Some (answer_result (fst (serve srv req v))), (h', snd (serve srv req v)))" and
    rest: "sent h' = sent h1" "logged h' = logged h1 @
      (let e = call_entry g rid m elapsed addr (fst (serve srv req v))
       in if parseLevel (logger_Level lc) \<le> entry_Level e then [(log_target lc, e)] else [])"
    by (auto simp: Let_def cong: if_cong)
  have "grpc_calls chain g (Some (run_logger lc)) srv c req m (h, v) =
      (Some (answer_result (fst (serve srv req v))), (h', snd (serve srv req v)))"
    using first call by (simp add: run_logger_eq)
  moreover have "entry_Level e = LevelError \<or> parseLevel (logger_Level lc) \<le> LevelInfo \<longleftrightarrow>
      parseLevel (logger_Level lc) \<le> entry_Level e"
    if "e = call_entry g rid m elapsed addr (fst (serve srv req v))" for e
    using that parseLevel_bounds(2) [of "logger_Level lc"] by (auto simp: call_entry_def Let_def)
  ultimately show ?thesis
    using h1 rest by (intro exI [of _ h'] exI [of _ rid] exI [of _ elapsed]) (simp add: Let_def)
qed

text \<open>
  The logging interceptor relies on the peer: without one in the context every call panics, but
  only after the handler has run, so an attempt is counted and a list edited all the same, and
  nothing is logged.
\<close>

theorem no_peer_panics:
  assumes "lawful_chain chain" "lawful_grpc g logged sent" "peer_FromContext g (ctx_base c) = None"
  shows "\<exists>h'. grpc_calls chain g log srv c req m (h, v) = (None, (h', snd (serve srv req v))) \<and> logged h' = logged h"
proof -
  obtain rid h1 where first: "grpc_calls chain g log srv c req m (h, v) =
      UnaryLoggingInterceptor g log (WithRequestID c rid) req m (server_handler srv) (h1, v)"
    and h1: "logged h1 = logged h" "ctx_base (WithRequestID c rid) = ctx_base c"
    by (rule request_id_call [OF assms(1,2)]) (rule that)
  obtain start h2 where t0: "time_Now g h1 = (start, h2)" by fastforce
  obtain stop h3 where t1: "time_Now g h2 = (stop, h3)" by fastforce
  obtain r v1 where r: "serve srv req v = (r, v1)" by fastforce
  from lawful_grpcD(8) [OF assms(2), of h1] lawful_grpcD(8) [OF assms(2), of h2] t0 t1 h1(1)
  have "logged h3 = logged h" by simp
  then show ?thesis
    by (simp add: first UnaryLoggingInterceptor_def server_handler_def Let_def h1(2) t0 t1 r assms(3))
qed

section \<open>An instance\<close>

text \<open>A context is the id that came with the call and whether there is a peer; the host keeps the log and the header.\<close>

fun chain_calls :: "('c, 'q, 'a, 'w) interceptor list \<Rightarrow> ('c, 'q, 'a, 'w) interceptor" where
  "chain_calls [] c req m h = h c req"
| "chain_calls (i # is) c req m h = i c req m (\<lambda>c' req'. chain_calls is c' req' m h)"

lemma chain_calls_lawful: "lawful_chain chain_calls"
  by (simp add: lawful_chain_def)

type_synonym sample_host = "(writer \<times> entry) list \<times> (string \<times> string) list"

definition sample_grpc :: "(string \<times> bool, sample_host) grpc_api" where
  "sample_grpc =
     \<lparr>FromIncomingContext = (\<lambda>b. Some (\<lambda>k. if k = requestIDHeader \<and> fst b \<noteq> [] then [fst b] else [])),
      SetHeader = (\<lambda>b ps h. (None, (fst h, snd h @ ps))),
      peer_FromContext = (\<lambda>b. if snd b then Some ''192.0.2.1:40000'' else None),
      status_Code = (\<lambda>e. if e = None then ''OK'' else ''Unknown''),
      uuid_NewString = (\<lambda>h. (''00000000-0000-4000-8000-000000000000'', h)),
      time_Now = (\<lambda>h. (0, h)),
      put_entry = (\<lambda>o0 e h. (fst h @ [(o0, e)], snd h))\<rparr>"

lemma sample_grpc_lawful: "lawful_grpc sample_grpc fst snd"
  by (simp add: lawful_grpc_def sample_grpc_def)

definition sample_ctx :: "string \<Rightarrow> bool \<Rightarrow> (string \<times> bool) ctx" where
  "sample_ctx rid peer = \<lparr>ctx_base = (rid, peer), ctx_values = Map.empty\<rparr>"

lemma sample_simps [simp]:
  "ctx_values (sample_ctx rid p) = Map.empty" "ctx_base (sample_ctx rid p) = (rid, p)"
  "peer_FromContext sample_grpc (b, True) = Some ''192.0.2.1:40000''"
  "peer_FromContext sample_grpc (b, False) = None"
  "incoming_id (FromIncomingContext sample_grpc (rid, p)) = rid"
  by (simp_all add: sample_ctx_def sample_grpc_def incoming_id_def)

theorem calls_logged_once_witness:
  "\<exists>h' e. grpc_calls chain_calls sample_grpc (Some (run_logger \<lparr>logger_Level = ''error'', logger_File = []\<rparr>)) (NewServer None None)
      (sample_ctx ''r1'' True) (ResetBucket \<lparr>reset_Login = ''u'', reset_Password = [], reset_Ip = []\<rparr>) ''/m'' (([], []), local_init) =
      (Some (Inl (Sentinel (GrpcErr ErrRateLimiterNotConfigured))), (h', local_init)) \<and>
    fst h' = [(Stdout, e)] \<and> hd (entry_Attrs e) = (''request_id'', AnyString ''r1'')"
proof -
  let ?req = "ResetBucket \<lparr>reset_Login = ''u'', reset_Password = [], reset_Ip = []\<rparr>"
  have served: "serve (NewServer None None) ?req local_init =
      (Failed (Sentinel (GrpcErr ErrRateLimiterNotConfigured)), local_init)"
    by (simp add: serve.simps Server_ResetBucket_def NewServer_def)
  from calls_logged_once [OF chain_calls_lawful sample_grpc_lawful, of "sample_ctx ''r1'' True" "''192.0.2.1:40000''"
      "\<lparr>logger_Level = ''error'', logger_File = []\<rparr>" "NewServer None None" ?req "''/m''" "([], [])" local_init]
  show ?thesis
    by (auto simp: served Let_def log_target_def call_entry_def)
qed

theorem no_peer_panics_witness:
  "fst (grpc_calls chain_calls sample_grpc None (NewServer None None) (sample_ctx [] False)
     (ResetBucket \<lparr>reset_Login = ''u'', reset_Password = [], reset_Ip = []\<rparr>) ''/m'' (([], []), local_init)) = None"
  using no_peer_panics [OF chain_calls_lawful sample_grpc_lawful, of "sample_ctx [] False" None "NewServer None None"
      "ResetBucket \<lparr>reset_Login = ''u'', reset_Password = [], reset_Ip = []\<rparr>" "''/m''" "([], [])" local_init]
  by auto

end
