(* ===== verification/Client_Cli.thy ===== *)
theory Client_Cli
  imports Local_Counting
begin

text \<open>
  \<open>internal/abfclient/client.go\<close> and \<open>cmd/abfctl\<close>: the client of the service and the command line
  over it. gRPC's connections and the generated stub, cobra and the terminal are parameters; which
  request a command makes of its flags, the hooks around it and what it prints are the files' own.
  A world is a pair: the network with the terminal, and the state of the server.
\<close>

section \<open>The client\<close>

text \<open>The generated stub of a connection; a call can change both parts of the world.\<close>

record 'w pb_Client =
  pb_CheckAttempt :: "CheckAttemptRequest \<Rightarrow> 'w \<Rightarrow> CheckAttemptResponse result \<times> 'w"
  pb_ResetBucket :: "ResetBucketRequest \<Rightarrow> 'w \<Rightarrow> ResetBucketResponse result \<times> 'w"
  pb_AddToWhitelist :: "ManageCIDRRequest \<Rightarrow> 'w \<Rightarrow> ManageCIDRResponse result \<times> 'w"
  pb_RemoveFromWhitelist :: "ManageCIDRRequest \<Rightarrow> 'w \<Rightarrow> ManageCIDRResponse result \<times> 'w"
  pb_AddToBlacklist :: "ManageCIDRRequest \<Rightarrow> 'w \<Rightarrow> ManageCIDRResponse result \<times> 'w"
  pb_RemoveFromBlacklist :: "ManageCIDRRequest \<Rightarrow> 'w \<Rightarrow> ManageCIDRResponse result \<times> 'w"

record ('k, 'n, 'v) grpc_conn =
  grpc_NewClient :: "string \<Rightarrow> 'n \<Rightarrow> 'k result \<times> 'n"
  conn_Close :: "'k \<Rightarrow> 'n \<Rightarrow> go_error option \<times> 'n"
  NewAntiBruteforceClient :: "'k \<Rightarrow> ('n \<times> 'v) pb_Client"

record ('k, 'n, 'v) Client =
  client_conn :: "'k option"
  client_pb :: "('n \<times> 'v) pb_Client"

definition New :: "('k, 'n, 'v) grpc_conn \<Rightarrow> string \<Rightarrow> 'n \<times> 'v \<Rightarrow> ('k, 'n, 'v) Client result \<times> 'n \<times> 'v" where
  "New g address w =
     (case grpc_NewClient g address (fst w) of
        (Inl err, n) \<Rightarrow> (Inl (Wrapf (''abfclient: dial '' @ address) err), (n, snd w))
      | (Inr k, n) \<Rightarrow> (Inr \<lparr>client_conn = Some k, client_pb = NewAntiBruteforceClient g k\<rparr>, (n, snd w)))"

definition Client_Close ::
  "('k, 'n, 'v) grpc_conn \<Rightarrow> ('k, 'n, 'v) Client option \<Rightarrow> 'n \<times> 'v \<Rightarrow> go_error option \<times> 'n \<times> 'v" where
  "Client_Close g c w =
     (case Option.bind c client_conn of
        None \<Rightarrow> (None, w)
      | Some k \<Rightarrow> (case conn_Close g k (fst w) of (err, n) \<Rightarrow> (err, (n, snd w))))"

definition Client_Check ::
  "('k, 'n, 'v) Client \<Rightarrow> string \<Rightarrow> string \<Rightarrow> string \<Rightarrow> 'n \<times> 'v \<Rightarrow> bool result \<times> 'n \<times> 'v" where
  "Client_Check c login password ip w =
     (case pb_CheckAttempt (client_pb c) \<lparr>req_Login = login, req_Password = password, req_Ip = ip\<rparr> w of
        (Inl err, w1) \<Rightarrow> (Inl err, w1)
      | (Inr resp, w1) \<Rightarrow> (Inr (resp_Ok resp), w1))"

text \<open>The error of an answer, for the calls whose answer holds nothing else.\<close>

definition only_error :: "'a result \<times> 'w \<Rightarrow> go_error option \<times> 'w" where
  "only_error r = (case r of (Inl err, w) \<Rightarrow> (Some err, w) | (Inr a, w) \<Rightarrow> (None, w))"

definition Client_ResetBucket :: "('k, 'n, 'v) Client \<Rightarrow> string \<Rightarrow> string \<Rightarrow> 'n \<times> 'v \<Rightarrow> go_error option \<times> 'n \<times> 'v" where
  "Client_ResetBucket c login ip w =
     only_error (pb_ResetBucket (client_pb c) \<lparr>reset_Login = login, reset_Password = [], reset_Ip = ip\<rparr> w)"

definition Client_AddToWhitelist :: "('k, 'n, 'v) Client \<Rightarrow> string \<Rightarrow> 'n \<times> 'v \<Rightarrow> go_error option \<times> 'n \<times> 'v" where
  "Client_AddToWhitelist c cidr w = only_error (pb_AddToWhitelist (client_pb c) \<lparr>req_Cidr = cidr\<rparr> w)"

definition Client_RemoveFromWhitelist :: "('k, 'n, 'v) Client \<Rightarrow> string \<Rightarrow> 'n \<times> 'v \<Rightarrow> go_error option \<times> 'n \<times> 'v" where
  "Client_RemoveFromWhitelist c cidr w = only_error (pb_RemoveFromWhitelist (client_pb c) \<lparr>req_Cidr = cidr\<rparr> w)"

definition Client_AddToBlacklist :: "('k, 'n, 'v) Client \<Rightarrow> string \<Rightarrow> 'n \<times> 'v \<Rightarrow> go_error option \<times> 'n \<times> 'v" where
  "Client_AddToBlacklist c cidr w = only_error (pb_AddToBlacklist (client_pb c) \<lparr>req_Cidr = cidr\<rparr> w)"

definition Client_RemoveFromBlacklist :: "('k, 'n, 'v) Client \<Rightarrow> string \<Rightarrow> 'n \<times> 'v \<Rightarrow> go_error option \<times> 'n \<times> 'v" where
  "Client_RemoveFromBlacklist c cidr w = only_error (pb_RemoveFromBlacklist (client_pb c) \<lparr>req_Cidr = cidr\<rparr> w)"

section \<open>The commands\<close>

text \<open>
  A command without subcommands: its path from the root, the flags it declares, all of them marked
  as required, and \<open>RunE\<close> over the values of the flags and the client that the hook has left in the
  context.
\<close>

type_synonym flag_values = "string \<Rightarrow> string"

record ('k, 'n, 'v) Command =
  cmd_path :: "string list"
  cmd_flags :: "string list"
  cmd_RunE :: "flag_values \<Rightarrow> ('k, 'n, 'v) Client \<Rightarrow> 'n \<times> 'v \<Rightarrow> go_error option \<times> 'n \<times> 'v"

record ('k, 'n, 'v) listSpec =
  spec_name :: string
  spec_addFn :: "('k, 'n, 'v) Client \<Rightarrow> string \<Rightarrow> 'n \<times> 'v \<Rightarrow> go_error option \<times> 'n \<times> 'v"
  spec_removeFn :: "('k, 'n, 'v) Client \<Rightarrow> string \<Rightarrow> 'n \<times> 'v \<Rightarrow> go_error option \<times> 'n \<times> 'v"

definition newListAddCmd :: "('k, 'n, 'v) listSpec \<Rightarrow> ('k, 'n, 'v) Command" where
  "newListAddCmd spec =
     \<lparr>cmd_path = [''add''], cmd_flags = [''cidr''], cmd_RunE = (\<lambda>fl c. spec_addFn spec c (fl ''cidr''))\<rparr>"

definition newListRemoveCmd :: "('k, 'n, 'v) listSpec \<Rightarrow> ('k, 'n, 'v) Command" where
  "newListRemoveCmd spec =
     \<lparr>cmd_path = [''remove''], cmd_flags = [''cidr''], cmd_RunE = (\<lambda>fl c. spec_removeFn spec c (fl ''cidr''))\<rparr>"

text \<open>Subcommands are named under their parent's name.\<close>

definition newListCmd :: "('k, 'n, 'v) listSpec \<Rightarrow> ('k, 'n, 'v) Command list" where
  "newListCmd spec =
     map (\<lambda>c. c\<lparr>cmd_path := spec_name spec # cmd_path c\<rparr>) [newListAddCmd spec, newListRemoveCmd spec]"

definition newCheckCmd :: "(string \<Rightarrow> 'n \<Rightarrow> 'n) \<Rightarrow> ('k, 'n, 'v) Command" where
  "newCheckCmd Println =
     \<lparr>cmd_path = [''check''], cmd_flags = [''login'', ''pass'', ''ip''],
      cmd_RunE = (\<lambda>fl c w.
        case Client_Check c (fl ''login'') (fl ''pass'') (fl ''ip'') w of
          (Inl err, w1) \<Rightarrow> (Some err, w1)
        | (Inr ok, w1) \<Rightarrow>
            (None, (Println (if ok then ''Request is allowed'' else ''Request is not allowed'') (fst w1), snd w1)))\<rparr>"

definition newResetCmd :: "('k, 'n, 'v) Command" where
  "newResetCmd =
     \<lparr>cmd_path = [''reset''], cmd_flags = [''login'', ''ip''],
      cmd_RunE = (\<lambda>fl c. Client_ResetBucket c (fl ''login'') (fl ''ip''))\<rparr>"

definition getenv :: "(string \<Rightarrow> string) \<Rightarrow> string \<Rightarrow> string \<Rightarrow> string" where
  "getenv env k dflt = (if env k \<noteq> [] then env k else dflt)"

text \<open>The root with its hooks; the client is made before a command and closed after it.\<close>

record ('k, 'n, 'v) Root =
  root_addr :: string
  PersistentPreRunE :: "string \<Rightarrow> 'n \<times> 'v \<Rightarrow> ('k, 'n, 'v) Client result \<times> 'n \<times> 'v"
  PersistentPostRunE :: "('k, 'n, 'v) Client option \<Rightarrow> 'n \<times> 'v \<Rightarrow> go_error option \<times> 'n \<times> 'v"
  root_commands :: "('k, 'n, 'v) Command list"

definition whitelistSpec :: "('k, 'n, 'v) listSpec" where
  "whitelistSpec =
     \<lparr>spec_name = ''whitelist'', spec_addFn = Client_AddToWhitelist, spec_removeFn = Client_RemoveFromWhitelist\<rparr>"

definition blacklistSpec :: "('k, 'n, 'v) listSpec" where
  "blacklistSpec =
     \<lparr>spec_name = ''blacklist'', spec_addFn = Client_AddToBlacklist, spec_removeFn = Client_RemoveFromBlacklist\<rparr>"

definition newRootCmd ::
  "('k, 'n, 'v) grpc_conn \<Rightarrow> (string \<Rightarrow> string) \<Rightarrow> (string \<Rightarrow> 'n \<Rightarrow> 'n) \<Rightarrow> ('k, 'n, 'v) Root" where
  "newRootCmd g env Println =
     \<lparr>root_addr = getenv env ''ABF_ADDR'' ''127.0.0.1:50051'',
      PersistentPreRunE = New g,
      PersistentPostRunE = (\<lambda>c w. if c \<noteq> None then Client_Close g c w else (None, w)),
      root_commands = newListCmd whitelistSpec @ newListCmd blacklistSpec @ [newCheckCmd Println, newResetCmd]\<rparr>"

text \<open>\<open>main\<close>: the exit status.\<close>

definition abfctl_main ::
  "(('k, 'n, 'v) Root \<Rightarrow> string list \<Rightarrow> 'n \<times> 'v \<Rightarrow> go_error option \<times> 'n \<times> 'v) \<Rightarrow> ('k, 'n, 'v) Root \<Rightarrow>
    string list \<Rightarrow> 'n \<times> 'v \<Rightarrow> nat \<times> 'n \<times> 'v" where
  "abfctl_main Execute root args w =
     (case Execute root args w of (Some err, w1) \<Rightarrow> (1, w1) | (None, w1) \<Rightarrow> (0, w1))"

section \<open>What cobra and gRPC promise\<close>

text \<open>
  cobra finds the command by its path, reads flags given as \<open>--name value\<close>, and runs the hooks around
  the command: an error ends the run, so the last hook is skipped when the command fails.
\<close>

definition flag_args :: "(string \<times> string) list \<Rightarrow> string list" where
  "flag_args fs = concat (map (\<lambda>(n, v). [''--'' @ n, v]) fs)"

definition values_of :: "string \<Rightarrow> (string \<times> string) list \<Rightarrow> flag_values" where
  "values_of addr fs n = (case map_of fs n of Some v \<Rightarrow> v | None \<Rightarrow> if n = ''addr'' then addr else [])"

definition run_hooks ::
  "('k, 'n, 'v) Root \<Rightarrow> ('k, 'n, 'v) Command \<Rightarrow> flag_values \<Rightarrow> 'n \<times> 'v \<Rightarrow> go_error option \<times> 'n \<times> 'v" where
  "run_hooks root c fl w =
     (case PersistentPreRunE root (fl ''addr'') w of
        (Inl err, w1) \<Rightarrow> (Some err, w1)
      | (Inr client, w1) \<Rightarrow>
          (case cmd_RunE c fl client w1 of
             (Some err, w2) \<Rightarrow> (Some err, w2)
           | (None, w2) \<Rightarrow> PersistentPostRunE root (Some client) w2))"

definition lawful_cobra ::
  "(('k, 'n, 'v) Root \<Rightarrow> string list \<Rightarrow> 'n \<times> 'v \<Rightarrow> go_error option \<times> 'n \<times> 'v) \<Rightarrow> ('k, 'n, 'v) Root \<Rightarrow> bool" where
  "lawful_cobra Execute root \<longleftrightarrow>
     (\<forall>c fs w. c \<in> set (root_commands root) \<longrightarrow> distinct (map fst fs) \<longrightarrow>
       set (cmd_flags c) \<subseteq> fst ` set fs \<longrightarrow> fst ` set fs \<subseteq> insert ''addr'' (set (cmd_flags c)) \<longrightarrow>
       Execute root (cmd_path c @ flag_args fs) w = run_hooks root c (values_of (root_addr root) fs) w)"

text \<open>
  A call either does not reach the server, or is served, once, in its present state, and then the
  answer arrives, an error as some error of gRPC, or is lost.
\<close>

definition delivered ::
  "('n \<Rightarrow> string list) \<Rightarrow> ('v \<Rightarrow> 'a result \<times> 'v) set \<Rightarrow> 'n \<times> 'v \<Rightarrow> 'a result \<times> 'n \<times> 'v \<Rightarrow> bool" where
  "delivered printed handlers w r \<longleftrightarrow>
     printed (fst (snd r)) = printed (fst w) \<and>
     (((\<exists>err. fst r = Inl err) \<and> snd (snd r) = snd w) \<or>
      (\<exists>h \<in> handlers. snd (snd r) = snd (h (snd w)) \<and>
        ((\<exists>err. fst r = Inl err) \<or> (\<exists>a. fst (h (snd w)) = Inr a \<and> fst r = Inr a))))"

definition lawful_net ::
  "('k, 'n, 'v) grpc_conn \<Rightarrow> ('n \<Rightarrow> string list) \<Rightarrow> 'v Server \<Rightarrow> bool" where
  "lawful_net g printed srv \<longleftrightarrow>
     (\<forall>a n. printed (snd (grpc_NewClient g a n)) = printed n) \<and>
     (\<forall>k n. printed (snd (conn_Close g k n)) = printed n) \<and>
     (\<forall>k w req. delivered printed {Server_CheckAttempt srv m req | m. True} w
       (pb_CheckAttempt (NewAntiBruteforceClient g k) req w)) \<and>
     (\<forall>k w req. delivered printed {Server_ResetBucket srv req} w (pb_ResetBucket (NewAntiBruteforceClient g k) req w)) \<and>
     (\<forall>k w req. delivered printed {Server_AddToWhitelist srv r1 r2 req | r1 r2. True} w
       (pb_AddToWhitelist (NewAntiBruteforceClient g k) req w)) \<and>
     (\<forall>k w req. delivered printed {Server_RemoveFromWhitelist srv r1 r2 req | r1 r2. True} w
       (pb_RemoveFromWhitelist (NewAntiBruteforceClient g k) req w)) \<and>
     (\<forall>k w req. delivered printed {Server_AddToBlacklist srv r1 r2 req | r1 r2. True} w
       (pb_AddToBlacklist (NewAntiBruteforceClient g k) req w)) \<and>
     (\<forall>k w req. delivered printed {Server_RemoveFromBlacklist srv r1 r2 req | r1 r2. True} w
       (pb_RemoveFromBlacklist (NewAntiBruteforceClient g k) req w))"

section \<open>A command is one request\<close>

text \<open>The requests a command can amount to, and what it prints for an answer.\<close>

definition cli_requests :: "string list \<Rightarrow> flag_values \<Rightarrow> request set" where
  "cli_requests path fl =
     (if path = [''whitelist'', ''add''] then {ManageCIDR (AddW (fl ''cidr'')) r1 r2 | r1 r2. True}
      else if path = [''whitelist'', ''remove''] then {ManageCIDR (RemoveW (fl ''cidr'')) r1 r2 | r1 r2. True}
      else if path = [''blacklist'', ''add''] then {ManageCIDR (AddB (fl ''cidr'')) r1 r2 | r1 r2. True}
      else if path = [''blacklist'', ''remove''] then {ManageCIDR (RemoveB (fl ''cidr'')) r1 r2 | r1 r2. True}
      else if path = [''check''] then
        {CheckAttempt m \<lparr>req_Login = fl ''login'', req_Password = fl ''pass'', req_Ip = fl ''ip''\<rparr> | m. True}
      else if path = [''reset''] then
        {ResetBucket \<lparr>reset_Login = fl ''login'', reset_Password = [], reset_Ip = fl ''ip''\<rparr>}
      else {})"

fun cli_output :: "response \<Rightarrow> string list" where
  "cli_output (Checked ok) = [if ok then ''Request is allowed'' else ''Request is not allowed'']"
| "cli_output r = []"

text \<open>
  A run is right when it amounts to one of the requests, served once: with exit status 0 the answer
  was no error and is printed; otherwise the server is as it was and nothing is printed, or the
  request has been served all the same and its answer is printed or lost.
\<close>

definition cli_right ::
  "('n \<Rightarrow> string list) \<Rightarrow> 'v Server \<Rightarrow> request set \<Rightarrow> 'n \<times> 'v \<Rightarrow> bool \<Rightarrow> 'n \<times> 'v \<Rightarrow> bool" where
  "cli_right printed srv rqs w ok w' \<longleftrightarrow>
     (if ok then \<exists>rq \<in> rqs. snd w' = snd (serve srv rq (snd w)) \<and> (\<forall>err. fst (serve srv rq (snd w)) \<noteq> Failed err) \<and>
        printed (fst w') = printed (fst w) @ cli_output (fst (serve srv rq (snd w)))
      else (printed (fst w') = printed (fst w) \<and> snd w' = snd w) \<or>
        (\<exists>rq \<in> rqs. snd w' = snd (serve srv rq (snd w)) \<and>
          printed (fst w') \<in> {printed (fst w), printed (fst w) @ cli_output (fst (serve srv rq (snd w)))}))"

text \<open>From a handler to the request it serves.\<close>

lemma delivered_right:
  assumes "delivered printed hs w r" and "\<And>h. h \<in> hs \<Longrightarrow> \<exists>rq \<in> rqs. serve srv rq (snd w) = respond f (h (snd w))"
  shows "case r of
      (Inl err, w') \<Rightarrow> cli_right printed srv rqs w False w'
    | (Inr a, w') \<Rightarrow> printed (fst w') = printed (fst w) \<and>
        (\<exists>rq \<in> rqs. serve srv rq (snd w) = (f a, snd w'))"
proof -
  obtain x w' where r: "r = (x, w')" by (rule prod.exhaust)
  have same: "printed (fst w') = printed (fst w)"
    using assms(1) by (simp add: delivered_def r)
  show ?thesis
  proof (cases x)
    case (Inl err)
    with assms(1) consider "snd w' = snd w" | h where "h \<in> hs" "snd w' = snd (h (snd w))"
      by (auto simp: delivered_def r)
    then show ?thesis
    proof cases
      case 1
      then show ?thesis by (simp add: r Inl cli_right_def same)
    next
      case 2
      from assms(2) [OF 2(1)] obtain rq where "rq \<in> rqs" "serve srv rq (snd w) = respond f (h (snd w))" ..
      with 2(2) have "\<exists>rq \<in> rqs. snd w' = snd (serve srv rq (snd w))" by (intro bexI [of _ rq]) simp_all
      then show ?thesis by (auto simp: r Inl cli_right_def same)
    qed
  next
    case (Inr a)
    with assms(1) obtain h where h: "h \<in> hs" "snd w' = snd (h (snd w))" "fst (h (snd w)) = Inr a"
      by (auto simp: delivered_def r)
    then have "respond f (h (snd w)) = (f a, snd w')"
      by (cases "h (snd w)") simp
    with assms(2) [OF h(1)] have "\<exists>rq \<in> rqs. serve srv rq (snd w) = (f a, snd w')" by auto
    then show ?thesis by (simp add: r Inr same)
  qed
qed

lemma only_error_right:
  assumes "delivered printed hs w r" and "\<And>h. h \<in> hs \<Longrightarrow> \<exists>rq \<in> rqs. serve srv rq (snd w) = respond (\<lambda>_. Done) (h (snd w))"
    and "only_error r = (e, w')"
  shows "cli_right printed srv rqs w (e = None) w'"
proof -
  obtain x w1 where r: "r = (x, w1)" by (rule prod.exhaust)
  with assms(3) have e: "w1 = w'" "e = None \<longleftrightarrow> (\<exists>a. x = Inr a)"
    by (auto simp: only_error_def split: sum.splits)
  have "case r of
      (Inl err, w') \<Rightarrow> cli_right printed srv rqs w False w'
    | (Inr a, w') \<Rightarrow> printed (fst w') = printed (fst w) \<and> (\<exists>rq \<in> rqs. serve srv rq (snd w) = (Done, snd w'))"
    by (rule delivered_right [OF assms(1)]) (rule assms(2))
  then show ?thesis
    by (cases x) (auto simp: r e cli_right_def intro!: bexI)
qed

lemma lawful_netD:
  assumes "lawful_net g printed srv"
  shows "printed (snd (grpc_NewClient g a n)) = printed n" "printed (snd (conn_Close g k n)) = printed n"
    "delivered printed {Server_CheckAttempt srv m creq | m. True} w (pb_CheckAttempt (NewAntiBruteforceClient g k) creq w)"
    "delivered printed {Server_ResetBucket srv rreq} w (pb_ResetBucket (NewAntiBruteforceClient g k) rreq w)"
    "delivered printed {Server_AddToWhitelist srv r1 r2 req | r1 r2. True} w (pb_AddToWhitelist (NewAntiBruteforceClient g k) req w)"
    "delivered printed {Server_RemoveFromWhitelist srv r1 r2 req | r1 r2. True} w (pb_RemoveFromWhitelist (NewAntiBruteforceClient g k) req w)"
    "delivered printed {Server_AddToBlacklist srv r1 r2 req | r1 r2. True} w (pb_AddToBlacklist (NewAntiBruteforceClient g k) req w)"
    "delivered printed {Server_RemoveFromBlacklist srv r1 r2 req | r1 r2. True} w (pb_RemoveFromBlacklist (NewAntiBruteforceClient g k) req w)"
  using assms unfolding lawful_net_def by (simp_all del: split_paired_All)

lemma served_as:
  "\<exists>rq \<in> {CheckAttempt m creq | m. True}. serve srv rq v = respond (\<lambda>r. Checked (resp_Ok r)) (Server_CheckAttempt srv m creq v)"
  "\<exists>rq \<in> {ResetBucket rreq}. serve srv rq v = respond (\<lambda>_. Done) (Server_ResetBucket srv rreq v)"
  "\<exists>rq \<in> {ManageCIDR (AddW c) r1 r2 | r1 r2. True}.
    serve srv rq v = respond (\<lambda>_. Done) (Server_AddToWhitelist srv r1 r2 \<lparr>req_Cidr = c\<rparr> v)"
  "\<exists>rq \<in> {ManageCIDR (AddB c) r1 r2 | r1 r2. True}.
    serve srv rq v = respond (\<lambda>_. Done) (Server_AddToBlacklist srv r1 r2 \<lparr>req_Cidr = c\<rparr> v)"
  "\<exists>rq \<in> {ManageCIDR (RemoveW c) r1 r2 | r1 r2. True}.
    serve srv rq v = respond (\<lambda>_. Done) (Server_RemoveFromWhitelist srv r1 r2 \<lparr>req_Cidr = c\<rparr> v)"
  "\<exists>rq \<in> {ManageCIDR (RemoveB c) r1 r2 | r1 r2. True}.
    serve srv rq v = respond (\<lambda>_. Done) (Server_RemoveFromBlacklist srv r1 r2 \<lparr>req_Cidr = c\<rparr> v)"
  by (rule bexI, rule serve.simps, blast)+

text \<open>The body of every command, on a client of a connection.\<close>

lemma command_right:
  assumes "lawful_net g printed srv" "\<And>s n. printed (Println s n) = printed n @ [s]"
    and "c \<in> set (root_commands (newRootCmd g env Println))"
    and "cmd_RunE c fl \<lparr>client_conn = Some k, client_pb = NewAntiBruteforceClient g k\<rparr> w = (e, w')"
  shows "cli_right printed srv (cli_requests (cmd_path c) fl) w (e = None) w'"
proof -
  note net = lawful_netD(3-8) [OF assms(1), of _ w k]
  from assms(3) consider
      "cmd_path c = [''whitelist'', ''add'']" "\<And>cl. cmd_RunE c fl cl = Client_AddToWhitelist cl (fl ''cidr'')"
    | "cmd_path c = [''whitelist'', ''remove'']" "\<And>cl. cmd_RunE c fl cl = Client_RemoveFromWhitelist cl (fl ''cidr'')"
    | "cmd_path c = [''blacklist'', ''add'']" "\<And>cl. cmd_RunE c fl cl = Client_AddToBlacklist cl (fl ''cidr'')"
    | "cmd_path c = [''blacklist'', ''remove'']" "\<And>cl. cmd_RunE c fl cl = Client_RemoveFromBlacklist cl (fl ''cidr'')"
    | "cmd_path c = [''check'']" "c = newCheckCmd Println"
    | "cmd_path c = [''reset'']" "\<And>cl. cmd_RunE c fl cl = Client_ResetBucket cl (fl ''login'') (fl ''ip'')"
    by (auto simp: newRootCmd_def newListCmd_def newListAddCmd_def newListRemoveCmd_def whitelistSpec_def
        blacklistSpec_def newResetCmd_def newCheckCmd_def)
  then show ?thesis
  proof cases
    case 1
    with assms(4) show ?thesis
      by (intro only_error_right [OF net(3)]) (auto simp: Client_AddToWhitelist_def cli_requests_def simp del: bex_simps intro: served_as(3) [simplified] served_as(3))
  next
    case 2
    with assms(4) show ?thesis
      by (intro only_error_right [OF net(4)]) (auto simp: Client_RemoveFromWhitelist_def cli_requests_def simp del: bex_simps intro: served_as(5) [simplified] served_as(5))
  next
    case 3
    with assms(4) show ?thesis
      by (intro only_error_right [OF net(5)]) (auto simp: Client_AddToBlacklist_def cli_requests_def simp del: bex_simps intro: served_as(4) [simplified] served_as(4))
  next
    case 4
    with assms(4) show ?thesis
      by (intro only_error_right [OF net(6)]) (auto simp: Client_RemoveFromBlacklist_def cli_requests_def simp del: bex_simps intro: served_as(6) [simplified] served_as(6))
  next
    case 5
    let ?req = "\<lparr>req_Login = fl ''login'', req_Password = fl ''pass'', req_Ip = fl ''ip''\<rparr>"
    have check: "cli_requests [''check''] fl = {CheckAttempt m ?req | m. True}"
      by (simp add: cli_requests_def)
    obtain x w1 where call: "pb_CheckAttempt (NewAntiBruteforceClient g k) ?req w = (x, w1)" by (rule prod.exhaust)
    have outcome: "case (x, w1) of
      (Inl err, w') \<Rightarrow> cli_right printed srv (cli_requests [''check''] fl) w False w'
    | (Inr a, w') \<Rightarrow> printed (fst w') = printed (fst w) \<and>
        (\<exists>rq \<in> cli_requests [''check''] fl. serve srv rq (snd w) = (Checked (resp_Ok a), snd w'))"
      unfolding call [symmetric] check by (rule delivered_right [OF net(1)]) (clarify, rule served_as(1))
    have run: "cmd_RunE c fl \<lparr>client_conn = Some k, client_pb = NewAntiBruteforceClient g k\<rparr> w =
      (case (case x of Inl err \<Rightarrow> (Inl err, w1) | Inr resp \<Rightarrow> (Inr (resp_Ok resp), w1)) of
        (Inl err, w1) \<Rightarrow> (Some err, w1)
      | (Inr ok, w1) \<Rightarrow> (None, (Println (if ok then ''Request is allowed'' else ''Request is not allowed'') (fst w1), snd w1)))"
      by (simp add: 5 newCheckCmd_def Client_Check_def call)
    show ?thesis
    proof (cases x)
      case (Inl err)
      with outcome run assms(4) show ?thesis by (auto simp: 5(1))
    next
      case (Inr a)
      with outcome obtain rq where rq: "rq \<in> cli_requests [''check''] fl"
        "serve srv rq (snd w) = (Checked (resp_Ok a), snd w1)" "printed (fst w1) = printed (fst w)" by auto
      with Inr run assms(4) show ?thesis
        by (auto simp: 5(1) cli_right_def assms(2) intro!: bexI [of _ rq])
    qed
  next
    case 6
    with assms(4) show ?thesis
      by (intro only_error_right [OF net(2)]) (auto simp: Client_ResetBucket_def cli_requests_def simp del: bex_simps intro: served_as(2) [simplified] served_as(2))
  qed
qed

lemma cli_right_part:
  "printed n = printed (fst w) \<Longrightarrow> cli_right printed srv rqs (n, snd w) ok w' \<longleftrightarrow> cli_right printed srv rqs w ok w'"
  by (simp add: cli_right_def cong: if_cong)

text \<open>The hooks around it.\<close>

lemma hooks_right:
  assumes "lawful_net g printed srv" "\<And>s n. printed (Println s n) = printed n @ [s]"
    and "c \<in> set (root_commands (newRootCmd g env Println))"
    and "run_hooks (newRootCmd g env Println) c fl w = (e, w')"
  shows "cli_right printed srv (cli_requests (cmd_path c) fl) w (e = None) w'"
proof -
  let ?root = "newRootCmd g env Println"
  obtain r n where dial: "grpc_NewClient g (fl ''addr'') (fst w) = (r, n)" by (rule prod.exhaust)
  have n: "printed n = printed (fst w)"
    using lawful_netD(1) [OF assms(1), of "fl ''addr''" "fst w"] dial by simp
  show ?thesis
  proof (cases r)
    case (Inl err)
    with assms(4) dial n show ?thesis
      by (auto simp: run_hooks_def newRootCmd_def New_def cli_right_def)
  next
    case (Inr k)
    let ?client = "\<lparr>client_conn = Some k, client_pb = NewAntiBruteforceClient g k\<rparr>"
    obtain e1 w1 where body: "cmd_RunE c fl ?client (n, snd w) = (e1, w1)" by (rule prod.exhaust)
    from command_right [OF assms(1,2,3) body]
    have right: "cli_right printed srv (cli_requests (cmd_path c) fl) w (e1 = None) w1"
      by (simp only: cli_right_part [OF n])
    show ?thesis
    proof (cases e1)
      case (Some err)
      with assms(4) dial Inr body right show ?thesis
        by (auto simp: run_hooks_def newRootCmd_def New_def)
    next
      case None
      obtain e2 n2 where close: "conn_Close g k (fst w1) = (e2, n2)" by (rule prod.exhaust)
      have n2: "printed n2 = printed (fst w1)"
        using lawful_netD(2) [OF assms(1), of k "fst w1"] close by simp
      have "e = e2" "w' = (n2, snd w1)"
        using assms(4) dial Inr body None close
        by (auto simp: run_hooks_def newRootCmd_def New_def Client_Close_def)
      with right None n2 show ?thesis
        by (cases e2) (auto simp: cli_right_def)
    qed
  qed
qed

lemma abfctl_right:
  assumes "lawful_cobra Execute (newRootCmd g env Println)" "lawful_net g printed srv"
    and "\<forall>s n. printed (Println s n) = printed n @ [s]" "c \<in> set (root_commands (newRootCmd g env Println))"
    and "distinct (map fst fs)" "set (cmd_flags c) \<subseteq> fst ` set fs" "fst ` set fs \<subseteq> insert ''addr'' (set (cmd_flags c))"
    and "abfctl_main Execute (newRootCmd g env Println) (cmd_path c @ flag_args fs) w = (code, w')"
  shows "code \<in> {0, 1}"
    and "cli_right printed srv (cli_requests (cmd_path c) (values_of (root_addr (newRootCmd g env Println)) fs)) w (code = 0) w'"
proof -
  let ?fl = "values_of (root_addr (newRootCmd g env Println)) fs"
  obtain e w1 where run: "run_hooks (newRootCmd g env Println) c ?fl w = (e, w1)" by (rule prod.exhaust)
  have "Execute (newRootCmd g env Println) (cmd_path c @ flag_args fs) w = (e, w1)"
    using assms(1,4-7) run unfolding lawful_cobra_def by (metis (no_types, lifting))
  with assms(8) have "w1 = w'" "code = (if e = None then 0 else 1)"
    by (auto simp: abfctl_main_def split: option.splits)
  with hooks_right [OF assms(2) _ assms(4) run] assms(3) show "code \<in> {0, 1}"
    "cli_right printed srv (cli_requests (cmd_path c) ?fl) w (code = 0) w'"
    by (auto split: if_splits)
qed

text \<open>
  C32. Every command of \<open>abfctl\<close> is one request to the service: with exit status 0 the server has
  served exactly that request, in the state it was in, without an error, and \<open>check\<close> has printed its
  answer; with status 1 the server is unchanged or has served that request, and no other, even when
  the answer was lost.
\<close>

theorem abfctl_serves:
  assumes "lawful_cobra Execute (newRootCmd g env Println)" "lawful_net g printed srv"
    and "\<forall>s n. printed (Println s n) = printed n @ [s]" "c \<in> set (root_commands (newRootCmd g env Println))"
    and "distinct (map fst fs)" "set (cmd_flags c) \<subseteq> fst ` set fs" "fst ` set fs \<subseteq> insert ''addr'' (set (cmd_flags c))"
    and "abfctl_main Execute (newRootCmd g env Println) (cmd_path c @ flag_args fs) w = (code, w')"
  shows "code \<in> {0, 1} \<and>
    cli_right printed srv (cli_requests (cmd_path c) (values_of (root_addr (newRootCmd g env Println)) fs)) w (code = 0) w'"
  using abfctl_right [OF assms] by blast

section \<open>What a reset from the command line leaves\<close>

lemma reset_counters:
  assumes "ParseIP (reset_Ip rq) = Some ip" "v' = snd (serve (local_server cfg) (ResetBucket rq) v)"
  shows "lt \<in> limit_types \<Longrightarrow> counter v' (attempt_key lt (reset_Login rq) (reset_Password rq) ip) = []"
    and "\<forall>lt \<in> limit_types. k \<noteq> attempt_key lt (reset_Login rq) (reset_Password rq) ip \<Longrightarrow> counter v' k = counter v k"
  using assms distinct_attempt_keys
  by (auto simp: serve_reset counter_def limit_types_def bucket_frame)

text \<open>
  C33. A reset from the command line sends an empty password: it empties the counters of the login,
  of the address and of the empty password, and leaves the counter of every other password as it
  was. So an attempt whose password counter is full is refused before and after it, until the window
  has passed.
\<close>

theorem abfctl_reset_keeps_passwords:
  fixes g :: "('k, 'n, local_world) grpc_conn"
  assumes "lawful_cobra Execute (newRootCmd g env Println)" "lawful_net g printed (local_server cfg)"
    and "\<forall>s n. printed (Println s n) = printed n @ [s]"
    and "abfctl_main Execute (newRootCmd g env Println) [''reset'', ''--login'', l, ''--ip'', i] (n, v) = (0, (n', v'))"
  shows "\<exists>ip. ParseIP i = Some ip \<and> counter v' (attempt_key LoginLimit l p ip) = [] \<and>
    counter v' (attempt_key IPLimit l p ip) = [] \<and> counter v' (attempt_key PasswordLimit l [] ip) = [] \<and>
    (hashPassword p \<noteq> hashPassword [] \<longrightarrow>
      counter v' (attempt_key PasswordLimit l p ip) = counter v (attempt_key PasswordLimit l p ip) \<and>
      (0 < config_Window cfg \<longrightarrow> (\<forall>lt \<in> limit_types. 0 < attempts cfg lt) \<longrightarrow>
        SubnetPolicer_Check (policer v) ip = DecisionContinue \<longrightarrow>
        \<not> has_room cfg PasswordLimit (at_password m) v (attempt_key PasswordLimit l p ip) \<longrightarrow>
        fst (serve (local_server cfg) (CheckAttempt m \<lparr>req_Login = l, req_Password = p, req_Ip = i\<rparr>) v') = Checked False))"
proof -
  let ?root = "newRootCmd g env Println" and ?fs = "[(''login'', l), (''ip'', i)]"
  let ?rq = "\<lparr>reset_Login = l, reset_Password = [], reset_Ip = i\<rparr>"
  let ?cmd = "newResetCmd :: ('k, 'n, local_world) Command"
  have args: "[''reset'', ''--login'', l, ''--ip'', i] = cmd_path ?cmd @ flag_args ?fs"
    by (simp add: newResetCmd_def flag_args_def)
  have "cli_right printed (local_server cfg) (cli_requests (cmd_path ?cmd) (values_of (root_addr ?root) ?fs))
      (n, v) (0 = (0 :: nat)) (n', v')"
    by (rule abfctl_right(2) [OF assms(1-3) _ _ _ _ assms(4) [unfolded args]])
      (auto simp: newRootCmd_def newResetCmd_def)
  then have served: "v' = snd (serve (local_server cfg) (ResetBucket ?rq) v)"
    "\<forall>err. fst (serve (local_server cfg) (ResetBucket ?rq) v) \<noteq> Failed err"
    by (simp_all add: cli_right_def cli_requests_def newResetCmd_def values_of_def)
  from served(2) obtain ip where ip: "ParseIP i = Some ip"
    by (auto simp: serve_reset split: option.splits)
  have keep: "counter v' (attempt_key PasswordLimit l p ip) = counter v (attempt_key PasswordLimit l p ip)"
    if "hashPassword p \<noteq> hashPassword []"
    using that distinct_attempt_keys [of l p ip l "[]" ip] distinct_attempt_keys [of l "[]" ip l p ip]
    by (intro reset_counters(2) [of ?rq, OF _ served(1)])
      (auto simp: ip limit_types_def attempt_key_def bucket_key_inject)
  have same_keys: "attempt_key LoginLimit l p ip = attempt_key LoginLimit l [] ip"
    "attempt_key IPLimit l p ip = attempt_key IPLimit l [] ip"
    by (simp_all add: attempt_key_def)
  have cleared: "counter v' (attempt_key lt l [] ip) = []" if "lt \<in> limit_types" for lt
    using reset_counters(1) [of ?rq ip, OF _ served(1)] that ip by simp
  have refused: "fst (serve (local_server cfg) (CheckAttempt m \<lparr>req_Login = l, req_Password = p, req_Ip = i\<rparr>) v') = Checked False"
    if "0 < config_Window cfg" "\<forall>lt \<in> limit_types. 0 < attempts cfg lt" and other: "hashPassword p \<noteq> hashPassword []"
      and listed: "SubnetPolicer_Check (policer v) ip = DecisionContinue"
      and full: "\<not> has_room cfg PasswordLimit (at_password m) v (attempt_key PasswordLimit l p ip)"
  proof -
    have policy: "SubnetPolicer_Check (policer v') ip = DecisionContinue"
      using serve_reset_lists [of cfg ?rq v] listed served(1) by simp
    have "\<not> has_room cfg PasswordLimit (at_password m) v' (attempt_key PasswordLimit l p ip)"
      using full keep [OF other] by (simp add: has_room_def live_stamps_def)
    then have "\<not> all_ok (three_events cfg m l p ip) (limit_db v')"
      using three_counters [OF that(1,2) refl refl refl refl refl, where login = l and password = p and ip = ip and w = v' and m = m] by (auto split: if_splits)
    then show ?thesis
      by (simp add: serve_check ip policy Let_def del: all_ok.simps made.simps list.map)
  qed
  show ?thesis
    using ip keep same_keys cleared refused by (intro exI [of _ ip]) (auto simp: limit_types_def)
qed

section \<open>An instance\<close>

text \<open>A network that delivers everything, at one time, and a terminal that is the list of its lines.\<close>

abbreviation still :: moments where
  "still \<equiv> \<lparr>at_login = \<lparr>now = 0, rnd = Inr 0\<rparr>, at_password = \<lparr>now = 0, rnd = Inr 0\<rparr>, at_ip = \<lparr>now = 0, rnd = Inr 0\<rparr>\<rparr>"

definition over :: "('v \<Rightarrow> 'a result \<times> 'v) \<Rightarrow> 'n \<times> 'v \<Rightarrow> 'a result \<times> 'n \<times> 'v" where
  "over h w = (case h (snd w) of (r, v) \<Rightarrow> (r, (fst w, v)))"

definition plain_net :: "'v Server \<Rightarrow> (unit, string list, 'v) grpc_conn" where
  "plain_net srv =
     \<lparr>grpc_NewClient = (\<lambda>a n. (Inr (), n)), conn_Close = (\<lambda>k n. (None, n)),
      NewAntiBruteforceClient = (\<lambda>k.
        \<lparr>pb_CheckAttempt = (\<lambda>req. over (Server_CheckAttempt srv still req)),
         pb_ResetBucket = (\<lambda>req. over (Server_ResetBucket srv req)),
         pb_AddToWhitelist = (\<lambda>req. over (Server_AddToWhitelist srv id id req)),
         pb_RemoveFromWhitelist = (\<lambda>req. over (Server_RemoveFromWhitelist srv id id req)),
         pb_AddToBlacklist = (\<lambda>req. over (Server_AddToBlacklist srv id id req)),
         pb_RemoveFromBlacklist = (\<lambda>req. over (Server_RemoveFromBlacklist srv id id req))\<rparr>)\<rparr>"

lemma over_delivered: "h \<in> hs \<Longrightarrow> delivered printed hs w (over h w)"
  by (cases "h (snd w)"; cases "fst (h (snd w))") (auto simp: delivered_def over_def intro!: bexI [of _ h])

lemma plain_net_lawful: "lawful_net (plain_net srv) (\<lambda>n. n) srv"
  by (auto simp: lawful_net_def plain_net_def intro!: over_delivered)

fun parse_flags :: "string list \<Rightarrow> (string \<times> string) list" where
  "parse_flags (n # v # r) = (drop 2 n, v) # parse_flags r"
| "parse_flags _ = []"

definition plain_Execute ::
  "('k, 'n, 'v) Root \<Rightarrow> string list \<Rightarrow> 'n \<times> 'v \<Rightarrow> go_error option \<times> 'n \<times> 'v" where
  "plain_Execute root args w =
     (case find (\<lambda>c. take (length (cmd_path c)) args = cmd_path c) (root_commands root) of
        None \<Rightarrow> (Some (Foreign ''unknown command''), w)
      | Some c \<Rightarrow> run_hooks root c (values_of (root_addr root) (parse_flags (drop (length (cmd_path c)) args))) w)"

lemma parse_flag_args: "parse_flags (flag_args fs) = fs"
  by (induction fs) (auto simp: flag_args_def)

lemma plain_Execute_lawful: "lawful_cobra plain_Execute (newRootCmd g env Println)"
  by (auto simp: lawful_cobra_def plain_Execute_def newRootCmd_def newListCmd_def newListAddCmd_def
      newListRemoveCmd_def whitelistSpec_def blacklistSpec_def newCheckCmd_def newResetCmd_def parse_flag_args)

abbreviation cli_limits :: config_Limits where
  "cli_limits \<equiv> \<lparr>LoginAttempts = 1, PasswordAttempts = 10, IPAttempts = 10, config_Window = 1000000000\<rparr>"

abbreviation plain_root :: "(unit, string list, local_world) Root" where
  "plain_root \<equiv> newRootCmd (plain_net (local_server cli_limits)) (\<lambda>_. []) (\<lambda>s n. n @ [s])"

theorem abfctl_serves_witness:
  "\<exists>code w'. abfctl_main plain_Execute plain_root
      [''check'', ''--login'', ''u'', ''--pass'', ''p'', ''--ip'', ''1.2.3.4''] ([], local_init) = (code, w') \<and>
    code \<in> {0, 1} \<and> (fst w' = [] \<or> (\<exists>r. fst w' = cli_output r))"
proof -
  let ?fs = "[(''login'', ''u''), (''pass'', ''p''), (''ip'', ''1.2.3.4'')]"
  let ?c = "newCheckCmd (\<lambda>s n. n @ [s]) :: (unit, string list, local_world) Command"
  have args: "cmd_path ?c @ flag_args ?fs = [''check'', ''--login'', ''u'', ''--pass'', ''p'', ''--ip'', ''1.2.3.4'']"
    by (simp add: newCheckCmd_def flag_args_def)
  obtain code w' where run: "abfctl_main plain_Execute plain_root (cmd_path ?c @ flag_args ?fs) ([], local_init) = (code, w')"
    by (rule prod.exhaust)
  have "code \<in> {0, 1} \<and> cli_right (\<lambda>n. n) (local_server cli_limits)
      (cli_requests (cmd_path ?c) (values_of (root_addr plain_root) ?fs)) ([], local_init) (code = 0) w'"
    by (rule abfctl_serves [OF plain_Execute_lawful plain_net_lawful _ _ _ _ _ run])
      (auto simp: newRootCmd_def newCheckCmd_def)
  with run show ?thesis
    unfolding args by (auto simp: cli_right_def split: if_splits)
qed

theorem abfctl_reset_keeps_passwords_witness:
  "\<exists>v'. abfctl_main plain_Execute plain_root [''reset'', ''--login'', ''u'', ''--ip'', ''1.2.3.4''] ([], local_init) = (0, ([], v')) \<and>
    counter v' (attempt_key PasswordLimit ''u'' [] (v4InV6Prefix @ [1, 2, 3, 4])) = []"
proof -
  let ?rq = "\<lparr>reset_Login = ''u'', reset_Password = [], reset_Ip = ''1.2.3.4''\<rparr>"
  have ip: "ParseIP ''1.2.3.4'' = Some (v4InV6Prefix @ [1, 2, 3, 4])"
    by (simp add: ParseIP_def ParseAddr_def parseIPv4_def digit_val_def Let_def)
  have "fst (serve (local_server cli_limits) (ResetBucket ?rq) local_init) = Done"
    by (simp add: serve_reset ip)
  then obtain a v' where "Server_ResetBucket (local_server cli_limits) ?rq local_init = (Inr a, v')"
    by (cases "Server_ResetBucket (local_server cli_limits) ?rq local_init"; cases "fst (Server_ResetBucket (local_server cli_limits) ?rq local_init)")
      (auto simp: serve.simps)
  then have run: "abfctl_main plain_Execute plain_root [''reset'', ''--login'', ''u'', ''--ip'', ''1.2.3.4''] ([], local_init) = (0, ([], v'))"
    by (simp add: abfctl_main_def plain_Execute_def newRootCmd_def newListCmd_def newListAddCmd_def
      newListRemoveCmd_def whitelistSpec_def blacklistSpec_def newCheckCmd_def newResetCmd_def run_hooks_def New_def
      Client_Close_def Client_ResetBucket_def plain_net_def over_def only_error_def values_of_def)
  from abfctl_reset_keeps_passwords [OF plain_Execute_lawful plain_net_lawful _ run] ip run show ?thesis
    by auto
qed

end
