(* ===== verification/Server_Stop.thy ===== *)
theory Server_Stop
  imports Server_Run
begin

text \<open>
  The end of \<open>run\<close> in \<open>cmd/anti-bruteforce/main.go\<close>: the goroutines of the error group, the one that
  stops the gRPC server, the subscriber and the server, from the signal or the first failure to the
  result of \<open>g.Wait\<close>. Of the libraries the rules assume what they document. The context of the group is
  cancelled by the root context and by the first error. \<open>GracefulStop\<close> refuses new calls and returns
  when those in progress have ended; \<open>Stop\<close> refuses new calls and returns at once, without waiting for
  the handlers that still run. \<open>Serve\<close> returns nil if one of them was called while it ran,
  \<open>ErrServerStopped\<close> if it is called after one of them, and another error if it fails by itself.
\<close>

section \<open>The goroutines\<close>

datatype goroutine = Stopper | Subscriber | Serve

datatype stop_pc = StopWaiting | StopDraining | StopReturned

datatype serve_pc = ServeIdle | ServeAccepting | ServeReturned

datatype grpc_state = GrpcServing | GrpcDraining | GrpcStopped

text \<open>
  \<open>g_late\<close>: the 5 seconds of \<open>time.After\<close> are over. \<open>g_signalled\<close> and \<open>g_forced\<close> only record that the
  signal came and that \<open>Stop\<close> was called.
\<close>

record group =
  g_ctx_done :: bool
  g_returns :: "(goroutine \<times> go_error option) list"
  g_stop :: stop_pc
  g_late :: bool
  g_grpc :: grpc_state
  g_calls :: nat
  g_serve :: serve_pc
  g_subscribed :: bool
  g_signalled :: bool
  g_forced :: bool

definition start_group :: "bool \<Rightarrow> group" where
  "start_group external =
     \<lparr>g_ctx_done = False, g_returns = [], g_stop = StopWaiting, g_late = False, g_grpc = GrpcServing,
      g_calls = 0, g_serve = ServeIdle, g_subscribed = external, g_signalled = False, g_forced = False\<rparr>"

abbreviation ctx_canceled :: go_error where
  "ctx_canceled \<equiv> Sentinel (ContextErr Canceled)"

abbreviation server_stopped :: go_error where
  "server_stopped \<equiv> Foreign ''grpc: the server has been stopped''"

text \<open>A function passed to \<open>g.Go\<close> returns.\<close>

definition returned :: "goroutine \<Rightarrow> go_error option \<Rightarrow> group \<Rightarrow> group" where
  "returned t e st = st\<lparr>g_returns := g_returns st @ [(t, e)], g_ctx_done := g_ctx_done st \<or> e \<noteq> None\<rparr>"

text \<open>What ends \<open>Start\<close>: the context, the channel, or a reload.\<close>

definition subscriber_error :: "bool \<Rightarrow> go_error \<Rightarrow> bool" where
  "subscriber_error ctx_over e \<longleftrightarrow>
     (ctx_over \<and> e = ctx_canceled) \<or> e = Errorf ''redis pubsub channel closed'' \<or>
     (\<exists>err. e = Wrapf ''reload subnet policy'' err)"

lemma Start_returns:
  assumes "fst (Start s es w) = Some e" "\<forall>e'. CtxDone e' \<in> set es \<longrightarrow> e' = ctx_canceled"
  shows "subscriber_error (\<exists>e'. CtxDone e' \<in> set es) e"
  using assms
  by (induction s es w rule: Start.induct)
    (auto simp: subscriber_error_def split: prod.splits option.splits)

text \<open>
  A step from outside is the signal or a call that begins or ends; the others are those of the
  goroutines, of \<open>GracefulStop\<close>, which the first of them waits for, and of its timer.
\<close>

datatype mover = Outside | Inside

inductive gstep :: "mover \<Rightarrow> group \<Rightarrow> group \<Rightarrow> bool" where
  signal: "gstep Outside st (st\<lparr>g_ctx_done := True, g_signalled := True\<rparr>)"
| call_begins: "g_grpc st = GrpcServing \<Longrightarrow> g_serve st \<noteq> ServeIdle \<Longrightarrow>
    gstep Outside st (st\<lparr>g_calls := Suc (g_calls st)\<rparr>)"
| call_ends: "g_calls st = Suc n \<Longrightarrow> gstep Outside st (st\<lparr>g_calls := n\<rparr>)"
| stop_wakes: "g_stop st = StopWaiting \<Longrightarrow> g_ctx_done st \<Longrightarrow>
    gstep Inside st (st\<lparr>g_stop := StopDraining, g_grpc := GrpcDraining\<rparr>)"
| drained: "g_grpc st = GrpcDraining \<Longrightarrow> g_calls st = 0 \<Longrightarrow> gstep Inside st (st\<lparr>g_grpc := GrpcStopped\<rparr>)"
| timer: "g_stop st = StopDraining \<Longrightarrow> \<not> g_late st \<Longrightarrow> gstep Inside st (st\<lparr>g_late := True\<rparr>)"
| stop_graceful: "g_stop st = StopDraining \<Longrightarrow> g_grpc st = GrpcStopped \<Longrightarrow>
    gstep Inside st (returned Stopper (Some ctx_canceled) (st\<lparr>g_stop := StopReturned\<rparr>))"
| stop_forced: "g_stop st = StopDraining \<Longrightarrow> g_late st \<Longrightarrow>
    gstep Inside st (returned Stopper (Some ctx_canceled)
      (st\<lparr>g_stop := StopReturned, g_grpc := GrpcStopped, g_forced := True\<rparr>))"
| serve_starts: "g_serve st = ServeIdle \<Longrightarrow> g_grpc st = GrpcServing \<Longrightarrow> gstep Inside st (st\<lparr>g_serve := ServeAccepting\<rparr>)"
| serve_refused: "g_serve st = ServeIdle \<Longrightarrow> g_grpc st \<noteq> GrpcServing \<Longrightarrow>
    gstep Inside st (returned Serve (Some server_stopped) (st\<lparr>g_serve := ServeReturned\<rparr>))"
| serve_ends: "g_serve st = ServeAccepting \<Longrightarrow> g_grpc st \<noteq> GrpcServing \<Longrightarrow>
    gstep Inside st (returned Serve None (st\<lparr>g_serve := ServeReturned\<rparr>))"
| serve_fails: "g_serve st = ServeAccepting \<Longrightarrow> g_grpc st = GrpcServing \<Longrightarrow>
    gstep Inside st (returned Serve (Some e) (st\<lparr>g_serve := ServeReturned\<rparr>))"
| subscriber_ends: "g_subscribed st \<Longrightarrow> subscriber_error (g_ctx_done st) e \<Longrightarrow>
    gstep Inside st (returned Subscriber (Some e) (st\<lparr>g_subscribed := False\<rparr>))"

inductive_cases gstepE: "gstep b st st'"

text \<open>A run, with who made each of its steps.\<close>

inductive gpath :: "mover list \<Rightarrow> group \<Rightarrow> group \<Rightarrow> bool" where
  gpath_Nil: "gpath [] st st"
| gpath_Cons: "gstep b st st1 \<Longrightarrow> gpath bs st1 st2 \<Longrightarrow> gpath (b # bs) st st2"

lemma gpath_append: "gpath bs st st1 \<Longrightarrow> gpath bs' st1 st2 \<Longrightarrow> gpath (bs @ bs') st st2"
  by (induction rule: gpath.induct) (auto intro: gpath_Cons)

definition all_returned :: "group \<Rightarrow> bool" where
  "all_returned st \<longleftrightarrow> g_stop st = StopReturned \<and> g_serve st = ServeReturned \<and> \<not> g_subscribed st"

abbreviation greach :: "bool \<Rightarrow> group \<Rightarrow> bool" where
  "greach external st \<equiv> \<exists>bs. gpath bs (start_group external) st"

section \<open>Invariants\<close>

text \<open>The first error of the group, with the goroutine it came from.\<close>

fun first_error :: "(goroutine \<times> go_error option) list \<Rightarrow> (goroutine \<times> go_error) option" where
  "first_error [] = None"
| "first_error ((t, None) # rs) = first_error rs"
| "first_error ((t, Some e) # rs) = Some (t, e)"

lemma first_error_append:
  "first_error (rs @ rs') = (case first_error rs of None \<Rightarrow> first_error rs' | Some x \<Rightarrow> Some x)"
  by (induction rs rule: first_error.induct) auto

text \<open>
  Every goroutine returns at most once; the context of the group is over exactly when the signal came
  or one has returned an error; before that nobody has returned because of it; and the server of
  gRPC is stopped by the stopper alone, with no call left unless it was forced.
\<close>

definition group_ok :: "bool \<Rightarrow> group \<Rightarrow> bool" where
  "group_ok external st \<longleftrightarrow>
     (g_ctx_done st \<longleftrightarrow> g_signalled st \<or> first_error (g_returns st) \<noteq> None) \<and>
     distinct (map fst (g_returns st)) \<and>
     fst ` set (g_returns st) = (if g_stop st = StopReturned then {Stopper} else {}) \<union>
       (if g_serve st = ServeReturned then {Serve} else {}) \<union> (if external \<and> \<not> g_subscribed st then {Subscriber} else {}) \<and>
     (g_subscribed st \<longrightarrow> external) \<and>
     (g_stop st = StopWaiting \<longleftrightarrow> g_grpc st = GrpcServing) \<and>
     (g_stop st = StopReturned \<longrightarrow> g_grpc st = GrpcStopped) \<and>
     (g_grpc st = GrpcStopped \<longrightarrow> \<not> g_forced st \<longrightarrow> g_calls st = 0) \<and>
     (g_stop st = StopReturned \<longrightarrow> first_error (g_returns st) \<noteq> None) \<and>
     (g_stop st \<noteq> StopWaiting \<longrightarrow> g_ctx_done st) \<and>
     (\<forall>t e. first_error (g_returns st) = Some (t, e) \<longrightarrow> \<not> g_signalled st \<longrightarrow>
       t = Serve \<or> (t = Subscriber \<and> subscriber_error False e))"

lemma group_ok_step:
  assumes "group_ok external st" "gstep b st st'"
  shows "group_ok external st'"
  using assms(2,1)
  by (cases rule: gstep.cases)
    (auto simp: group_ok_def returned_def first_error_append subscriber_error_def split: option.splits if_splits)

lemma group_ok_path: "gpath bs st st' \<Longrightarrow> group_ok external st \<Longrightarrow> group_ok external st'"
  by (induction rule: gpath.induct) (auto intro: group_ok_step)

lemma group_ok_reach: "greach external st \<Longrightarrow> group_ok external st"
  by (elim exE, erule group_ok_path) (simp add: group_ok_def start_group_def)

text \<open>How many steps the goroutines have left.\<close>

definition steps_left :: "group \<Rightarrow> nat" where
  "steps_left st =
     (case g_stop st of
        StopWaiting \<Rightarrow> 4
      | StopDraining \<Rightarrow> 1 + of_bool (g_grpc st = GrpcDraining) + of_bool (\<not> g_late st)
      | StopReturned \<Rightarrow> 0) +
     (case g_serve st of ServeIdle \<Rightarrow> 2 | ServeAccepting \<Rightarrow> 1 | ServeReturned \<Rightarrow> 0) + of_bool (g_subscribed st)"

lemma steps_left_step:
  assumes "group_ok external st" "gstep b st st'"
  shows "steps_left st' + of_bool (b = Inside) \<le> steps_left st"
  using assms(2,1)
  by (cases rule: gstep.cases)
    (auto simp: steps_left_def returned_def group_ok_def split: stop_pc.splits serve_pc.splits)

lemma steps_left_path:
  "gpath bs st st' \<Longrightarrow> group_ok external st \<Longrightarrow> length (filter (\<lambda>b. b = Inside) bs) + steps_left st' \<le> steps_left st"
proof (induction rule: gpath.induct)
  case (gpath_Cons b st st1 bs st2)
  with steps_left_step [OF gpath_Cons.prems gpath_Cons.hyps(1)] group_ok_step [OF gpath_Cons.prems gpath_Cons.hyps(1)]
  show ?case by (cases b) auto
qed simp

lemma steps_left_max: "steps_left st \<le> 7"
  by (simp add: steps_left_def split: stop_pc.split serve_pc.split)

text \<open>Once the context is over a goroutine can move until all have returned, whatever the calls do.\<close>

lemma group_moves:
  assumes "group_ok external st" "g_ctx_done st" "\<not> all_returned st"
  shows "\<exists>st'. gstep Inside st st'"
proof (cases "g_stop st")
  case StopWaiting
  with assms(2) stop_wakes show ?thesis by blast
next
  case StopDraining
  with timer stop_forced show ?thesis by (cases "g_late st") blast+
next
  case StopReturned
  with assms(1) have "g_grpc st \<noteq> GrpcServing" by (auto simp: group_ok_def)
  moreover have "subscriber_error (g_ctx_done st) ctx_canceled"
    using assms(2) by (simp add: subscriber_error_def)
  ultimately show ?thesis
    using assms(3) StopReturned serve_refused [of st] serve_ends [of st] subscriber_ends [of st ctx_canceled]
    by (cases "g_serve st") (auto simp: all_returned_def)
qed

text \<open>The server of gRPC, once stopped, takes no more calls.\<close>

lemma no_new_calls:
  "gpath bs st st' \<Longrightarrow> g_grpc st = GrpcStopped \<Longrightarrow> g_stop st = StopReturned \<Longrightarrow> g_calls st' \<le> g_calls st"
proof (induction rule: gpath.induct)
  case (gpath_Cons b st st1 bs st2)
  from gpath_Cons.hyps(1) gpath_Cons.prems
  have "g_grpc st1 = GrpcStopped \<and> g_stop st1 = StopReturned \<and> g_calls st1 \<le> g_calls st"
    by (cases rule: gstep.cases) (auto simp: returned_def)
  with gpath_Cons.IH show ?case by simp
qed simp

text \<open>A stop before the server has begun: the goroutine of \<open>Serve\<close> finds it stopped.\<close>

lemma stopped_before_serve:
  "\<exists>bs st. gpath bs (start_group external) st \<and> all_returned st \<and> g_signalled st \<and>
    first_error (g_returns st) = Some (Serve, server_stopped)"
proof -
  let ?s0 = "start_group external"
  let ?s1 = "?s0\<lparr>g_ctx_done := True, g_signalled := True\<rparr>"
  let ?s2 = "?s1\<lparr>g_stop := StopDraining, g_grpc := GrpcDraining\<rparr>"
  let ?s3 = "returned Serve (Some server_stopped) (?s2\<lparr>g_serve := ServeReturned\<rparr>)"
  let ?s4 = "?s3\<lparr>g_grpc := GrpcStopped\<rparr>"
  let ?s5 = "returned Stopper (Some ctx_canceled) (?s4\<lparr>g_stop := StopReturned\<rparr>)"
  let ?s6 = "returned Subscriber (Some ctx_canceled) (?s5\<lparr>g_subscribed := False\<rparr>)"
  have s1: "gstep Outside ?s0 ?s1" by (rule signal)
  have s2: "gstep Inside ?s1 ?s2" by (rule stop_wakes) (simp_all add: start_group_def)
  have s3: "gstep Inside ?s2 ?s3" by (rule serve_refused) (simp_all add: start_group_def)
  have s4: "gstep Inside ?s3 ?s4" by (rule drained) (simp_all add: start_group_def returned_def)
  have s5: "gstep Inside ?s4 ?s5" by (rule stop_graceful) (simp_all add: start_group_def returned_def)
  note path = gpath_Cons [OF s1 gpath_Cons [OF s2 gpath_Cons [OF s3 gpath_Cons [OF s4 gpath_Cons [OF s5 gpath_Nil]]]]]
  show ?thesis
  proof (cases external)
    case False
    with path show ?thesis
      by (intro exI conjI) (assumption, simp_all add: all_returned_def start_group_def returned_def)
  next
    case True
    then have "gstep Inside ?s5 ?s6"
      by (intro subscriber_ends) (simp_all add: start_group_def returned_def subscriber_error_def)
    from gpath_append [OF path gpath_Cons [OF this gpath_Nil]] show ?thesis
      by (intro exI conjI) (assumption, simp_all add: all_returned_def start_group_def returned_def)
  qed
qed

section \<open>The end of the process\<close>

lemma first_error_is: "first_error rs = Some (t, e) \<Longrightarrow> \<exists>us vs. map snd rs = us @ Some e # vs \<and> (\<forall>u \<in> set us. u = None)"
proof (induction rs rule: first_error.induct)
  case (2 t' rs)
  then obtain us vs where "map snd rs = us @ Some e # vs" "\<forall>u \<in> set us. u = None" by auto
  then show ?case by (intro exI [of _ "None # us"] exI [of _ vs]) simp
next
  case (3 t' e' rs)
  then show ?case by (intro exI [of _ "[]"] exI [of _ "map snd rs"]) simp
qed simp

text \<open>\<open>Wait\<close> returns the first error.\<close>

definition lawful_wait :: "(go_error option list \<Rightarrow> go_error option) \<Rightarrow> bool" where
  "lawful_wait g_Wait \<longleftrightarrow> (\<forall>us e vs. (\<forall>u \<in> set us. u = None) \<longrightarrow> g_Wait (us @ Some e # vs) = Some e)"

lemma wait_first: "lawful_wait g_Wait \<Longrightarrow> first_error rs = Some (t, e) \<Longrightarrow> g_Wait (map snd rs) = Some e"
  using first_error_is unfolding lawful_wait_def by metis

text \<open>
  C38. The process stops. In any run the goroutines make at most seven steps, and once the context of
  the group is over, by the signal or by an error, one of them can move until all have returned, even
  when a call never ends. When all have returned, each has once; no call begins any more, and none is
  in progress unless the stop was forced after the 5 seconds; and \<open>run\<close> returns the first error unless
  it is or wraps \<open>context.Canceled\<close>. Without a signal that error is one of \<open>Serve\<close> or a failure of the
  subscriber, never the end of the context. With one it need not be the end of the context either: a
  signal that comes before \<open>Serve\<close> has begun can end \<open>run\<close> with \<open>ErrServerStopped\<close>.
\<close>

theorem server_stops:
  assumes "greach external st" "lawful_wait g_Wait"
  shows "(\<forall>bs st'. gpath bs st st' \<longrightarrow> length (filter (\<lambda>b. b = Inside) bs) \<le> 7) \<and>
    (g_ctx_done st \<longrightarrow> \<not> all_returned st \<longrightarrow> (\<exists>st'. gstep Inside st st')) \<and>
    (all_returned st \<longrightarrow>
      distinct (map fst (g_returns st)) \<and>
      fst ` set (g_returns st) = {Stopper, Serve} \<union> (if external then {Subscriber} else {}) \<and>
      (\<forall>bs st'. gpath bs st st' \<longrightarrow> g_calls st' \<le> g_calls st) \<and> (\<not> g_forced st \<longrightarrow> g_calls st = 0) \<and>
      (\<exists>t e. first_error (g_returns st) = Some (t, e) \<and>
        run_finish g_Wait (map snd (g_returns st)) = (if errors_Is e (ContextErr Canceled) then None else Some e) \<and>
        (\<not> g_signalled st \<longrightarrow> t = Serve \<or> (t = Subscriber \<and> subscriber_error False e)))) \<and>
    (\<exists>st'. greach external st' \<and> all_returned st' \<and> g_signalled st' \<and>
      run_finish g_Wait (map snd (g_returns st')) = Some server_stopped)"
proof (intro conjI impI allI)
  note ok = group_ok_reach [OF assms(1)]
  have wait: "run_finish g_Wait (map snd (g_returns st')) = (if errors_Is e (ContextErr Canceled) then None else Some e)"
    if "first_error (g_returns st') = Some (t, e)" for st' t e
    by (simp add: run_finish_def wait_first [OF assms(2) that])
  show "length (filter (\<lambda>b. b = Inside) bs) \<le> 7" if "gpath bs st st'" for bs st'
    using steps_left_path [OF that ok] steps_left_max [of st] by simp
  show "\<exists>st'. gstep Inside st st'" if "g_ctx_done st" "\<not> all_returned st"
    using group_moves [OF ok that] .
  show "\<exists>st'. greach external st' \<and> all_returned st' \<and> g_signalled st' \<and>
      run_finish g_Wait (map snd (g_returns st')) = Some server_stopped"
    using stopped_before_serve [of external] wait by fastforce
  assume all: "all_returned st"
  then have stopped: "g_grpc st = GrpcStopped" "g_stop st = StopReturned"
    using ok by (auto simp: group_ok_def all_returned_def)
  show "g_calls st' \<le> g_calls st" if "gpath bs st st'" for bs st'
    using no_new_calls [OF that stopped] .
  show "g_calls st = 0" if "\<not> g_forced st"
    using ok stopped that by (simp add: group_ok_def)
  show "distinct (map fst (g_returns st))"
    "fst ` set (g_returns st) = {Stopper, Serve} \<union> (if external then {Subscriber} else {})"
    using ok all by (auto simp: group_ok_def all_returned_def)
  obtain t e where first: "first_error (g_returns st) = Some (t, e)"
    using ok stopped by (auto simp: group_ok_def)
  then show "\<exists>t e. first_error (g_returns st) = Some (t, e) \<and>
      run_finish g_Wait (map snd (g_returns st)) = (if errors_Is e (ContextErr Canceled) then None else Some e) \<and>
      (\<not> g_signalled st \<longrightarrow> t = Serve \<or> (t = Subscriber \<and> subscriber_error False e))"
    using wait [OF first] ok by (auto simp: group_ok_def)
qed

text \<open>The instance: the signal reaches a server in local mode.\<close>

definition find_error :: "go_error option list \<Rightarrow> go_error option" where
  "find_error rs = (case filter (\<lambda>r. r \<noteq> None) rs of [] \<Rightarrow> None | r # _ \<Rightarrow> r)"

lemma find_error_lawful: "lawful_wait find_error"
proof -
  have "filter (\<lambda>r. r \<noteq> None) us = []" if "\<forall>u \<in> set us. u = None" for us :: "go_error option list"
    using that by (induction us) auto
  then show ?thesis by (simp add: lawful_wait_def find_error_def)
qed

theorem server_stops_witness:
  "\<exists>st st'. greach False st \<and> g_ctx_done st \<and> gstep Inside st st' \<and>
    run_finish find_error [None, Some ctx_canceled] = None"
proof -
  let ?st = "(start_group False)\<lparr>g_ctx_done := True, g_signalled := True\<rparr>"
  have reach: "greach False ?st"
    by (rule exI, rule gpath_Cons [OF signal gpath_Nil])
  from server_stops [OF reach find_error_lawful] obtain st' where "gstep Inside ?st st'"
    by (auto simp: all_returned_def start_group_def)
  with reach show ?thesis
    by (intro exI [of _ ?st] exI [of _ st']) (simp add: run_finish_def find_error_def)
qed

end
