(* ===== verification/Reload_Race.thy ===== *)
theory Reload_Race
  imports Subnetlist
begin

text \<open>
  A reload of the policer statement by statement (\<open>Load\<close> in \<open>internal/domain/subnetlist/subnetlist.go\<close>,
  \<open>ReloadSubnets\<close> in \<open>subnetpolicer.go\<close>) and the checks that other goroutines make meanwhile: nothing in
  the code keeps them apart. The theory takes each write of a map as one step, which is the best the
  missing lock can give; Go may also end the process when it sees a map read and written at once.
\<close>

section \<open>The states a reload passes\<close>

text \<open>The list before each \<open>Add\<close> of the loop and at its end.\<close>

fun add_trace :: "string list \<Rightarrow> SubnetList \<Rightarrow> SubnetList list" where
  "add_trace [] nl = [nl]"
| "add_trace (cidr # cidrs) nl =
     nl # (case SubnetList_Add cidr nl of
             (Some err, nl') \<Rightarrow> [nl']
           | (None, nl') \<Rightarrow> add_trace cidrs nl')"

text \<open>The list before \<open>Load\<close> has read the store, after \<open>Clear\<close>, and through the loop.\<close>

definition load_trace :: "string list \<Rightarrow> SubnetList \<Rightarrow> SubnetList list" where
  "load_trace cidrs nl = nl # add_trace cidrs (SubnetList_Clear nl)"

text \<open>The policer through \<open>ReloadSubnets\<close>, the store answering with the texts \<open>cw\<close> and \<open>cb\<close>.\<close>

definition reload_trace :: "string list \<Rightarrow> string list \<Rightarrow> SubnetList \<Rightarrow> SubnetList \<Rightarrow> SubnetPolicer list" where
  "reload_trace cw cb wl bl =
     map (\<lambda>l. \<lparr>pol_Whitelist = Some l, pol_Blacklist = Some bl\<rparr>) (load_trace cw wl) @
     (case add_all cw (SubnetList_Clear wl) of
        (Some err, wl') \<Rightarrow> []
      | (None, wl') \<Rightarrow> map (\<lambda>l. \<lparr>pol_Whitelist = Some wl', pol_Blacklist = Some l\<rparr>) (load_trace cb bl))"

text \<open>A check that reads the white list in one state and the black list in a later one.\<close>

definition check_across :: "SubnetPolicer \<Rightarrow> SubnetPolicer \<Rightarrow> IP \<Rightarrow> PolicyDecision" where
  "check_across s s' ip =
     (if list_holds (pol_Whitelist s) ip then DecisionAllow
      else if list_holds (pol_Blacklist s') ip then DecisionDeny
      else DecisionContinue)"

lemma check_across_same: "check_across s s ip = SubnetPolicer_Check s ip"
  by (simp add: check_across_def SubnetPolicer_Check_def)

section \<open>Facts about them\<close>

lemma add_trace_last: "last (add_trace cs nl) = snd (add_all cs nl)" and add_trace_nonempty [simp]: "add_trace cs nl \<noteq> []"
  by (induction cs nl rule: add_trace.induct) (auto split: option.splits prod.splits)

lemma add_trace_hd: "nl \<in> set (add_trace cs nl)"
  by (cases cs) simp_all

lemma add_trace_lists:
  "l \<in> set (add_trace cs nl) \<Longrightarrow> list_ok nl \<Longrightarrow> list_ok l \<and> texts l \<subseteq> texts nl \<union> set cs"
proof (induction cs arbitrary: nl)
  case (Cons c cs)
  obtain e nl' where a: "SubnetList_Add c nl = (e, nl')" by (rule prod.exhaust)
  have nl': "list_ok nl'" "texts nl' \<subseteq> insert c (texts nl)"
    using list_ok_Add [OF Cons.prems(2), of c] SubnetList_Add_texts [of c nl] by (auto simp: a split: if_splits)
  show ?case
  proof (cases "l = nl")
    case False
    with Cons.prems(1) have "l = nl' \<or> l \<in> set (add_trace cs nl')"
      by (cases e) (auto simp: a)
    with Cons.IH [of nl'] nl' show ?thesis by auto
  qed (use Cons.prems in auto)
qed simp

lemma load_trace_lists:
  assumes "l \<in> set (load_trace cs nl)" "list_ok nl"
  shows "list_ok l \<and> texts l \<subseteq> texts nl \<union> set cs"
  using assms add_trace_lists [of l cs "SubnetList_Clear nl"] by (auto simp: load_trace_def)

lemma load_trace_last: "last (load_trace cs nl) = snd (add_all cs (SubnetList_Clear nl))"
  by (simp add: load_trace_def add_trace_last)

text \<open>The last state is what the reload of \<open>Subnetlist\<close> leaves.\<close>

lemma reload_trace_last:
  assumes "repo_GetSubnetLists repo r1 (listType wl) w = (Inr cw, w1)"
    and "repo_GetSubnetLists repo r2 (listType bl) w1 = (Inr cb, w2)"
  shows "snd (fst (SubnetPolicer_ReloadSubnets repo r1 r2 \<lparr>pol_Whitelist = Some wl, pol_Blacklist = Some bl\<rparr> w))
    = last (reload_trace cw cb wl bl)"
proof -
  have "load_trace cs nl \<noteq> []" for cs nl by (simp add: load_trace_def)
  with assms show ?thesis
    by (auto simp: SubnetPolicer_ReloadSubnets_def reload_list_def SubnetList_Load_def reload_trace_def
        last_append last_map load_trace_last split: prod.split option.split)
qed

lemma holds_texts: "list_ok l \<Longrightarrow> list_holds (Some l) ip \<longleftrightarrow> (\<exists>c \<in> texts l. cidr_covers c ip)"
  by (simp add: list_holds_def Contains_texts)

section \<open>A check during a reload\<close>

text \<open>
  C29. A reload disturbs the checks made meanwhile, even one that changes nothing. While the lists are
  replaced by the stored ones, a check never takes an address to be on a list unless it was on it
  before or is on it afterwards. But there is a moment when nothing is on the white list, so that an
  address on both lists is denied and an allowed one is counted, and one when nothing is on the black
  list, so that a denied address is let go on to the counters. At the end the stored lists decide.
\<close>

theorem check_during_reload:
  assumes "policer_wired \<lparr>pol_Whitelist = Some wl, pol_Blacklist = Some bl\<rparr>"
    and "\<forall>c \<in> set cw \<union> set cb. valid_cidr c"
  shows "(\<forall>s \<in> set (reload_trace cw cb wl bl). \<forall>s' \<in> set (reload_trace cw cb wl bl). \<forall>ip.
      (check_across s s' ip = DecisionAllow \<longrightarrow> (\<exists>c \<in> texts wl \<union> set cw. cidr_covers c ip)) \<and>
      (check_across s s' ip = DecisionDeny \<longrightarrow> (\<exists>c \<in> texts bl \<union> set cb. cidr_covers c ip))) \<and>
    (\<exists>s \<in> set (reload_trace cw cb wl bl). \<forall>ip. SubnetPolicer_Check s ip = decide {} (texts bl) ip) \<and>
    (\<exists>s \<in> set (reload_trace cw cb wl bl). \<forall>ip. SubnetPolicer_Check s ip = decide (set cw) {} ip) \<and>
    (\<forall>ip. SubnetPolicer_Check (last (reload_trace cw cb wl bl)) ip = decide (set cw) (set cb) ip)"
proof -
  have ok: "list_ok wl" "list_ok bl"
    using assms(1) by (auto simp: policer_wired_def)
  let ?wl = "snd (add_all cw (SubnetList_Clear wl))" and ?bl = "snd (add_all cb (SubnetList_Clear bl))"
  have loaded: "add_all cw (SubnetList_Clear wl) = (None, ?wl)" "list_ok ?wl" "texts ?wl = set cw"
    using add_all_result [of cw "SubnetList_Clear wl"] add_all_texts [of cw "SubnetList_Clear wl"] assms(2)
    by (auto simp: add_all_ok prod_eq_iff takeWhile_eq_all_conv [THEN iffD2])
  have trace: "reload_trace cw cb wl bl =
      map (\<lambda>l. \<lparr>pol_Whitelist = Some l, pol_Blacklist = Some bl\<rparr>) (load_trace cw wl) @
      map (\<lambda>l. \<lparr>pol_Whitelist = Some ?wl, pol_Blacklist = Some l\<rparr>) (load_trace cb bl)"
  proof -
    obtain wl' where "add_all cw (SubnetList_Clear wl) = (None, wl')" using loaded(1) by blast
    then show ?thesis by (simp add: reload_trace_def)
  qed
  have members: "\<exists>l l'. s = \<lparr>pol_Whitelist = Some l, pol_Blacklist = Some l'\<rparr> \<and> list_ok l \<and> list_ok l' \<and>
      texts l \<subseteq> texts wl \<union> set cw \<and> texts l' \<subseteq> texts bl \<union> set cb" if "s \<in> set (reload_trace cw cb wl bl)" for s
    using that ok loaded(2,3) load_trace_lists [of _ cw wl] load_trace_lists [of _ cb bl] by (auto simp: trace)
  have safe: "(check_across s s' ip = DecisionAllow \<longrightarrow> (\<exists>c \<in> texts wl \<union> set cw. cidr_covers c ip)) \<and>
      (check_across s s' ip = DecisionDeny \<longrightarrow> (\<exists>c \<in> texts bl \<union> set cb. cidr_covers c ip))"
    if "s \<in> set (reload_trace cw cb wl bl)" "s' \<in> set (reload_trace cw cb wl bl)" for s s' ip
  proof -
    from members [OF that(1)] obtain l where "pol_Whitelist s = Some l" "list_ok l" "texts l \<subseteq> texts wl \<union> set cw" by auto
    moreover from members [OF that(2)] obtain l' where "pol_Blacklist s' = Some l'" "list_ok l'" "texts l' \<subseteq> texts bl \<union> set cb" by auto
    ultimately show ?thesis
      unfolding check_across_def by (simp only: holds_texts) auto
  qed
  let ?a = "\<lparr>pol_Whitelist = Some (SubnetList_Clear wl), pol_Blacklist = Some bl\<rparr>"
  let ?b = "\<lparr>pol_Whitelist = Some ?wl, pol_Blacklist = Some (SubnetList_Clear bl)\<rparr>"
  have "SubnetList_Clear nl \<in> set (load_trace cs nl)" for cs nl
    using add_trace_hd by (simp add: load_trace_def)
  then have states: "?a \<in> set (reload_trace cw cb wl bl)" "?b \<in> set (reload_trace cw cb wl bl)"
    unfolding trace set_append set_map by blast+
  have decisions: "\<forall>ip. SubnetPolicer_Check ?a ip = decide {} (texts bl) ip" "\<forall>ip. SubnetPolicer_Check ?b ip = decide (set cw) {} ip"
    using ok loaded(2,3) by (simp_all add: SubnetPolicer_Check_def holds_texts decide_def)
  have "last (reload_trace cw cb wl bl) = \<lparr>pol_Whitelist = Some ?wl, pol_Blacklist = Some ?bl\<rparr>"
  proof -
    have "load_trace cb bl \<noteq> []" by (simp add: load_trace_def)
    then show ?thesis by (simp add: trace last_map load_trace_last)
  qed
  moreover have "list_ok ?bl" "texts ?bl = set cb"
    using add_all_texts [of cb "SubnetList_Clear bl"] assms(2)
    by (auto simp: add_all_ok takeWhile_eq_all_conv [THEN iffD2])
  ultimately have end_state: "\<forall>ip. SubnetPolicer_Check (last (reload_trace cw cb wl bl)) ip = decide (set cw) (set cb) ip"
    using loaded(2,3) by (simp add: SubnetPolicer_Check_def holds_texts decide_def)
  show ?thesis
    by (intro conjI ballI allI) (use safe states decisions end_state in blast)+
qed

text \<open>One network on both lists, reloaded as it is: it is denied in between.\<close>

theorem check_during_reload_witness:
  "\<exists>s \<in> set (reload_trace [''10.0.0.0/8''] [''10.0.0.0/8'']
      (snd (SubnetList_Add ''10.0.0.0/8'' (NewSubnetList Whitelist)))
      (snd (SubnetList_Add ''10.0.0.0/8'' (NewSubnetList Blacklist)))).
    SubnetPolicer_Check s (v4InV6Prefix @ [10, 1, 2, 3]) = DecisionDeny"
proof -
  let ?wl = "snd (SubnetList_Add ''10.0.0.0/8'' (NewSubnetList Whitelist))"
  let ?bl = "snd (SubnetList_Add ''10.0.0.0/8'' (NewSubnetList Blacklist))"
  have bl: "texts ?bl = {''10.0.0.0/8''}"
    by (simp add: SubnetList_Add_texts witness_net_facts(1))
  have "listType (NewSubnetList lt) = lt" for lt by (simp add: NewSubnetList_def)
  then have "policer_wired \<lparr>pol_Whitelist = Some ?wl, pol_Blacklist = Some ?bl\<rparr>"
    by (simp add: policer_wired_def list_ok_Add)
  from check_during_reload [OF this, of "[''10.0.0.0/8'']" "[''10.0.0.0/8'']"] obtain s where
    "s \<in> set (reload_trace [''10.0.0.0/8''] [''10.0.0.0/8''] ?wl ?bl)"
    "SubnetPolicer_Check s (v4InV6Prefix @ [10, 1, 2, 3]) = decide {} (texts ?bl) (v4InV6Prefix @ [10, 1, 2, 3])"
    using witness_net_facts(1) by auto
  moreover have "decide {} (texts ?bl) (v4InV6Prefix @ [10, 1, 2, 3]) = DecisionDeny"
    by (simp add: bl decide_def witness_net_facts(2))
  ultimately show ?thesis by auto
qed

end
