(* ===== verification/Interleaved_Requests.thy ===== *)
theory Interleaved_Requests
  imports Local_Counting
begin

text \<open>
  Overlapping requests on the local server. gRPC runs every call in a goroutine of its own; a call is
  taken apart here into what it does to shared state in one go: a method of a store, which is atomic
  (\<open>Buckets_Concurrent\<close> shows it of the counters, one lock of the lists), a read of one of the
  policer's lists, the emptying of one, and each write to its map, which no lock keeps apart. Everything
  else a call does is its own business and belongs to the step before it. Calls are interleaved by any
  schedule; the theory ties a call that is left alone to the handler of \<open>Grpc_Server\<close>.
\<close>

section \<open>The steps of a call\<close>

datatype stage =
    Arrived
  | AskWhite IP
  | AskBlack IP
  | AskLogin IP
  | AskPassword IP
  | AskAddress IP
  | EmptyLogin IP
  | EmptyPassword IP
  | EmptyAddress IP
  | ReadList ListType
  | ClearList ListType "string list"
  | AddTexts ListType "string list"
  | Answered response

text \<open>
  An attempt (\<open>CheckAttempt\<close> of the server, \<open>Check\<close> of the service and of the policer). The times at
  which it samples the clock for its three counters are arguments of the call, not taken from a clock
  of the state: a schedule may take a counter's step later than one with a later time, which is how an
  attempt overtaken between sampling its time and taking the lock looks here.
\<close>

fun check_step ::
  "config_Limits \<Rightarrow> moments \<Rightarrow> CheckAttemptRequest \<Rightarrow> stage \<Rightarrow> local_world \<Rightarrow> (stage \<times> local_world) option" where
  "check_step cfg m req Arrived w =
     (case ParseIP (req_Ip req) of
        None \<Rightarrow> Some (Answered (Failed (Sentinel (GrpcErr ErrInvalidIPAddress))), w)
      | Some ip \<Rightarrow> Some (AskWhite ip, w))"
| "check_step cfg m req (AskWhite ip) w =
     Some (if list_holds (pol_Whitelist (policer w)) ip then Answered (Checked True) else AskBlack ip, w)"
| "check_step cfg m req (AskBlack ip) w =
     Some (if list_holds (pol_Blacklist (policer w)) ip then Answered (Checked False) else AskLogin ip, w)"
| "check_step cfg m req (AskLogin ip) w =
     (case checker_Allow (limitChecker (local_rate cfg)) (at_login m) LoginLimit (req_Login req) w of
        (Inl err, w1) \<Rightarrow> Some (Answered (Failed err), w1)
      | (Inr ok, w1) \<Rightarrow> Some (if \<not> ok then Answered (Checked False) else AskPassword ip, w1))"
| "check_step cfg m req (AskPassword ip) w =
     (case checker_Allow (limitChecker (local_rate cfg)) (at_password m) PasswordLimit (hashPassword (req_Password req)) w of
        (Inl err, w1) \<Rightarrow> Some (Answered (Failed err), w1)
      | (Inr ok, w1) \<Rightarrow> Some (if \<not> ok then Answered (Checked False) else AskAddress ip, w1))"
| "check_step cfg m req (AskAddress ip) w =
     (case checker_Allow (limitChecker (local_rate cfg)) (at_ip m) IPLimit (IP_String ip) w of
        (Inl err, w1) \<Rightarrow> Some (Answered (Failed err), w1)
      | (Inr ok, w1) \<Rightarrow> Some (if \<not> ok then Answered (Checked False) else Answered (Checked True), w1))"
| "check_step cfg m req _ w = None"

text \<open>A reset (\<open>ResetBucket\<close> of the server, \<open>Reset\<close> of the service).\<close>

fun reset_step ::
  "config_Limits \<Rightarrow> ResetBucketRequest \<Rightarrow> stage \<Rightarrow> local_world \<Rightarrow> (stage \<times> local_world) option" where
  "reset_step cfg req Arrived w =
     (case ParseIP (reset_Ip req) of
        None \<Rightarrow> Some (Answered (Failed (Sentinel (GrpcErr ErrInvalidIPAddress))), w)
      | Some ip \<Rightarrow> Some (EmptyLogin ip, w))"
| "reset_step cfg req (EmptyLogin ip) w =
     (case checker_Reset (limitChecker (local_rate cfg)) LoginLimit (reset_Login req) w of
        (Some err, w1) \<Rightarrow> Some (Answered (Failed err), w1)
      | (None, w1) \<Rightarrow> Some (EmptyPassword ip, w1))"
| "reset_step cfg req (EmptyPassword ip) w =
     (case checker_Reset (limitChecker (local_rate cfg)) PasswordLimit (hashPassword (reset_Password req)) w of
        (Some err, w1) \<Rightarrow> Some (Answered (Failed err), w1)
      | (None, w1) \<Rightarrow> Some (EmptyAddress ip, w1))"
| "reset_step cfg req (EmptyAddress ip) w =
     (case checker_Reset (limitChecker (local_rate cfg)) IPLimit (IP_String ip) w of
        (Some err, w1) \<Rightarrow> Some (Answered (Failed err), w1)
      | (None, w1) \<Rightarrow> Some (Answered Done, w1))"
| "reset_step cfg req _ w = None"

text \<open>A reload of the policer (\<open>ReloadSubnets\<close>, \<open>Load\<close>), as part of an edit: the white list, then the black one.\<close>

definition pol_list :: "ListType \<Rightarrow> SubnetPolicer \<Rightarrow> SubnetList option" where
  "pol_list lt sp = (if lt = Whitelist then pol_Whitelist sp else pol_Blacklist sp)"

definition put_list :: "ListType \<Rightarrow> SubnetList \<Rightarrow> local_world \<Rightarrow> local_world" where
  "put_list lt nl w =
     put_policer (if lt = Whitelist then (policer w)\<lparr>pol_Whitelist := Some nl\<rparr>
       else (policer w)\<lparr>pol_Blacklist := Some nl\<rparr>) w"

definition loaded :: "ListType \<Rightarrow> stage" where
  "loaded lt = (if lt = Whitelist then ReadList Blacklist else Answered Done)"

definition load_failed :: "ListType \<Rightarrow> go_error \<Rightarrow> stage" where
  "load_failed lt err =
     Answered (Failed (Wrapf ''publish subnet update''
       (Wrapf (if lt = Whitelist then ''update whitelist'' else ''update blacklist'') err)))"

fun reload_step :: "range_order \<Rightarrow> range_order \<Rightarrow> stage \<Rightarrow> local_world \<Rightarrow> (stage \<times> local_world) option" where
  "reload_step r1 r2 (ReadList lt) w =
     (case pol_list lt (policer w) of
        None \<Rightarrow> Some (loaded lt, w)
      | Some nl \<Rightarrow>
          (case repo_GetSubnetLists local_SubnetRepo (if lt = Whitelist then r1 else r2) (listType nl) w of
             (Inl err, w1) \<Rightarrow> Some (load_failed lt err, w1)
           | (Inr cidrs, w1) \<Rightarrow> Some (ClearList lt cidrs, w1)))"
| "reload_step r1 r2 (ClearList lt cidrs) w =
     map_option (\<lambda>nl. (AddTexts lt cidrs, put_list lt (SubnetList_Clear nl) w)) (pol_list lt (policer w))"
| "reload_step r1 r2 (AddTexts lt []) w = Some (loaded lt, w)"
| "reload_step r1 r2 (AddTexts lt (cidr # cidrs)) w =
     map_option (\<lambda>nl. case SubnetList_Add cidr nl of
        (Some err, nl') \<Rightarrow> (load_failed lt err, put_list lt nl' w)
      | (None, nl') \<Rightarrow> (AddTexts lt cidrs, put_list lt nl' w)) (pol_list lt (policer w))"
| "reload_step r1 r2 _ w = None"

text \<open>An edit: the store is written, then the publisher reloads the policer.\<close>

fun write_step :: "edit \<Rightarrow> local_world \<Rightarrow> go_error option \<times> local_world" where
  "write_step (AddW c) w =
     (case repo_AddCIDR local_SubnetRepo Whitelist c w of (err, w1) \<Rightarrow> (map_option (Wrapf ''add to whitelist subnet'') err, w1))"
| "write_step (AddB c) w =
     (case repo_AddCIDR local_SubnetRepo Blacklist c w of (err, w1) \<Rightarrow> (map_option (Wrapf ''add to blacklist subnet'') err, w1))"
| "write_step (RemoveW c) w =
     (case repo_RemoveCIDR local_SubnetRepo Whitelist c w of (err, w1) \<Rightarrow> (map_option (Wrapf ''remove from whitelist subnet'') err, w1))"
| "write_step (RemoveB c) w =
     (case repo_RemoveCIDR local_SubnetRepo Blacklist c w of (err, w1) \<Rightarrow> (map_option (Wrapf ''remove from blacklist subnet'') err, w1))"

fun edit_step :: "edit \<Rightarrow> range_order \<Rightarrow> range_order \<Rightarrow> stage \<Rightarrow> local_world \<Rightarrow> (stage \<times> local_world) option" where
  "edit_step e r1 r2 Arrived w =
     (case write_step e w of
        (Some err, w1) \<Rightarrow> Some (Answered (Failed err), w1)
      | (None, w1) \<Rightarrow> Some (ReadList Whitelist, w1))"
| "edit_step e r1 r2 s w = reload_step r1 r2 s w"

fun request_step :: "config_Limits \<Rightarrow> request \<Rightarrow> stage \<Rightarrow> local_world \<Rightarrow> (stage \<times> local_world) option" where
  "request_step cfg (CheckAttempt m req) s w = check_step cfg m req s w"
| "request_step cfg (ResetBucket req) s w = reset_step cfg req s w"
| "request_step cfg (ManageCIDR e r1 r2) s w = edit_step e r1 r2 s w"

section \<open>Interleavings\<close>

text \<open>
  The calls are numbered; \<open>tasks\<close> says what each asks for. \<open>i_hist\<close> is no state of the program: it
  records every access of a call to a counter and whether the counter let it through.
\<close>

record istate =
  i_world :: local_world
  i_at :: "nat \<Rightarrow> stage"
  i_hist :: "(nat \<times> bucket_event \<times> bool) list"

fun counter_event :: "config_Limits \<Rightarrow> request \<Rightarrow> stage \<Rightarrow> bucket_event list" where
  "counter_event cfg (CheckAttempt m req) (AskLogin ip) =
     [attempt_event cfg m (req_Login req) (req_Password req) ip LoginLimit]"
| "counter_event cfg (CheckAttempt m req) (AskPassword ip) =
     [attempt_event cfg m (req_Login req) (req_Password req) ip PasswordLimit]"
| "counter_event cfg (CheckAttempt m req) (AskAddress ip) =
     [attempt_event cfg m (req_Login req) (req_Password req) ip IPLimit]"
| "counter_event cfg (ResetBucket req) (EmptyLogin ip) =
     [ResetKey (attempt_key LoginLimit (reset_Login req) (reset_Password req) ip)]"
| "counter_event cfg (ResetBucket req) (EmptyPassword ip) =
     [ResetKey (attempt_key PasswordLimit (reset_Login req) (reset_Password req) ip)]"
| "counter_event cfg (ResetBucket req) (EmptyAddress ip) =
     [ResetKey (attempt_key IPLimit (reset_Login req) (reset_Password req) ip)]"
| "counter_event cfg r s = []"

definition istep :: "config_Limits \<Rightarrow> (nat \<Rightarrow> request) \<Rightarrow> nat \<Rightarrow> istate \<Rightarrow> istate option" where
  "istep cfg tasks t st =
     map_option (\<lambda>(s, w).
       \<lparr>i_world = w, i_at = (i_at st)(t := s),
        i_hist = i_hist st @
          map (\<lambda>e. (t, e, event_ok e (limit_db (i_world st)))) (counter_event cfg (tasks t) (i_at st t))\<rparr>)
     (request_step cfg (tasks t) (i_at st t) (i_world st))"

definition istart :: "local_world \<Rightarrow> istate" where
  "istart w = \<lparr>i_world = w, i_at = (\<lambda>_. Arrived), i_hist = []\<rparr>"

inductive ireach :: "config_Limits \<Rightarrow> (nat \<Rightarrow> request) \<Rightarrow> istate \<Rightarrow> bool" for cfg tasks where
  ireach_start: "ireach cfg tasks (istart local_init)"
| ireach_step: "ireach cfg tasks st \<Longrightarrow> istep cfg tasks t st = Some st' \<Longrightarrow> ireach cfg tasks st'"

fun irun :: "config_Limits \<Rightarrow> (nat \<Rightarrow> request) \<Rightarrow> nat list \<Rightarrow> istate \<Rightarrow> istate option" where
  "irun cfg tasks [] st = Some st"
| "irun cfg tasks (t # sched) st =
     (case istep cfg tasks t st of None \<Rightarrow> None | Some st1 \<Rightarrow> irun cfg tasks sched st1)"

lemma irun_append:
  "irun cfg tasks (ts @ ts') st = (case irun cfg tasks ts st of None \<Rightarrow> None | Some st1 \<Rightarrow> irun cfg tasks ts' st1)"
  by (induction ts arbitrary: st) (auto split: option.split)

lemma irun_reach: "irun cfg tasks ts st = Some st' \<Longrightarrow> ireach cfg tasks st \<Longrightarrow> ireach cfg tasks st'"
  by (induction ts arbitrary: st) (auto split: option.splits intro: ireach_step)

lemma istep_cases:
  assumes "istep cfg tasks t st = Some st'"
  obtains s w where "request_step cfg (tasks t) (i_at st t) (i_world st) = Some (s, w)"
    "i_world st' = w" "i_at st' = (i_at st)(t := s)"
    "i_hist st' = i_hist st @
      map (\<lambda>e. (t, e, event_ok e (limit_db (i_world st)))) (counter_event cfg (tasks t) (i_at st t))"
  using assms by (auto simp: istep_def)

section \<open>The steps over the stores\<close>

lemma ask_counter:
  "checker_Allow (limitChecker (local_rate cfg)) (at_login m) LoginLimit login w =
    (Inr (event_ok (attempt_event cfg m login password ip LoginLimit) (limit_db w)),
     put_limit_db (bucket_step (attempt_event cfg m login password ip LoginLimit) (limit_db w)) w)"
  "checker_Allow (limitChecker (local_rate cfg)) (at_password m) PasswordLimit (hashPassword password) w =
    (Inr (event_ok (attempt_event cfg m login password ip PasswordLimit) (limit_db w)),
     put_limit_db (bucket_step (attempt_event cfg m login password ip PasswordLimit) (limit_db w)) w)"
  "checker_Allow (limitChecker (local_rate cfg)) (at_ip m) IPLimit (IP_String ip) w =
    (Inr (event_ok (attempt_event cfg m login password ip IPLimit) (limit_db w)),
     put_limit_db (bucket_step (attempt_event cfg m login password ip IPLimit) (limit_db w)) w)"
  by (auto simp: checker_local prod_eq_iff Allow_decision attempt_event_def attempts_def attempt_key_def moment_of_def)

lemma empty_counter:
  "checker_Reset (limitChecker (local_rate cfg)) LoginLimit login w =
    (None, put_limit_db (bucket_step (ResetKey (attempt_key LoginLimit login password ip)) (limit_db w)) w)"
  "checker_Reset (limitChecker (local_rate cfg)) PasswordLimit (hashPassword password) w =
    (None, put_limit_db (bucket_step (ResetKey (attempt_key PasswordLimit login password ip)) (limit_db w)) w)"
  "checker_Reset (limitChecker (local_rate cfg)) IPLimit (IP_String ip) w =
    (None, put_limit_db (bucket_step (ResetKey (attempt_key IPLimit login password ip)) (limit_db w)) w)"
  by (auto simp: checker_local prod_eq_iff Reset_result attempt_key_def)

lemma read_list:
  "repo_GetSubnetLists local_SubnetRepo r lt w = (Inr (projr (fst (GetSubnetLists r lt (subnet_db w)))), w)"
  using GetSubnetLists_result [of r lt "subnet_db w"] by (auto simp: wiring_simps prod_eq_iff)

lemma write_list: "write_step e w = (None, put_subnet_db (store_write (write_of e) (subnet_db w)) w)"
  by (cases e) (simp_all add: wiring_simps on_part_def prod_eq_iff split: prod.split)

section \<open>A call that is left alone\<close>

text \<open>What remains of a call at a stage, when nothing else happens any more.\<close>

definition asked :: "bucket_event list \<Rightarrow> local_world \<Rightarrow> response \<times> local_world" where
  "asked es w = (Checked (all_ok es (limit_db w)), put_limit_db (bucket_run (made es (limit_db w)) (limit_db w)) w)"

definition emptied :: "string list \<Rightarrow> local_world \<Rightarrow> response \<times> local_world" where
  "emptied ks w = (Done, put_limit_db (bucket_run (map ResetKey ks) (limit_db w)) w)"

definition failure :: "ListType \<Rightarrow> go_error \<Rightarrow> response" where
  "failure lt err = Failed (Wrapf ''publish subnet update''
     (Wrapf (if lt = Whitelist then ''update whitelist'' else ''update blacklist'') err))"

definition load_rest ::
  "(local_world \<Rightarrow> response \<times> local_world) \<Rightarrow> ListType \<Rightarrow> string list \<Rightarrow> SubnetList \<Rightarrow> local_world \<Rightarrow> response \<times> local_world" where
  "load_rest k lt cs nl w =
     (case add_all cs nl of
        (Some err, nl') \<Rightarrow> (failure lt err, put_list lt nl' w)
      | (None, nl') \<Rightarrow> k (put_list lt nl' w))"

definition read_rest ::
  "(local_world \<Rightarrow> response \<times> local_world) \<Rightarrow> range_order \<Rightarrow> ListType \<Rightarrow> local_world \<Rightarrow> response \<times> local_world" where
  "read_rest k r lt w =
     (case pol_list lt (policer w) of
        None \<Rightarrow> k w
      | Some nl \<Rightarrow>
          load_rest k lt (projr (fst (GetSubnetLists r (listType nl) (subnet_db w)))) (SubnetList_Clear nl) w)"

definition black_rest :: "range_order \<Rightarrow> local_world \<Rightarrow> response \<times> local_world" where
  "black_rest r2 = read_rest (Pair Done) r2 Blacklist"

definition lists_rest :: "range_order \<Rightarrow> ListType \<Rightarrow> local_world \<Rightarrow> response \<times> local_world" where
  "lists_rest r2 lt = (if lt = Whitelist then black_rest r2 else Pair Done)"

fun rest_of :: "config_Limits \<Rightarrow> request \<Rightarrow> stage \<Rightarrow> local_world \<Rightarrow> response \<times> local_world" where
  "rest_of cfg r (Answered a) w = (a, w)"
| "rest_of cfg (CheckAttempt m req) (AskWhite ip) w =
     (case SubnetPolicer_Check (policer w) ip of
        DecisionAllow \<Rightarrow> (Checked True, w)
      | DecisionDeny \<Rightarrow> (Checked False, w)
      | DecisionContinue \<Rightarrow> asked (three_events cfg m (req_Login req) (req_Password req) ip) w)"
| "rest_of cfg (CheckAttempt m req) (AskBlack ip) w =
     (if list_holds (pol_Blacklist (policer w)) ip then (Checked False, w)
      else asked (three_events cfg m (req_Login req) (req_Password req) ip) w)"
| "rest_of cfg (CheckAttempt m req) (AskLogin ip) w = asked (three_events cfg m (req_Login req) (req_Password req) ip) w"
| "rest_of cfg (CheckAttempt m req) (AskPassword ip) w =
     asked (map (attempt_event cfg m (req_Login req) (req_Password req) ip) [PasswordLimit, IPLimit]) w"
| "rest_of cfg (CheckAttempt m req) (AskAddress ip) w =
     asked (map (attempt_event cfg m (req_Login req) (req_Password req) ip) [IPLimit]) w"
| "rest_of cfg (ResetBucket req) (EmptyLogin ip) w =
     emptied (map (\<lambda>lt. attempt_key lt (reset_Login req) (reset_Password req) ip) [LoginLimit, PasswordLimit, IPLimit]) w"
| "rest_of cfg (ResetBucket req) (EmptyPassword ip) w =
     emptied (map (\<lambda>lt. attempt_key lt (reset_Login req) (reset_Password req) ip) [PasswordLimit, IPLimit]) w"
| "rest_of cfg (ResetBucket req) (EmptyAddress ip) w =
     emptied (map (\<lambda>lt. attempt_key lt (reset_Login req) (reset_Password req) ip) [IPLimit]) w"
| "rest_of cfg (ManageCIDR e r1 r2) (ReadList lt) w =
     read_rest (lists_rest r2 lt) (if lt = Whitelist then r1 else r2) lt w"
| "rest_of cfg (ManageCIDR e r1 r2) (ClearList lt cs) w =
     load_rest (lists_rest r2 lt) lt cs (SubnetList_Clear (the (pol_list lt (policer w)))) w"
| "rest_of cfg (ManageCIDR e r1 r2) (AddTexts lt cs) w =
     load_rest (lists_rest r2 lt) lt cs (the (pol_list lt (policer w))) w"
| "rest_of cfg r s w = serve (local_server cfg) r w"

text \<open>The stages a call of each kind goes through, and how far the end is.\<close>

fun of_kind :: "request \<Rightarrow> stage \<Rightarrow> bool" where
  "of_kind r Arrived = True"
| "of_kind r (Answered a) = True"
| "of_kind (CheckAttempt m req) s = (\<exists>ip. s \<in> {AskWhite ip, AskBlack ip, AskLogin ip, AskPassword ip, AskAddress ip})"
| "of_kind (ResetBucket req) s = (\<exists>ip. s \<in> {EmptyLogin ip, EmptyPassword ip, EmptyAddress ip})"
| "of_kind (ManageCIDR e r1 r2) s =
     (\<exists>lt cs. lt \<in> {Whitelist, Blacklist} \<and> s \<in> {ReadList lt, ClearList lt cs, AddTexts lt cs})"

definition list_rank :: "ListType \<Rightarrow> nat" where
  "list_rank lt = (if lt = Whitelist then 3 else 0)"

fun rank :: "stage \<Rightarrow> nat" where
  "rank Arrived = 7"
| "rank (AskWhite ip) = 6"
| "rank (AskBlack ip) = 5"
| "rank (AskLogin ip) = 4"
| "rank (AskPassword ip) = 3"
| "rank (AskAddress ip) = 2"
| "rank (EmptyLogin ip) = 3"
| "rank (EmptyPassword ip) = 2"
| "rank (EmptyAddress ip) = 1"
| "rank (ReadList lt) = list_rank lt + 3"
| "rank (ClearList lt cs) = list_rank lt + 2"
| "rank (AddTexts lt cs) = list_rank lt + 1"
| "rank (Answered a) = 0"

fun to_add :: "stage \<Rightarrow> nat" where
  "to_add (AddTexts lt cs) = length cs"
| "to_add s = 0"

definition both_lists :: "local_world \<Rightarrow> bool" where
  "both_lists w \<longleftrightarrow> pol_Whitelist (policer w) \<noteq> None \<and> pol_Blacklist (policer w) \<noteq> None"

lemma asked_Cons:
  "event_ok e (limit_db w) \<Longrightarrow> asked (e # es) w = asked es (put_limit_db (bucket_step e (limit_db w)) w)"
  "\<not> event_ok e (limit_db w) \<Longrightarrow> asked (e # es) w = (Checked False, put_limit_db (bucket_step e (limit_db w)) w)"
  by (simp_all add: asked_def)

lemma emptied_Cons:
  "emptied (k # ks) w = emptied ks (put_limit_db (bucket_step (ResetKey k) (limit_db w)) w)"
  by (simp add: emptied_def)

lemma asked_Nil: "asked [] w = (Checked True, w)" and emptied_Nil: "emptied [] w = (Done, w)"
  by (simp_all add: asked_def emptied_def)

lemma check_progress:
  assumes "of_kind (CheckAttempt m req) s" "\<forall>a. s \<noteq> Answered a"
  shows "\<exists>s' w'. check_step cfg m req s w = Some (s', w') \<and> of_kind (CheckAttempt m req) s' \<and>
    subnet_db w' = subnet_db w \<and> policer w' = policer w \<and> rank s' < rank s \<and>
    rest_of cfg (CheckAttempt m req) s w = rest_of cfg (CheckAttempt m req) s' w'"
proof (cases s)
  case Arrived
  then show ?thesis
    by (cases "ParseIP (req_Ip req)")
      (simp_all add: serve_check serve_check_bad_ip asked_def Let_def del: all_ok.simps made.simps list.map
        split: PolicyDecision.split)
next
  case (AskWhite ip)
  then show ?thesis by (simp add: SubnetPolicer_Check_def del: list.map)
next
  case (AskLogin ip)
  then show ?thesis
    by (simp add: ask_counter(1) [where password = "req_Password req" and ip = ip] asked_Cons)
next
  case (AskPassword ip)
  then show ?thesis
    by (simp add: ask_counter(2) [where login = "req_Login req" and ip = ip] asked_Cons)
next
  case (AskAddress ip)
  then show ?thesis
    by (simp add: ask_counter(3) [where login = "req_Login req" and password = "req_Password req"] asked_Cons asked_Nil)
qed (use assms in auto)

lemma reset_progress:
  assumes "of_kind (ResetBucket req) s" "\<forall>a. s \<noteq> Answered a"
  shows "\<exists>s' w'. reset_step cfg req s w = Some (s', w') \<and> of_kind (ResetBucket req) s' \<and>
    subnet_db w' = subnet_db w \<and> policer w' = policer w \<and> rank s' < rank s \<and>
    rest_of cfg (ResetBucket req) s w = rest_of cfg (ResetBucket req) s' w'"
proof (cases s)
  case Arrived
  then show ?thesis
    by (cases "ParseIP (reset_Ip req)") (simp_all add: serve_reset emptied_def)
next
  case (EmptyLogin ip)
  then show ?thesis
    by (simp add: empty_counter(1) [where password = "reset_Password req" and ip = ip] emptied_Cons)
next
  case (EmptyPassword ip)
  then show ?thesis
    by (simp add: empty_counter(2) [where login = "reset_Login req" and ip = ip] emptied_Cons)
next
  case (EmptyAddress ip)
  then show ?thesis
    by (simp add: empty_counter(3) [where login = "reset_Login req" and password = "reset_Password req"] emptied_Cons emptied_Nil)
qed (use assms in auto)

lemma Whitelist_not_Blacklist [simp]: "Whitelist \<noteq> Blacklist" "Blacklist \<noteq> Whitelist"
  by (simp_all add: Whitelist_def Blacklist_def)

lemma put_list_simps [simp]:
  "limit_db (put_list lt nl w) = limit_db w" "subnet_db (put_list lt nl w) = subnet_db w"
  "pol_list lt (policer (put_list lt nl w)) = Some nl"
  "put_list lt nl' (put_list lt nl w) = put_list lt nl' w"
  "both_lists w \<Longrightarrow> both_lists (put_list lt nl w)"
  by (simp_all add: put_list_def pol_list_def both_lists_def)

lemma put_list_same: "pol_list lt (policer w) = Some nl \<Longrightarrow> put_list lt nl w = w"
  by (auto simp: put_list_def pol_list_def split: if_splits)

lemma both_lists_pol: "both_lists w \<Longrightarrow> \<exists>nl. pol_list lt (policer w) = Some nl"
  by (auto simp: both_lists_def pol_list_def)

lemma read_list_load:
  "SubnetList_Load local_SubnetRepo r nl w
    = (add_all (projr (fst (GetSubnetLists r (listType nl) (subnet_db w)))) (SubnetList_Clear nl), w)"
  by (simp add: SubnetList_Load_def read_list)

lemma reload_rest:
  "(case SubnetPolicer_ReloadSubnets local_SubnetRepo r1 r2 (policer w) w of
      ((Some err, sp), w2) \<Rightarrow> (Failed (Wrapf ''publish subnet update'' err), put_policer sp w2)
    | ((None, sp), w2) \<Rightarrow> (Done, put_policer sp w2))
   = read_rest (lists_rest r2 Whitelist) r1 Whitelist w"
proof -
  obtain wl bl where sp: "policer w = \<lparr>pol_Whitelist = wl, pol_Blacklist = bl\<rparr>"
    by (cases "policer w") auto
  have w: "put_policer \<lparr>pol_Whitelist = wl, pol_Blacklist = bl\<rparr> w = w"
    by (simp flip: sp)
  show ?thesis
    by (auto simp: SubnetPolicer_ReloadSubnets_def reload_list_def read_list_load sp w read_rest_def lists_rest_def
        black_rest_def load_rest_def failure_def pol_list_def put_list_def
        split: option.splits prod.splits)
qed

lemma edit_progress:
  assumes "of_kind (ManageCIDR e r1 r2) s" "\<forall>a. s \<noteq> Answered a" "both_lists w"
  shows "\<exists>s' w'. edit_step e r1 r2 s w = Some (s', w') \<and> of_kind (ManageCIDR e r1 r2) s' \<and> both_lists w' \<and>
    (rank s' < rank s \<or> rank s' = rank s \<and> to_add s' < to_add s) \<and>
    rest_of cfg (ManageCIDR e r1 r2) s w = rest_of cfg (ManageCIDR e r1 r2) s' w'"
proof (cases s)
  case Arrived
  have "rest_of cfg (ManageCIDR e r1 r2) Arrived w
      = read_rest (lists_rest r2 Whitelist) r1 Whitelist (put_subnet_db (store_write (write_of e) (subnet_db w)) w)"
    using reload_rest [of r1 r2 "put_subnet_db (store_write (write_of e) (subnet_db w)) w"]
    by (simp add: serve_manage Let_def)
  with Arrived assms(3) show ?thesis
    by (auto simp: write_list both_lists_def list_rank_def)
next
  case (ReadList lt)
  with assms obtain nl where nl: "lt = Whitelist \<or> lt = Blacklist" "pol_list lt (policer w) = Some nl"
    using both_lists_pol [of w lt] by auto
  with ReadList assms(3) show ?thesis
    by (auto simp: read_list read_rest_def load_rest_def)
next
  case (ClearList lt cs)
  with assms obtain nl where nl: "lt = Whitelist \<or> lt = Blacklist" "pol_list lt (policer w) = Some nl"
    using both_lists_pol [of w lt] by auto
  with ClearList assms(3) show ?thesis
    by (auto simp: load_rest_def split: option.split prod.split)
next
  case (AddTexts lt cs)
  with assms obtain nl where nl: "lt = Whitelist \<or> lt = Blacklist" "pol_list lt (policer w) = Some nl"
    using both_lists_pol [of w lt] by auto
  have fail: "load_failed lt err = Answered (failure lt err)" for err
    by (simp add: load_failed_def failure_def)
  show ?thesis
  proof (cases cs)
    case Nil
    with AddTexts nl assms(3) show ?thesis
      by (auto simp: loaded_def load_rest_def lists_rest_def black_rest_def list_rank_def put_list_same)
  next
    case (Cons c cs')
    obtain err nl' where a: "SubnetList_Add c nl = (err, nl')" by (rule prod.exhaust)
    from AddTexts Cons nl assms(3) fail show ?thesis
      by (cases err) (auto simp: a load_rest_def list_rank_def split: option.split prod.split)
  qed
qed (use assms in auto)

lemma request_progress:
  assumes "of_kind r s" "\<forall>a. s \<noteq> Answered a" "both_lists w"
  shows "\<exists>s' w'. request_step cfg r s w = Some (s', w') \<and> of_kind r s' \<and> both_lists w' \<and>
    (s', s) \<in> measures [rank, to_add] \<and> rest_of cfg r s w = rest_of cfg r s' w'"
proof (cases r)
  case (CheckAttempt m req)
  with check_progress [of m req s cfg w] assms show ?thesis by (force simp: both_lists_def)
next
  case (ResetBucket req)
  with reset_progress [of req s cfg w] assms show ?thesis by (force simp: both_lists_def)
next
  case (ManageCIDR e r1 r2)
  with edit_progress [of e r1 r2 s w cfg] assms show ?thesis by force
qed

lemma answered_stays: "request_step cfg r (Answered a) w = None"
  by (cases r) simp_all

lemma request_step_kind:
  assumes "request_step cfg r s w = Some (s', w')" "of_kind r s" "both_lists w"
  shows "of_kind r s' \<and> both_lists w' \<and> rest_of cfg r s w = rest_of cfg r s' w'"
  using request_progress [OF assms(2) _ assms(3), of cfg] assms(1) answered_stays by fastforce

section \<open>What every step keeps\<close>

text \<open>Only the steps of an edit touch the lists, stored or in effect.\<close>

lemma lists_untouched:
  assumes "request_step cfg r s w = Some (s', w')" "\<And>e r1 r2. r \<noteq> ManageCIDR e r1 r2"
  shows "subnet_db w' = subnet_db w \<and> policer w' = policer w"
proof -
  have allow: "checker_Allow (limitChecker (local_rate cfg)) m lt key w = (res, w1) \<Longrightarrow>
      subnet_db w1 = subnet_db w \<and> policer w1 = policer w"
    and empty: "checker_Reset (limitChecker (local_rate cfg)) lt key w = (err, w1) \<Longrightarrow>
      subnet_db w1 = subnet_db w \<and> policer w1 = policer w" for m lt key res err w1
    by (auto simp: checker_local on_part_def split: option.splits prod.splits)
  from assms show ?thesis
    by (cases r; cases s) (auto split: option.splits if_splits prod.splits sum.splits dest: allow empty)
qed

lemma put_list_ok:
  assumes "local_ok w" "pol_list lt (policer w) = Some nl" "list_ok nl'" "listType nl' = listType nl"
  shows "local_ok (put_list lt nl' w)"
  using assms by (auto simp: local_ok_def policer_wired_def pol_list_def put_list_def split: if_splits)

lemma pol_list_ok:
  "local_ok w \<Longrightarrow> pol_list lt (policer w) = Some nl \<Longrightarrow> list_ok nl"
  by (auto simp: local_ok_def policer_wired_def pol_list_def split: if_splits)

text \<open>The stages before a call has asked a counter.\<close>

fun not_counted_yet :: "stage \<Rightarrow> bool" where
  "not_counted_yet Arrived = True"
| "not_counted_yet (AskWhite ip) = True"
| "not_counted_yet (AskBlack ip) = True"
| "not_counted_yet (AskLogin ip) = True"
| "not_counted_yet s = False"

lemma reload_step_stores:
  assumes "reload_step r1 r2 s w = Some (s', w')"
  shows "subnet_db w' = subnet_db w \<and> limit_db w' = limit_db w \<and> \<not> not_counted_yet s'"
  using assms
proof (cases "(r1, r2, s, w)" rule: reload_step.cases)
  case (4 _ _ lt c cs v)
  then obtain nl where nl: "pol_list lt (policer w) = Some nl" using assms by auto
  obtain err nl' where "SubnetList_Add c nl = (err, nl')" by (rule prod.exhaust)
  with 4 assms nl show ?thesis
    by (auto simp: load_failed_def split: option.splits)
qed (auto simp: read_list loaded_def load_failed_def split: option.splits if_splits)

lemma reload_step_ok:
  assumes "reload_step r1 r2 s w = Some (s', w')" "local_ok w"
  shows "local_ok w'"
  using assms(1)
proof (cases "(r1, r2, s, w)" rule: reload_step.cases)
  case (1 _ _ lt v)
  with assms show ?thesis by (auto simp: read_list split: option.splits)
next
  case (2 _ _ lt cs v)
  with assms show ?thesis by (auto intro!: put_list_ok)
next
  case (4 _ _ lt c cs v)
  with assms obtain nl where nl: "pol_list lt (policer w) = Some nl" by auto
  obtain err nl' where a: "SubnetList_Add c nl = (err, nl')" by (rule prod.exhaust)
  have "list_ok nl'" "listType nl' = listType nl"
    using list_ok_Add [of nl c] pol_list_ok [OF _ nl] SubnetList_Add_type [of c nl] 4 assms(2) by (auto simp: a)
  with put_list_ok [OF assms(2) nl] 4 assms nl a show ?thesis
    by (auto split: option.splits)
qed (use assms in auto)

lemma edit_step_reload: "s \<noteq> Arrived \<Longrightarrow> edit_step e r1 r2 s w = reload_step r1 r2 s w"
  by (cases s) simp_all

lemma request_step_ok:
  assumes "request_step cfg r s w = Some (s', w')" "local_ok w"
  shows "local_ok w'"
proof (cases "\<exists>e r1 r2. r = ManageCIDR e r1 r2")
  case True
  then obtain e r1 r2 where r: "r = ManageCIDR e r1 r2" by blast
  show ?thesis
  proof (cases "s = Arrived")
    case True
    with assms r stored_write(2) show ?thesis by (auto simp: write_list local_ok_def)
  next
    case False
    with reload_step_ok assms r show ?thesis by (simp add: edit_step_reload)
  qed
next
  case False
  with lists_untouched [OF assms(1)] assms(2) show ?thesis by (auto simp: local_ok_def)
qed

lemma local_ok_both: "local_ok w \<Longrightarrow> both_lists w"
  by (auto simp: local_ok_def policer_wired_def both_lists_def)

lemma ireach_ok:
  "ireach cfg tasks st \<Longrightarrow> local_ok (i_world st) \<and> (\<forall>t. of_kind (tasks t) (i_at st t))"
proof (induction rule: ireach.induct)
  case ireach_start
  show ?case using local_init_ok(1) by (simp add: istart_def)
next
  case (ireach_step st t st')
  from ireach_step.hyps(2) obtain s w where s: "request_step cfg (tasks t) (i_at st t) (i_world st) = Some (s, w)"
    "i_world st' = w" "i_at st' = (i_at st)(t := s)" by (rule istep_cases)
  with request_step_ok [OF s(1)] request_step_kind [OF s(1)] local_ok_both ireach_step.IH show ?case by simp
qed

section \<open>Left alone, a call is served\<close>

lemma left_alone:
  assumes "of_kind (tasks t) (i_at st t)" "both_lists (i_world st)"
  shows "\<exists>n st' a. irun cfg tasks (replicate n t) st = Some st' \<and> i_at st' = (i_at st)(t := Answered a) \<and>
    rest_of cfg (tasks t) (i_at st t) (i_world st) = (a, i_world st')"
  using assms
proof (induction "i_at st t" arbitrary: st rule: wf_induct_rule [OF wf_measures [of "[rank, to_add]"]])
  case 1
  show ?case
  proof (cases "\<exists>a. i_at st t = Answered a")
    case True
    then show ?thesis by (intro exI [of _ 0]) (auto simp: fun_upd_idem)
  next
    case False
    then obtain s w where s: "request_step cfg (tasks t) (i_at st t) (i_world st) = Some (s, w)"
      "of_kind (tasks t) s" "both_lists w" "(s, i_at st t) \<in> measures [rank, to_add]"
      "rest_of cfg (tasks t) (i_at st t) (i_world st) = rest_of cfg (tasks t) s w"
      using request_progress [OF 1(2) _ 1(3), of cfg] by blast
    then obtain st1 where st1: "istep cfg tasks t st = Some st1" "i_world st1 = w" "i_at st1 = (i_at st)(t := s)"
      by (simp add: istep_def)
    with 1(1) [of st1] s obtain n st' a where "irun cfg tasks (replicate n t) st1 = Some st'"
      "i_at st' = (i_at st1)(t := Answered a)" "rest_of cfg (tasks t) s w = (a, i_world st')" by auto
    with st1 s show ?thesis
      by (intro exI [of _ "Suc n"] exI [of _ st'] exI [of _ a]) simp
  qed
qed

text \<open>
  C6. Whatever calls overlap, a call that is then left alone gets its answer, and one that has not
  begun is answered, and changes the server, as the handlers of the server do in one go: the steps are
  those of the handler, none is left out, and no call waits for another.
\<close>

theorem call_alone_is_served:
  assumes "ireach cfg tasks st"
  shows "\<exists>n st' a. irun cfg tasks (replicate n t) st = Some st' \<and> i_at st' = (i_at st)(t := Answered a) \<and>
    (i_at st t = Arrived \<longrightarrow> (a, i_world st') = serve (local_server cfg) (tasks t) (i_world st))"
proof -
  have "rest_of cfg (tasks t) Arrived w = serve (local_server cfg) (tasks t) w" for w
    by (cases "tasks t") simp_all
  with left_alone [of tasks t st cfg] ireach_ok [OF assms] local_ok_both show ?thesis by metis
qed

theorem call_alone_is_served_witness:
  "\<exists>n st'. irun witness_limits (\<lambda>_. ManageCIDR (AddB ''10.0.0.0/8'') rev rev) (replicate n 3) (istart local_init) = Some st' \<and>
    i_at st' = (\<lambda>_. Arrived)(3 := Answered Done)"
proof -
  let ?r = "ManageCIDR (AddB ''10.0.0.0/8'') rev rev"
  from call_alone_is_served [OF ireach_start [of witness_limits "\<lambda>_. ?r"], of 3] obtain n st' a where
    run: "irun witness_limits (\<lambda>_. ?r) (replicate n 3) (istart local_init) = Some st'"
      "i_at st' = (\<lambda>_. Arrived)(3 := Answered a)" "(a, i_world st') = serve (local_server witness_limits) ?r local_init"
    by (auto simp: istart_def)
  have "fst (serve (local_server witness_limits) ?r local_init) = Done"
    using manage_answer [OF local_init_ok(1) _ _ refl, of rev rev witness_limits "AddB ''10.0.0.0/8''"] local_init_ok witness_net_facts
    by simp
  with run have "a = Done" by (metis fst_conv)
  with run show ?thesis by blast
qed

end
