(* ===== verification/Interleaved_Lists.thy ===== *)
theory Interleaved_Lists
  imports Interleaved_Requests
begin

text \<open>
  Overlapping calls and the lists: an edit that no other edit overlaps is in effect when it is answered,
  whatever else is served meanwhile; of two edits that overlap, one can be lost.
\<close>

section \<open>One edit among other calls\<close>

definition texts_of :: "ListType \<Rightarrow> local_world \<Rightarrow> string set" where
  "texts_of lt w = (case pol_list lt (policer w) of None \<Rightarrow> {} | Some nl \<Rightarrow> texts nl)"

text \<open>How far an edit has brought the lists in effect to the stored ones.\<close>

fun brought :: "(ListType \<Rightarrow> string set) \<Rightarrow> stage \<Rightarrow> (ListType \<Rightarrow> string set) \<Rightarrow> bool" where
  "brought S (ClearList lt cs) T \<longleftrightarrow> set cs = S lt \<and> (lt = Blacklist \<longrightarrow> T Whitelist = S Whitelist)"
| "brought S (AddTexts lt cs) T \<longleftrightarrow> T lt \<union> set cs = S lt \<and> (lt = Blacklist \<longrightarrow> T Whitelist = S Whitelist)"
| "brought S (ReadList lt) T \<longleftrightarrow> (lt = Blacklist \<longrightarrow> T Whitelist = S Whitelist)"
| "brought S (Answered a) T \<longleftrightarrow> (if a = Done then T Whitelist = S Whitelist \<and> T Blacklist = S Blacklist
    else (\<exists>c \<in> S Whitelist \<union> S Blacklist. \<not> valid_cidr c) \<and>
      (\<exists>err. a = Failed err \<and> errors_Is err (SubnetlistErr ErrInvalidCIDR)))"
| "brought S s T \<longleftrightarrow> False"

lemma texts_of_put_list:
  "lt \<in> {Whitelist, Blacklist} \<Longrightarrow> lt' \<in> {Whitelist, Blacklist} \<Longrightarrow>
    texts_of lt (put_list lt' nl w) = (if lt = lt' then texts nl else texts_of lt w)"
  by (auto simp: texts_of_def put_list_def pol_list_def)

lemma pol_list_type:
  "local_ok w \<Longrightarrow> lt \<in> {Whitelist, Blacklist} \<Longrightarrow> pol_list lt (policer w) = Some nl \<Longrightarrow> listType nl = lt"
  by (auto simp: local_ok_def policer_wired_def pol_list_def)

lemma reload_brings:
  assumes "reload_step r1 r2 s w = Some (s', w')" "of_kind (ManageCIDR e r1 r2) s" "local_ok w"
    and "fair_order r1" "fair_order r2" "brought (stored (subnet_db w)) s (\<lambda>lt. texts_of lt w)"
  shows "brought (stored (subnet_db w)) s' (\<lambda>lt. texts_of lt w')"
proof (cases s)
  case (ReadList lt)
  with assms(2) have lt: "lt \<in> {Whitelist, Blacklist}" by auto
  obtain nl where nl: "pol_list lt (policer w) = Some nl"
    using both_lists_pol local_ok_both [OF assms(3)] by blast
  have "fair_order (if lt = Whitelist then r1 else r2)"
    using assms(4,5) by simp
  with GetSubnetLists_result [of "if lt = Whitelist then r1 else r2" lt "subnet_db w"] obtain cs where
    "fst (GetSubnetLists (if lt = Whitelist then r1 else r2) lt (subnet_db w)) = Inr cs" "set cs = stored (subnet_db w) lt"
    by blast
  with assms(1,6) ReadList nl pol_list_type [OF assms(3) lt nl] show ?thesis
    by (auto simp: read_list)
next
  case (ClearList lt cs)
  with assms(2) have lt: "lt \<in> {Whitelist, Blacklist}" by auto
  obtain nl where nl: "pol_list lt (policer w) = Some nl"
    using both_lists_pol local_ok_both [OF assms(3)] by blast
  with assms(1,6) ClearList lt show ?thesis
    by (auto simp: texts_of_put_list)
next
  case (AddTexts lt cs)
  with assms(2) have lt: "lt \<in> {Whitelist, Blacklist}" by auto
  obtain nl where nl: "pol_list lt (policer w) = Some nl"
    using both_lists_pol local_ok_both [OF assms(3)] by blast
  show ?thesis
  proof (cases cs)
    case Nil
    with assms(1,6) AddTexts lt show ?thesis by (auto simp: loaded_def)
  next
    case (Cons c cs')
    obtain err nl' where a: "SubnetList_Add c nl = (err, nl')" by (rule prod.exhaust)
    have "err = None \<Longrightarrow> texts nl' = insert c (texts nl)"
      using SubnetList_Add_valid [of c nl] SubnetList_Add_texts [of c nl] by (simp add: a)
    moreover have "err = Some x \<Longrightarrow> \<not> valid_cidr c \<and> errors_Is x (SubnetlistErr ErrInvalidCIDR)" for x
      using SubnetList_Add_valid [of c nl] SubnetList_Add_error [of c nl x] by (simp add: a)
    moreover have "texts_of lt w = texts nl" by (simp add: texts_of_def nl)
    moreover have "c \<in> stored (subnet_db w) Whitelist \<union> stored (subnet_db w) Blacklist"
      using assms(6) AddTexts Cons lt by auto
    ultimately show ?thesis
      using assms(1,6) AddTexts Cons lt nl a
      by (cases err) (auto simp: texts_of_put_list load_failed_def simp del: Un_iff)
  qed
qed (use assms(1) in auto)

text \<open>
  An edit among calls that are no edits: once it has written the store, the stored lists stay and the
  lists in effect are brought up to them.
\<close>

lemma edit_among_others:
  assumes "irun cfg tasks sched st = Some st'"
    and "local_ok (i_world st)" "of_kind (tasks t) (i_at st t)"
    and "tasks t = ManageCIDR e r1 r2" "fair_order r1" "fair_order r2"
    and "\<forall>u \<in> set sched. u \<noteq> t \<longrightarrow> (\<forall>e r1 r2. tasks u \<noteq> ManageCIDR e r1 r2)"
    and "if i_at st t = Arrived then S = edit_sets e (stored (subnet_db (i_world st)))
      else S = stored (subnet_db (i_world st)) \<and> brought S (i_at st t) (\<lambda>lt. texts_of lt (i_world st))"
  shows "local_ok (i_world st') \<and> (i_at st' t \<noteq> Arrived \<longrightarrow>
    stored (subnet_db (i_world st')) = S \<and> brought S (i_at st' t) (\<lambda>lt. texts_of lt (i_world st')))"
  using assms(1-3,7,8)
proof (induction sched arbitrary: st)
  case Nil
  then show ?case by auto
next
  case (Cons u sched)
  let ?w = "i_world st"
  from Cons.prems(1) obtain st1 where st1: "istep cfg tasks u st = Some st1" "irun cfg tasks sched st1 = Some st'"
    by (auto split: option.splits)
  from st1(1) obtain s w where s: "request_step cfg (tasks u) (i_at st u) ?w = Some (s, w)"
    "i_world st1 = w" "i_at st1 = (i_at st)(u := s)" by (rule istep_cases)
  have ok: "local_ok (i_world st1)"
    using request_step_ok [OF s(1) Cons.prems(2)] s(2) by simp
  show ?case
  proof (cases "u = t")
    case False
    with lists_untouched [OF s(1)] Cons.prems(4) have same: "subnet_db w = subnet_db ?w" "policer w = policer ?w" by auto
    then have "texts_of lt w = texts_of lt ?w" for lt by (simp add: texts_of_def)
    with same s False have "if i_at st1 t = Arrived then S = edit_sets e (stored (subnet_db (i_world st1)))
        else S = stored (subnet_db (i_world st1)) \<and> brought S (i_at st1 t) (\<lambda>lt. texts_of lt (i_world st1))"
      using Cons.prems(5) by (auto split: if_splits)
    with Cons.IH [OF st1(2) ok] Cons.prems(3,4) s False show ?thesis by simp
  next
    case True
    have kind: "of_kind (tasks t) s"
      using request_step_kind [OF s(1)] Cons.prems(2,3) True local_ok_both by blast
    have "s \<noteq> Arrived \<and> S = stored (subnet_db w) \<and> brought S s (\<lambda>lt. texts_of lt w)"
    proof (cases "i_at st t = Arrived")
      case True
      with s(1) Cons.prems(5) \<open>u = t\<close> assms(4) stored_write(1) show ?thesis
        by (auto simp: write_list)
    next
      case False
      have step: "reload_step r1 r2 (i_at st t) ?w = Some (s, w)"
        using s(1) \<open>u = t\<close> assms(4) edit_step_reload [OF False] by simp
      have S: "S = stored (subnet_db ?w)" "brought (stored (subnet_db ?w)) (i_at st t) (\<lambda>lt. texts_of lt ?w)"
        using Cons.prems(5) False by auto
      have "of_kind (ManageCIDR e r1 r2) (i_at st t)"
        using Cons.prems(3) assms(4) by simp
      from reload_brings [OF step this Cons.prems(2) assms(5,6) S(2)] reload_step_stores [OF step] S(1)
      show ?thesis by auto
    qed
    with Cons.IH [OF st1(2) ok] Cons.prems(4) kind s True show ?thesis by auto
  qed
qed

text \<open>
  C7. An edit that no other edit overlaps, among any attempts and resets, whatever part of them it
  overlaps: when it is answered, and until another edit begins, the stored lists are as the edit makes
  them; it is answered without error exactly when every text stored then is a valid network, and with
  \<open>ErrInvalidCIDR\<close> otherwise; and answered without error it is in effect, the check deciding by the
  stored lists.
\<close>

theorem undisturbed_edit_in_effect:
  assumes "ireach cfg tasks st" "tasks t = ManageCIDR e r1 r2" "fair_order r1" "fair_order r2"
    and "i_at st t = Arrived" "irun cfg tasks sched st = Some st'" "i_at st' t = Answered a"
    and "\<forall>u \<in> set sched. u \<noteq> t \<longrightarrow> (\<forall>e r1 r2. tasks u \<noteq> ManageCIDR e r1 r2)"
    and "S = edit_sets e (stored (subnet_db (i_world st)))"
  shows "stored (subnet_db (i_world st')) = S \<and>
    (a = Done \<longleftrightarrow> (\<forall>c \<in> S Whitelist \<union> S Blacklist. valid_cidr c)) \<and>
    (a = Done \<or> (\<exists>err. a = Failed err \<and> errors_Is err (SubnetlistErr ErrInvalidCIDR))) \<and>
    (a = Done \<longrightarrow> (\<forall>ip. SubnetPolicer_Check (policer (i_world st')) ip = decide (S Whitelist) (S Blacklist) ip))"
proof -
  let ?T = "\<lambda>lt. texts_of lt (i_world st')"
  note ok = ireach_ok [OF assms(1)]
  have *: "local_ok (i_world st')" "stored (subnet_db (i_world st')) = S" "brought S (Answered a) ?T"
    using edit_among_others [OF assms(6) conjunct1 [OF ok] _ assms(2-4,8), of S] ok assms(5,7,9) by simp_all
  have eff: "white_texts (policer (i_world st')) = ?T Whitelist" "black_texts (policer (i_world st')) = ?T Blacklist"
    by (simp_all add: texts_of_def pol_list_def white_texts_def black_texts_def)
  have "valid_cidr c" if "c \<in> ?T lt" "lt \<in> {Whitelist, Blacklist}" for c lt
    using that *(1) by (auto simp: texts_of_def pol_list_def local_ok_def policer_wired_def intro: texts_valid)
  with *(3) have "a = Done \<longleftrightarrow> (\<forall>c \<in> S Whitelist \<union> S Blacklist. valid_cidr c)"
    by (auto split: if_splits)
  moreover have "a = Done \<longrightarrow> (\<forall>ip. SubnetPolicer_Check (policer (i_world st')) ip = decide (S Whitelist) (S Blacklist) ip)"
    using *(1,3) eff Check_decides [of "policer (i_world st')"] by (simp add: local_ok_def)
  ultimately show ?thesis
    using *(2,3) by (auto split: if_splits)
qed

theorem undisturbed_edit_in_effect_witness:
  "\<exists>tasks sched st ip. irun witness_limits tasks sched (istart local_init) = Some st \<and>
    i_at st 1 = AskWhite ip \<and> i_at st 0 = Answered Done \<and>
    SubnetPolicer_Check (policer (i_world st)) ip = DecisionDeny"
proof -
  let ?r = "ManageCIDR (AddB ''10.0.0.0/8'') rev rev" and ?ip = "v4InV6Prefix @ [10, 1, 2, 3]"
  let ?m = "\<lparr>now = 0, rnd = Inr 0\<rparr>"
  let ?tasks = "\<lambda>t :: nat. if t = 0 then ?r
    else CheckAttempt \<lparr>at_login = ?m, at_password = ?m, at_ip = ?m\<rparr> \<lparr>req_Login = [], req_Password = [], req_Ip = ''10.1.2.3''\<rparr>"
  let ?st1 = "\<lparr>i_world = local_init, i_at = (\<lambda>_. Arrived)(1 := AskWhite ?ip), i_hist = []\<rparr>"
  have one: "irun witness_limits ?tasks [1] (istart local_init) = Some ?st1"
    by (simp add: istep_def istart_def witness_net_facts(3))
  note reach = irun_reach [OF one ireach_start]
  obtain n st2 a where st2: "irun witness_limits ?tasks (replicate n 0) ?st1 = Some st2" "i_at st2 = (i_at ?st1)(0 := Answered a)"
      "serve (local_server witness_limits) ?r local_init = (a, i_world st2)"
    using left_alone [of ?tasks 0 ?st1 witness_limits] ireach_ok [OF reach] local_ok_both by auto
  have "a = Done"
    using manage_answer [OF local_init_ok(1) _ _ refl, of rev rev witness_limits "AddB ''10.0.0.0/8''"] local_init_ok
      witness_net_facts st2(3) by simp
  with st2(2) have done0: "i_at st2 0 = Answered Done" by simp
  have run: "irun witness_limits ?tasks ([1] @ replicate n 0) (istart local_init) = Some st2"
    by (simp only: irun_append one st2(1) option.case)
  have "\<forall>ip. SubnetPolicer_Check (policer (i_world st2)) ip = decide {} {''10.0.0.0/8''} ip"
    using undisturbed_edit_in_effect [OF ireach_start, of ?tasks 0 "AddB ''10.0.0.0/8''" rev rev witness_limits "[1] @ replicate n 0" st2]
      run done0 local_init_ok(2) by (auto simp: istart_def)
  then have "SubnetPolicer_Check (policer (i_world st2)) ?ip = DecisionDeny"
    by (simp add: decide_def witness_net_facts(2))
  with run done0 st2(2) show ?thesis
    by (intro exI [of _ ?tasks] exI [of _ "[1] @ replicate n 0"] exI [of _ st2] exI [of _ ?ip]) (simp only: fun_upd_apply; simp)
qed

section \<open>Two edits\<close>

lemma stored_singleton:
  assumes "distinct_lists db" "stored db lt = {c}" "fair_order r"
  shows "projr (fst (GetSubnetLists r lt db)) = [c]"
proof -
  from GetSubnetLists_result [of r lt db] assms obtain cs where
    cs: "fst (GetSubnetLists r lt db) = Inr cs" "set cs = {c}" "distinct cs" by auto
  then show ?thesis by (metis distinct_length_2_or_more distinct_singleton insert_not_empty list.exhaust
        list.sel(1) list.set_intros(1,2) set_empty singletonD sum.sel(2))
qed

lemma stored_empty:
  "stored db lt = {} \<Longrightarrow> fair_order r \<Longrightarrow> projr (fst (GetSubnetLists r lt db)) = []"
  using GetSubnetLists_result [of r lt db] by auto

text \<open>
  C8. Two edits that overlap can lose one: the first has read the stored list when the second adds to
  it, reloads and is answered without error; then the first goes on with what it has read. Both are
  answered without error and both networks are stored, but only the first is in effect: an address that
  the second was to deny is let go on to the counters.
\<close>

theorem overlapping_edit_lost:
  assumes "valid_cidr c" "valid_cidr c'" "c \<noteq> c'"
  shows "\<exists>sched st. irun cfg (\<lambda>t. ManageCIDR (AddB (if t = 0 then c else c')) rev rev) sched (istart local_init) = Some st \<and>
    i_at st 0 = Answered Done \<and> i_at st 1 = Answered Done \<and>
    stored (subnet_db (i_world st)) Blacklist = {c, c'} \<and>
    (\<forall>ip. SubnetPolicer_Check (policer (i_world st)) ip = decide {} {c} ip)"
proof -
  let ?tasks = "\<lambda>t :: nat. ManageCIDR (AddB (if t = 0 then c else c')) rev rev"
  define db1 where "db1 = store_write (write_of (AddB c)) (subnet_db local_init)"
  define w where "w = put_subnet_db db1 local_init"
  have init: "distinct_lists (subnet_db local_init)" "stored (subnet_db local_init) lt = {}" for lt
    using local_init_ok by (simp_all add: local_ok_def)
  have db: "stored db1 = (\<lambda>_. {})(Blacklist := {c})" "distinct_lists db1"
    unfolding db1_def using stored_write [where e = "AddB c" and db = "subnet_db local_init"] init by (auto simp: fun_eq_iff)
  have lists: "pol_Whitelist (policer local_init) = Some (NewSubnetList Whitelist)"
      "pol_Blacklist (policer local_init) = Some (NewSubnetList Blacklist)"
    by (simp_all add: local_init_def NewSubnetPolicer_def)
  have clear: "SubnetList_Clear (NewSubnetList lt) = NewSubnetList lt" and type: "listType (NewSubnetList lt) = lt" for lt
    by (simp_all add: SubnetList_Clear_def NewSubnetList_def)
  have five: "(5 :: nat) = Suc (Suc (Suc (Suc (Suc 0))))" and three: "(3 :: nat) = Suc (Suc (Suc 0))" by simp_all
  have start: "write_step (AddB c) local_init = (None, w)"
    by (simp only: write_list w_def db1_def)
  have there: "pol_list Whitelist (policer w) = Some (NewSubnetList Whitelist)"
      "pol_list Blacklist (policer w) = Some (NewSubnetList Blacklist)" "subnet_db w = db1"
    by (simp_all add: w_def pol_list_def lists)
  have put: "put_list Whitelist (NewSubnetList Whitelist) w = w"
    by (rule put_list_same [OF there(1)])
  have reads: "projr (fst (GetSubnetLists rev Blacklist db1)) = [c]" "projr (fst (GetSubnetLists rev Whitelist db1)) = []"
    using stored_singleton [OF db(2), of Blacklist c rev] stored_empty [of db1 Whitelist rev] db(1) by simp_all
  have "\<exists>st. irun cfg ?tasks (replicate 5 0) (istart local_init) = Some st \<and>
      i_world st = w \<and> i_at st = (\<lambda>_. Arrived)(0 := ClearList Blacklist [c])"
    unfolding five replicate.simps
    by (simp add: istep_def istart_def start read_list there type clear put reads loaded_def fun_eq_iff del: write_step.simps)
  then obtain st1 where st1: "irun cfg ?tasks (replicate 5 0) (istart local_init) = Some st1" "i_world st1 = w"
      "i_at st1 = (\<lambda>_. Arrived)(0 := ClearList Blacklist [c])" by blast
  have reach: "ireach cfg ?tasks st1"
    by (rule irun_reach [OF st1(1) ireach_start])
  have w: "local_ok w" "stored (subnet_db w) = (\<lambda>_. {})(Blacklist := {c})"
    using ireach_ok [OF reach] st1(2) db(1) by (simp_all add: w_def)
  obtain n st2 a where st2: "irun cfg ?tasks (replicate n 1) st1 = Some st2" "i_at st2 = (i_at st1)(1 := Answered a)"
      "serve (local_server cfg) (?tasks 1) w = (a, i_world st2)"
    using left_alone [of ?tasks 1 st1 cfg] ireach_ok [OF reach] local_ok_both st1(2,3) by (auto simp: fun_eq_iff)
  have fair: "fair_order rev" by simp
  have both: "edit_sets (AddB c') (stored (subnet_db w)) = (\<lambda>_. {})(Blacklist := {c, c'})"
    by (auto simp: w(2) fun_eq_iff)
  have "a = Done"
    using manage_answer [OF w(1) fair fair refl, of cfg "AddB c'"] st2(3) assms(1,2) by (simp add: w(2))
  note facts = serve_manage_facts [OF w(1) fair fair, of cfg "AddB c'" Done "i_world st2"]
  have w2: "local_ok (i_world st2)" "stored (subnet_db (i_world st2)) = (\<lambda>_. {})(Blacklist := {c, c'})"
      "white_texts (policer (i_world st2)) = {}"
    using facts st2(3) \<open>a = Done\<close> both w(2) by simp_all
  obtain nl where nl: "pol_list Blacklist (policer (i_world st2)) = Some nl"
    using both_lists_pol local_ok_both [OF w2(1)] by blast
  obtain nl' where nl': "SubnetList_Add c (SubnetList_Clear nl) = (None, nl')" "texts nl' = {c}"
    using SubnetList_Add_valid [of c "SubnetList_Clear nl"] SubnetList_Add_texts [of c "SubnetList_Clear nl"] assms(1)
    by (cases "SubnetList_Add c (SubnetList_Clear nl)") auto
  let ?w3 = "put_list Blacklist nl' (i_world st2)"
  have "i_at st2 0 = ClearList Blacklist [c]" by (simp add: st2(2) st1(3))
  then have "\<exists>st3. irun cfg ?tasks (replicate 3 0) st2 = Some st3 \<and> i_world st3 = ?w3 \<and> i_at st3 = (i_at st2)(0 := Answered Done)"
    unfolding three replicate.simps by (simp add: istep_def nl nl'(1) loaded_def)
  then obtain st3 where st3: "irun cfg ?tasks (replicate 3 0) st2 = Some st3" "i_world st3 = ?w3"
      "i_at st3 = (i_at st2)(0 := Answered Done)" by blast
  have run: "irun cfg ?tasks (replicate 5 0 @ replicate n 1 @ replicate 3 0) (istart local_init) = Some st3"
    by (simp only: irun_append st1(1) st2(1) st3(1) option.case)
  have "local_ok ?w3"
    using ireach_ok [OF irun_reach [OF run ireach_start]] st3(2) by simp
  moreover have "white_texts (policer ?w3) = {}" "black_texts (policer ?w3) = {c}"
    using w2(3) nl'(2) by (simp_all add: put_list_def white_texts_def black_texts_def)
  ultimately have "SubnetPolicer_Check (policer ?w3) ip = decide {} {c} ip" for ip
    using Check_decides [of "policer ?w3" ip] by (simp add: local_ok_def)
  with run show ?thesis
    using st1(3) st2(2) st3(2,3) w2(2) \<open>a = Done\<close> by (intro exI [of _ st3] exI conjI) auto
qed

text \<open>The two halves of a network: the second one is lost.\<close>

theorem overlapping_edit_lost_witness:
  "valid_cidr ''10.128.0.0/9'' \<and> cidr_covers ''10.128.0.0/9'' (v4InV6Prefix @ [10, 200, 0, 1]) \<and>
  (\<exists>sched st. irun witness_limits (\<lambda>t. ManageCIDR (AddB (if t = 0 then ''10.0.0.0/9'' else ''10.128.0.0/9'')) rev rev) sched (istart local_init) = Some st \<and>
    i_at st 1 = Answered Done \<and> ''10.128.0.0/9'' \<in> stored (subnet_db (i_world st)) Blacklist \<and>
    SubnetPolicer_Check (policer (i_world st)) (v4InV6Prefix @ [10, 200, 0, 1]) = DecisionContinue)"
proof -
  have parse: "ParseCIDR ''10.0.0.0/9'' = Inr (v4InV6Prefix @ [10, 0, 0, 0], \<lparr>net_IP = [10, 0, 0, 0], net_Mask = [255, 128, 0, 0]\<rparr>)"
    "ParseCIDR ''10.128.0.0/9'' = Inr (v4InV6Prefix @ [10, 128, 0, 0], \<lparr>net_IP = [10, 128, 0, 0], net_Mask = [255, 128, 0, 0]\<rparr>)"
    by (simp_all add: ParseCIDR_def ParseAddr_def parseIPv4_def digit_val_def Let_def CIDRMask_def)
  have facts: "valid_cidr ''10.0.0.0/9''" "valid_cidr ''10.128.0.0/9''"
    "cidr_covers ''10.128.0.0/9'' (v4InV6Prefix @ [10, 200, 0, 1])" "\<not> cidr_covers ''10.0.0.0/9'' (v4InV6Prefix @ [10, 200, 0, 1])"
    by (simp_all add: valid_cidr_def cidr_covers_def parse IP_Equal_def IPNet_Contains_def networkNumberAndMask_def)
  have "''10.0.0.0/9'' \<noteq> ''10.128.0.0/9''" by simp
  from overlapping_edit_lost [OF facts(1,2) this, of witness_limits] obtain sched st where st:
    "irun witness_limits (\<lambda>t. ManageCIDR (AddB (if t = 0 then ''10.0.0.0/9'' else ''10.128.0.0/9'')) rev rev) sched (istart local_init) = Some st"
    "i_at st 1 = Answered Done" "stored (subnet_db (i_world st)) Blacklist = {''10.0.0.0/9'', ''10.128.0.0/9''}"
    "\<forall>ip. SubnetPolicer_Check (policer (i_world st)) ip = decide {} {''10.0.0.0/9''} ip"
    by (elim exE conjE) (rule that)
  have "''10.128.0.0/9'' \<in> stored (subnet_db (i_world st)) Blacklist"
    unfolding st(3) by (rule insertI2) (rule singletonI)
  note second = this
  have "SubnetPolicer_Check (policer (i_world st)) (v4InV6Prefix @ [10, 200, 0, 1]) = DecisionContinue"
    unfolding st(4) [rule_format] decide_def using facts(4) by simp
  note decision = this
  show ?thesis
    by (intro conjI exI [of _ sched] exI [of _ st] facts(2,3) st(1,2) second decision)
qed

end
