(* ===== verification/Interleaved_Counting.thy ===== *)
theory Interleaved_Counting
  imports Interleaved_Requests
begin

text \<open>
  Overlapping calls and the counters: the accesses of all calls to the counters, in the order they
  happen, are a run of the store of attempts, so the bound of the sliding window holds of the attempts
  allowed however the calls overlap. Then what is true of every reachable state: it is well formed, no
  call is stuck, and every answer is one the call can have.
\<close>

section \<open>The accesses as a run of the store\<close>

definition events :: "istate \<Rightarrow> bucket_event list" where
  "events st = map (fst \<circ> snd) (i_hist st)"

definition passed :: "string \<Rightarrow> (nat \<times> bucket_event \<times> bool) list \<Rightarrow> int list" where
  "passed k H = concat (map (\<lambda>(t, e, ok).
     case e of AllowAt m k' l win \<Rightarrow> if ok \<and> k' = k then [now m] else [] | ResetKey k' \<Rightarrow> []) H)"

lemma request_step_limit_db:
  assumes "request_step cfg r s w = Some (s', w')"
  shows "limit_db w' = bucket_run (counter_event cfg r s) (limit_db w)"
proof (cases r)
  case (CheckAttempt m req)
  note ask = ask_counter(1) [where password = "req_Password req"] ask_counter(2) [where login = "req_Login req"]
    ask_counter(3) [where login = "req_Login req" and password = "req_Password req"]
  from assms CheckAttempt show ?thesis
  proof (cases s)
    case (AskLogin ip)
    with assms CheckAttempt show ?thesis by (auto simp: ask(1) [where ip = ip])
  next
    case (AskPassword ip)
    with assms CheckAttempt show ?thesis by (auto simp: ask(2) [where ip = ip])
  next
    case (AskAddress ip)
    with assms CheckAttempt show ?thesis by (auto simp: ask(3))
  qed (auto split: option.splits)
next
  case (ResetBucket req)
  note empty = empty_counter(1) [where password = "reset_Password req"] empty_counter(2) [where login = "reset_Login req"]
    empty_counter(3) [where login = "reset_Login req" and password = "reset_Password req"]
  from assms ResetBucket show ?thesis
  proof (cases s)
    case (EmptyLogin ip)
    with assms ResetBucket show ?thesis by (auto simp: empty(1) [where ip = ip])
  next
    case (EmptyPassword ip)
    with assms ResetBucket show ?thesis by (auto simp: empty(2) [where ip = ip])
  next
    case (EmptyAddress ip)
    with assms ResetBucket show ?thesis by (auto simp: empty(3))
  qed (auto split: option.splits)
next
  case (ManageCIDR e r1 r2)
  have "limit_db w' = limit_db w"
    using assms ManageCIDR reload_step_stores [of r1 r2 s w] edit_step_reload [of s]
    by (cases "s = Arrived") (auto simp: write_list)
  with ManageCIDR show ?thesis by simp
qed

lemma counter_event_single: "counter_event cfg r s = [] \<or> (\<exists>e. counter_event cfg r s = [e])"
  by (cases "(cfg, r, s)" rule: counter_event.cases) simp_all

lemma passed_accepted:
  assumes "ireach cfg tasks st"
  shows "limit_db (i_world st) = bucket_run (events st) NewBucketsDB \<and>
    (\<forall>k. accepted k (events st) NewBucketsDB = passed k (i_hist st))"
  using assms
proof (induction rule: ireach.induct)
  case ireach_start
  show ?case by (simp add: istart_def events_def passed_def local_init_ok)
next
  case (ireach_step st t st')
  from ireach_step.hyps(2) obtain s w where s: "request_step cfg (tasks t) (i_at st t) (i_world st) = Some (s, w)"
    "i_world st' = w" "i_hist st' = i_hist st @
      map (\<lambda>e. (t, e, event_ok e (limit_db (i_world st)))) (counter_event cfg (tasks t) (i_at st t))"
    by (rule istep_cases)
  let ?es = "counter_event cfg (tasks t) (i_at st t)"
  have ev: "events st' = events st @ ?es"
    by (simp add: events_def s(3) comp_def)
  have "accepted k ?es (limit_db (i_world st)) =
      passed k (map (\<lambda>e. (t, e, event_ok e (limit_db (i_world st)))) ?es)" for k
    using counter_event_single [of cfg "tasks t" "i_at st t"] by (auto simp: passed_def split: bucket_event.split)
  moreover have "passed k (i_hist st') = passed k (i_hist st) @
      passed k (map (\<lambda>e. (t, e, event_ok e (limit_db (i_world st)))) ?es)" for k
    by (simp add: passed_def s(3))
  ultimately show ?case
    using ireach_step.IH request_step_limit_db [OF s(1)]
    by (simp add: ev s(2) accepted_append bucket_run_append)
qed

section \<open>How far a call has come\<close>

text \<open>The address a call works with is the one its request parses to.\<close>

fun parsed :: "request \<Rightarrow> stage \<Rightarrow> bool" where
  "parsed (CheckAttempt m req) s \<longleftrightarrow>
     (\<forall>ip. s \<in> {AskWhite ip, AskBlack ip, AskLogin ip, AskPassword ip, AskAddress ip} \<longrightarrow> ParseIP (req_Ip req) = Some ip)"
| "parsed (ResetBucket req) s \<longleftrightarrow>
     (\<forall>ip. s \<in> {EmptyLogin ip, EmptyPassword ip, EmptyAddress ip} \<longrightarrow> ParseIP (reset_Ip req) = Some ip)"
| "parsed (ManageCIDR e r1 r2) s \<longleftrightarrow> True"

text \<open>The counters that have let an attempt through by the time it is at a stage.\<close>

fun behind :: "stage \<Rightarrow> LimitType list" where
  "behind (AskPassword ip) = [LoginLimit]"
| "behind (AskAddress ip) = [LoginLimit, PasswordLimit]"
| "behind (Answered a) = (if a = Checked True then [LoginLimit, PasswordLimit, IPLimit] else [])"
| "behind s = []"

definition let_through :: "config_Limits \<Rightarrow> (nat \<Rightarrow> request) \<Rightarrow> istate \<Rightarrow> nat \<Rightarrow> LimitType \<Rightarrow> bool" where
  "let_through cfg tasks st t lt \<longleftrightarrow>
     (\<exists>m req ip. tasks t = CheckAttempt m req \<and> ParseIP (req_Ip req) = Some ip \<and>
       (t, attempt_event cfg m (req_Login req) (req_Password req) ip lt, True) \<in> set (i_hist st))"

lemma check_step_behind:
  assumes "check_step cfg m req s w = Some (s', w')" "parsed (CheckAttempt m req) s"
  shows "parsed (CheckAttempt m req) s' \<and>
    (not_counted_yet s' \<longrightarrow> not_counted_yet s \<and> counter_event cfg (CheckAttempt m req) s = []) \<and>
    (\<forall>lt \<in> set (behind s'). lt \<in> set (behind s) \<or>
      (not_counted_yet s \<and> counter_event cfg (CheckAttempt m req) s = []) \<or>
      (\<exists>ip. ParseIP (req_Ip req) = Some ip \<and>
        counter_event cfg (CheckAttempt m req) s = [attempt_event cfg m (req_Login req) (req_Password req) ip lt] \<and>
        event_ok (attempt_event cfg m (req_Login req) (req_Password req) ip lt) (limit_db w)))"
proof -
  note ask = ask_counter(1) [where password = "req_Password req"] ask_counter(2) [where login = "req_Login req"]
    ask_counter(3) [where login = "req_Login req" and password = "req_Password req"]
  from assms show ?thesis
  proof (cases s)
    case (AskLogin ip)
    with assms show ?thesis by (auto simp: ask(1) [where ip = ip] split: if_splits)
  next
    case (AskPassword ip)
    with assms show ?thesis by (auto simp: ask(2) [where ip = ip] split: if_splits)
  next
    case (AskAddress ip)
    with assms show ?thesis by (auto simp: ask(3) split: if_splits)
  qed (auto split: option.splits if_splits)
qed

lemma other_step_behind:
  assumes "request_step cfg r s w = Some (s', w')" "parsed r s" "\<And>m req. r \<noteq> CheckAttempt m req"
  shows "parsed r s' \<and> \<not> not_counted_yet s'"
proof (cases r)
  case (ResetBucket req)
  note empty = empty_counter(1) [where password = "reset_Password req"] empty_counter(2) [where login = "reset_Login req"]
    empty_counter(3) [where login = "reset_Login req" and password = "reset_Password req"]
  from assms ResetBucket show ?thesis
  proof (cases s)
    case (EmptyLogin ip)
    with assms ResetBucket show ?thesis by (auto simp: empty(1) [where ip = ip])
  next
    case (EmptyPassword ip)
    with assms ResetBucket show ?thesis by (auto simp: empty(2) [where ip = ip])
  next
    case (EmptyAddress ip)
    with assms ResetBucket show ?thesis by (auto simp: empty(3))
  qed (auto split: option.splits)
next
  case (ManageCIDR e r1 r2)
  have "\<not> not_counted_yet s'"
    using assms(1) ManageCIDR reload_step_stores [of r1 r2 s w] edit_step_reload [of s]
    by (cases "s = Arrived") (auto simp: write_list)
  with ManageCIDR show ?thesis by simp
qed (use assms(3) in auto)

text \<open>What the record of the accesses says of the calls.\<close>

definition recorded_ok :: "config_Limits \<Rightarrow> (nat \<Rightarrow> request) \<Rightarrow> istate \<Rightarrow> bool" where
  "recorded_ok cfg tasks st \<longleftrightarrow>
     (\<forall>t. parsed (tasks t) (i_at st t)) \<and>
     (\<forall>t. not_counted_yet (i_at st t) \<longrightarrow> t \<notin> fst ` set (i_hist st)) \<and>
     (\<forall>t m req. tasks t = CheckAttempt m req \<longrightarrow> t \<in> fst ` set (i_hist st) \<or> (\<forall>a. i_at st t \<noteq> Answered a) \<longrightarrow>
       (\<forall>lt \<in> set (behind (i_at st t)). let_through cfg tasks st t lt)) \<and>
     (\<forall>(t, e, ok) \<in> set (i_hist st). \<exists>s. parsed (tasks t) s \<and> e \<in> set (counter_event cfg (tasks t) s))"

lemma recorded_ok_step:
  assumes "recorded_ok cfg tasks st" "istep cfg tasks t st = Some st'"
  shows "recorded_ok cfg tasks st'"
proof -
  from assms(2) obtain s w where s: "request_step cfg (tasks t) (i_at st t) (i_world st) = Some (s, w)"
    "i_at st' = (i_at st)(t := s)" "i_hist st' = i_hist st @
      map (\<lambda>e. (t, e, event_ok e (limit_db (i_world st)))) (counter_event cfg (tasks t) (i_at st t))"
    by (rule istep_cases)
  let ?es = "counter_event cfg (tasks t) (i_at st t)"
  have I: "\<And>u. parsed (tasks u) (i_at st u)" "\<And>u. not_counted_yet (i_at st u) \<Longrightarrow> u \<notin> fst ` set (i_hist st)"
    "\<And>u m req lt. tasks u = CheckAttempt m req \<Longrightarrow> u \<in> fst ` set (i_hist st) \<or> (\<forall>a. i_at st u \<noteq> Answered a) \<Longrightarrow>
      lt \<in> set (behind (i_at st u)) \<Longrightarrow> let_through cfg tasks st u lt"
    "\<And>u e ok. (u, e, ok) \<in> set (i_hist st) \<Longrightarrow> \<exists>s. parsed (tasks u) s \<and> e \<in> set (counter_event cfg (tasks u) s)"
    using assms(1) unfolding recorded_ok_def by (blast, blast, blast, fast)
  have keep: "let_through cfg tasks st u lt \<Longrightarrow> let_through cfg tasks st' u lt" for u lt
    by (auto simp: let_through_def s(3))
  have step: "parsed (tasks t) s \<and> (not_counted_yet s \<longrightarrow> not_counted_yet (i_at st t) \<and> ?es = [])"
  proof (cases "\<exists>m req. tasks t = CheckAttempt m req")
    case True
    then obtain m req where r: "tasks t = CheckAttempt m req" by blast
    with s(1) I(1) [of t] have "check_step cfg m req (i_at st t) (i_world st) = Some (s, w)"
      "parsed (CheckAttempt m req) (i_at st t)" by simp_all
    from check_step_behind [OF this] show ?thesis unfolding r by blast
  next
    case False
    then show ?thesis using other_step_behind [OF s(1) I(1)] by blast
  qed
  have through: "let_through cfg tasks st' t lt"
    if t: "tasks t = CheckAttempt m req" "t \<in> fst ` set (i_hist st') \<or> (\<forall>a. s \<noteq> Answered a)" "lt \<in> set (behind s)" for m req lt
  proof -
    have "check_step cfg m req (i_at st t) (i_world st) = Some (s, w)" "parsed (CheckAttempt m req) (i_at st t)"
      using s(1) I(1) [of t] t(1) by simp_all
    from check_step_behind [OF this, THEN conjunct2, THEN conjunct2, rule_format, OF t(3)] consider "lt \<in> set (behind (i_at st t))"
      | "not_counted_yet (i_at st t)" "?es = []"
      | ip where "ParseIP (req_Ip req) = Some ip"
        "?es = [attempt_event cfg m (req_Login req) (req_Password req) ip lt]"
        "event_ok (attempt_event cfg m (req_Login req) (req_Password req) ip lt) (limit_db (i_world st))"
      unfolding t(1) [symmetric] by blast
    then show ?thesis
    proof cases
      case 1
      have "\<forall>a. i_at st t \<noteq> Answered a"
        using s(1) answered_stays by fastforce
      with I(3) [OF t(1) _ 1] keep show ?thesis by blast
    next
      case 2
      with I(2) [of t] have "t \<notin> fst ` set (i_hist st')" by (simp add: s(3))
      with t(2,3) have "lt \<in> set (behind s)" "\<forall>a. s \<noteq> Answered a" by auto
      moreover have "s \<in> {AskWhite ip | ip. True} \<union> {AskBlack ip | ip. True} \<union> {AskLogin ip | ip. True} \<union> {Answered a | a. True}"
        using 2 \<open>check_step cfg m req (i_at st t) (i_world st) = Some (s, w)\<close> t(1)
        by (cases "i_at st t") (auto split: option.splits if_splits)
      ultimately show ?thesis by auto
    next
      case 3
      with t(1) show ?thesis by (auto simp: let_through_def s(3))
    qed
  qed
  have entry: "\<exists>s. parsed (tasks u) s \<and> e \<in> set (counter_event cfg (tasks u) s)"
    if "(u, e, ok) \<in> set (i_hist st')" for u e ok
    using that I(4) [of u e ok] I(1) [of t] by (auto simp: s(3))
  have fresh: "u \<notin> fst ` set (i_hist st')" if "not_counted_yet (i_at st' u)" for u
    using that I(2) [of u] I(2) [of t] step by (cases "u = t") (auto simp: s(2,3))
  have all: "\<forall>lt \<in> set (behind (i_at st' u)). let_through cfg tasks st' u lt"
    if "tasks u = CheckAttempt m req" "u \<in> fst ` set (i_hist st') \<or> (\<forall>a. i_at st' u \<noteq> Answered a)" for u m req
  proof (cases "u = t")
    case True
    with through that show ?thesis by (auto simp: s(2))
  next
    case False
    then have "u \<in> fst ` set (i_hist st') \<longleftrightarrow> u \<in> fst ` set (i_hist st)" by (auto simp: s(3))
    with I(3) [OF that(1)] that(2) keep False show ?thesis by (simp add: s(2))
  qed
  have "parsed (tasks u) (i_at st' u)" for u
    using step I(1) by (simp add: s(2))
  note here = this
  show ?thesis
    unfolding recorded_ok_def
    by (intro conjI allI impI ballI; (elim case_prodI2)?)
      (use here fresh all entry in \<open>auto simp del: parsed.simps\<close>)
qed

lemma recorded_ok_reach: "ireach cfg tasks st \<Longrightarrow> recorded_ok cfg tasks st"
proof (induction rule: ireach.induct)
  case ireach_start
  have "parsed r Arrived" for r by (cases r) simp_all
  then show ?case by (simp add: recorded_ok_def istart_def)
qed (rule recorded_ok_step)

lemma counter_event_ruled:
  assumes "e \<in> set (counter_event cfg r s)" "parsed r s" "lt \<in> limit_types" "k = attempt_key lt l p ip0"
    and "\<forall>req. r = ResetBucket req \<longrightarrow> request_key lt r \<noteq> Some k"
  shows "ruled k (attempts cfg lt) (config_Window cfg) e"
proof -
  consider m req ip lt' where "r = CheckAttempt m req" "lt' \<in> limit_types"
      "e = attempt_event cfg m (req_Login req) (req_Password req) ip lt'"
    | req ip lt' where "r = ResetBucket req" "lt' \<in> limit_types" "ParseIP (reset_Ip req) = Some ip"
      "e = ResetKey (attempt_key lt' (reset_Login req) (reset_Password req) ip)"
    using assms(1,2) by (cases "(cfg, r, s)" rule: counter_event.cases) (auto simp: limit_types_def)
  then show ?thesis
  proof cases
    case 1
    have "lt = lt'" if "attempt_key lt' (req_Login req) (req_Password req) ip = k"
      using attempt_key_inject_type [OF assms(3) 1(2)] assms(4) that by metis
    with 1(3) show ?thesis by (auto simp: attempt_event_def)
  next
    case 2
    have "lt = lt'" if "k = attempt_key lt' (reset_Login req) (reset_Password req) ip"
      using attempt_key_inject_type [OF assms(3) 2(2)] assms(4) that by metis
    with assms(5) 2 show ?thesis by auto
  qed
qed

section \<open>The bound\<close>

text \<open>The attempts answered so far that the counters have let through, with their key and time.\<close>

definition granted_calls :: "(nat \<Rightarrow> request) \<Rightarrow> istate \<Rightarrow> LimitType \<Rightarrow> string \<Rightarrow> int \<Rightarrow> int \<Rightarrow> nat set" where
  "granted_calls tasks st lt k a b =
     {t. (\<exists>m req. tasks t = CheckAttempt m req) \<and> i_at st t = Answered (Checked True) \<and> t \<in> fst ` set (i_hist st) \<and>
       request_key lt (tasks t) = Some k \<and> a \<le> request_time lt (tasks t) \<and> request_time lt (tasks t) \<le> b}"

lemma granted_calls_passed:
  assumes "recorded_ok cfg tasks st" "lt \<in> limit_types"
  shows "card (granted_calls tasks st lt k a b) \<le>
      length (filter (\<lambda>n. a \<le> n \<and> n \<le> b) (passed k (i_hist st))) \<and>
    finite (granted_calls tasks st lt k a b)"
proof -
  let ?hit = "\<lambda>(t, e, ok). case e of AllowAt m k' l win \<Rightarrow> ok \<and> k' = k \<and> a \<le> now m \<and> now m \<le> b | ResetKey k' \<Rightarrow> False"
  have len: "length (filter (\<lambda>n. a \<le> n \<and> n \<le> b) (passed k H)) = length (filter ?hit H)" for H
  proof (induction H)
    case (Cons h H)
    obtain t e ok where "h = (t, e, ok)" by (rule prod_cases3)
    with Cons show ?case by (cases e) (simp_all add: passed_def)
  qed (simp add: passed_def)
  have "granted_calls tasks st lt k a b \<subseteq> fst ` set (filter ?hit (i_hist st))"
  proof
    fix t
    assume t: "t \<in> granted_calls tasks st lt k a b"
    then obtain m req where r: "tasks t = CheckAttempt m req"
      by (auto simp: granted_calls_def)
    from t have "lt \<in> set (behind (i_at st t))" "t \<in> fst ` set (i_hist st)"
      using assms(2) by (auto simp: granted_calls_def limit_types_def)
    with assms(1) r have "let_through cfg tasks st t lt"
      unfolding recorded_ok_def by blast
    with r obtain ip where ip: "ParseIP (req_Ip req) = Some ip"
      "(t, attempt_event cfg m (req_Login req) (req_Password req) ip lt, True) \<in> set (i_hist st)"
      by (auto simp: let_through_def)
    moreover have "attempt_key lt (req_Login req) (req_Password req) ip = k" "a \<le> now (moment_of lt m)" "now (moment_of lt m) \<le> b"
      using t r ip(1) by (auto simp: granted_calls_def)
    ultimately have "(t, attempt_event cfg m (req_Login req) (req_Password req) ip lt, True) \<in> set (filter ?hit (i_hist st))"
      by (simp add: attempt_event_def)
    then show "t \<in> fst ` set (filter ?hit (i_hist st))" by force
  qed
  then have "granted_calls tasks st lt k a b \<subseteq> set (map fst (filter ?hit (i_hist st)))"
    by simp
  from card_mono [OF finite_set this] card_length [of "map fst (filter ?hit (i_hist st))"]
  have "card (granted_calls tasks st lt k a b) \<le> length (filter ?hit (i_hist st))"
    by (simp only: length_map)
  moreover have "finite (granted_calls tasks st lt k a b)"
    by (rule finite_subset [of _ "fst ` set (i_hist st)"]) (auto simp: granted_calls_def)
  ultimately show ?thesis by (simp only: len simp_thms)
qed

text \<open>
  C2. The limit holds while calls overlap: whatever calls the server is serving and however far each
  has come, at most the configured number of attempts with one login, password hash or address have
  been let through by the counters within an interval at least a millisecond shorter than the window,
  as long as no call resets that counter and no attempt on it is overtaken, between sampling its time
  and taking the lock of the timeline, by one with a later time. Edits of the lists and attempts on
  other counters, going on at the same time, do not disturb it.
\<close>

theorem overlapping_attempts_bounded:
  assumes "ireach cfg tasks st" "lt \<in> limit_types"
    and "sorted (event_times (calls_on k (events st)))"
    and "\<forall>t req. tasks t = ResetBucket req \<longrightarrow> request_key lt (tasks t) \<noteq> Some k"
    and "b - a \<le> config_Window cfg - 1000000"
  shows "finite (granted_calls tasks st lt k a b) \<and>
    int (card (granted_calls tasks st lt k a b)) \<le> max 0 (attempts cfg lt)"
proof (cases "granted_calls tasks st lt k a b = {}")
  case False
  then obtain l p ip where k: "k = attempt_key lt l p ip"
    by (fastforce simp: granted_calls_def)
  note rec = recorded_ok_reach [OF assms(1)]
  have "\<forall>e \<in> set (events st). ruled k (attempts cfg lt) (config_Window cfg) e"
  proof
    fix e
    assume "e \<in> set (events st)"
    then obtain t ok where "(t, e, ok) \<in> set (i_hist st)" by (auto simp: events_def)
    with rec obtain s where "parsed (tasks t) s" "e \<in> set (counter_event cfg (tasks t) s)"
      unfolding recorded_ok_def by fast
    with counter_event_ruled [OF _ _ assms(2) k] assms(4) show "ruled k (attempts cfg lt) (config_Window cfg) e" by metis
  qed
  from accepted_window [OF assms(3) this assms(5)] passed_accepted [OF assms(1)] granted_calls_passed [OF rec assms(2), of k a b]
  show ?thesis by fastforce
qed simp

text \<open>
  Two attempts with one login, the limit being one: the second has passed the lists before the first is
  counted, and is refused.
\<close>

theorem overlapping_attempts_bounded_witness:
  "\<exists>sched st. irun witness_limits (\<lambda>t. CheckAttempt (witness_at (int t)) witness_req) sched (istart local_init) = Some st \<and>
    i_at st 0 = Answered (Checked True) \<and> i_at st 1 = Answered (Checked False) \<and>
    int (card (granted_calls (\<lambda>t. CheckAttempt (witness_at (int t)) witness_req) st LoginLimit
      (attempt_key LoginLimit ''u'' ''p'' (v4InV6Prefix @ [1, 2, 3, 4])) 0 1)) \<le> max 0 1"
proof -
  let ?tasks = "\<lambda>t :: nat. CheckAttempt (witness_at (int t)) witness_req" and ?ip = "v4InV6Prefix @ [1, 2, 3, 4] :: IP"
  let ?sched = "[0, 1, 1, 1, 0, 0, 0, 0, 0, 1] :: nat list"
  let ?e = "\<lambda>n. attempt_event witness_limits (witness_at n) ''u'' ''p'' ?ip"
  define d1 d2 d3 where "d1 = bucket_step (?e 0 LoginLimit) NewBucketsDB" and "d2 = bucket_step (?e 0 PasswordLimit) d1"
    and "d3 = bucket_step (?e 0 IPLimit) d2"
  define d4 where "d4 = bucket_step (?e 1 LoginLimit) d3"
  note other = attempt_other_key [of _ _ "''u''" "''p''" ?ip witness_limits "witness_at 0"]
  note keys = distinct_attempt_keys distinct_attempt_keys [THEN not_sym]
  have stamps: "stamps d1 (attempt_key PasswordLimit ''u'' ''p'' ?ip) = []" "stamps d2 (attempt_key IPLimit ''u'' ''p'' ?ip) = []"
    "stamps d3 (attempt_key LoginLimit ''u'' ''p'' ?ip) = stamps d1 (attempt_key LoginLimit ''u'' ''p'' ?ip)"
    by (simp_all add: d1_def d2_def d3_def other keys)
  have own: "stamps d1 (attempt_key LoginLimit ''u'' ''p'' ?ip) = [0]"
    by (simp add: d1_def attempt_event_def Allow_stamps attempts_def moment_of_def evict_dropWhile UnixMilli_def Let_def)
  have ok: "event_ok (?e 0 LoginLimit) NewBucketsDB" "event_ok (?e 0 PasswordLimit) d1" "event_ok (?e 0 IPLimit) d2"
    "\<not> event_ok (?e 1 LoginLimit) d3"
    using stamps own
    by (simp_all add: attempt_event_def Allow_decision attempts_def moment_of_def evict_dropWhile UnixMilli_def)
  have lists: "pol_Whitelist (policer local_init) = Some (NewSubnetList Whitelist)"
      "pol_Blacklist (policer local_init) = Some (NewSubnetList Blacklist)" "limit_db local_init = NewBucketsDB"
    by (simp_all add: local_init_def NewSubnetPolicer_def local_heap_def)
  have none: "\<not> list_holds (Some (NewSubnetList lt)) ip" for lt ip
    by (simp add: list_holds_def NewSubnetList_def SubnetList_Contains_def)
  have ask:
    "checker_Allow (limitChecker (local_rate witness_limits)) \<lparr>now = n, rnd = Inr 0\<rparr> LoginLimit ''u'' w =
      (Inr (event_ok (?e n LoginLimit) (limit_db w)), put_limit_db (bucket_step (?e n LoginLimit) (limit_db w)) w)"
    "checker_Allow (limitChecker (local_rate witness_limits)) \<lparr>now = n, rnd = Inr 0\<rparr> PasswordLimit (hashPassword ''p'') w =
      (Inr (event_ok (?e n PasswordLimit) (limit_db w)), put_limit_db (bucket_step (?e n PasswordLimit) (limit_db w)) w)"
    "checker_Allow (limitChecker (local_rate witness_limits)) \<lparr>now = n, rnd = Inr 0\<rparr> IPLimit (IP_String ?ip) w =
      (Inr (event_ok (?e n IPLimit) (limit_db w)), put_limit_db (bucket_step (?e n IPLimit) (limit_db w)) w)" for n w
    using ask_counter [where m = "witness_at n" and login = "''u''" and password = "''p''" and ip = ?ip]
    by (simp_all only: moments.simps)
  have "\<exists>st. irun witness_limits ?tasks ?sched (istart local_init) = Some st \<and>
      i_at st 0 = Answered (Checked True) \<and> i_at st 1 = Answered (Checked False) \<and>
      events st = [?e 0 LoginLimit, ?e 0 PasswordLimit, ?e 0 IPLimit, ?e 1 LoginLimit]"
    using ok
    by (simp add: istep_def istart_def lists none witness_address ask events_def d1_def [symmetric] d2_def [symmetric]
        d3_def [symmetric] d4_def [symmetric] del: event_ok.simps bucket_step.simps)
  then obtain st where st: "irun witness_limits ?tasks ?sched (istart local_init) = Some st"
    "i_at st 0 = Answered (Checked True)" "i_at st 1 = Answered (Checked False)"
    "events st = [?e 0 LoginLimit, ?e 0 PasswordLimit, ?e 0 IPLimit, ?e 1 LoginLimit]" by blast
  have "sorted (event_times (events st))"
    by (simp add: st(4) attempt_event_def moment_of_def)
  from overlapping_attempts_bounded [OF irun_reach [OF st(1) ireach_start] _ sorted_calls_on [OF this],
      of LoginLimit "attempt_key LoginLimit ''u'' ''p'' ?ip" 1 0] st(1-3)
  show ?thesis
    by (intro exI [of _ ?sched] exI [of _ st]) (simp add: limit_types_def attempts_def)
qed

section \<open>Well-formed states\<close>

text \<open>
  A world is well formed when its lists are (\<open>local_ok\<close>) and every timeline is that of one of the three
  kinds of keys and no longer than the limit of its kind.
\<close>

definition world_ok :: "config_Limits \<Rightarrow> local_world \<Rightarrow> bool" where
  "world_ok cfg w \<longleftrightarrow> local_ok w \<and>
     (\<forall>k tline. buckets (limit_db w) k = Some tline \<longrightarrow>
       (\<exists>lt \<in> limit_types. (\<exists>id. k = bucket_key lt id) \<and> int (length (times tline)) \<le> attempts cfg lt))"

text \<open>The answers a request can have.\<close>

fun answer_ok :: "request \<Rightarrow> response \<Rightarrow> bool" where
  "answer_ok (CheckAttempt m req) a \<longleftrightarrow>
     (case ParseIP (req_Ip req) of None \<Rightarrow> a = Failed (Sentinel (GrpcErr ErrInvalidIPAddress)) | Some ip \<Rightarrow> \<exists>b. a = Checked b)"
| "answer_ok (ResetBucket req) a \<longleftrightarrow>
     (case ParseIP (reset_Ip req) of None \<Rightarrow> a = Failed (Sentinel (GrpcErr ErrInvalidIPAddress)) | Some ip \<Rightarrow> a = Done)"
| "answer_ok (ManageCIDR e r1 r2) a \<longleftrightarrow>
     a = Done \<or> (\<exists>err. a = Failed err \<and> errors_Is err (SubnetlistErr ErrInvalidCIDR))"

lemma Allow_keeps_short:
  assumes "\<And>k tline. buckets db k = Some tline \<Longrightarrow>
      \<exists>lt \<in> limit_types. (\<exists>id. k = bucket_key lt id) \<and> int (length (times tline)) \<le> attempts cfg lt"
    and "lt \<in> limit_types"
    and "buckets (snd (BucketsDB_Allow m (bucket_key lt key) (attempts cfg lt) win db)) k = Some tline"
  shows "\<exists>lt \<in> limit_types. (\<exists>id. k = bucket_key lt id) \<and> int (length (times tline)) \<le> attempts cfg lt"
proof (cases "k = bucket_key lt key")
  case False
  with assms(1,3) show ?thesis
    by (auto simp: BucketsDB_Allow_def getTimeline_def Let_def split: option.splits if_splits)
next
  case True
  have "int (length (times tline)) \<le> attempts cfg lt" if db: "buckets db k = Some old" for old
  proof -
    have bound: "int (length (times old)) \<le> attempts cfg lt"
      using assms(1) [OF db] True bucket_key_inject [OF assms(2)] by auto
    moreover have "length (evict c (times old)) \<le> length (times old)" for c
      by (simp add: evict_dropWhile length_dropWhile_le)
    ultimately have "int (length (evict c (times old))) \<le> attempts cfg lt" for c
      by (meson of_nat_mono order_trans)
    with bound assms(3) db True show ?thesis
      by (auto simp: BucketsDB_Allow_def getTimeline_def Let_def split: if_splits)
  qed
  moreover have "int (length (times tline)) \<le> attempts cfg lt" if "buckets db k = None"
    using assms(3) that True
    by (auto simp: BucketsDB_Allow_def getTimeline_def evict_dropWhile Let_def split: if_splits)
  ultimately show ?thesis using True assms(2) by (cases "buckets db k") auto
qed

lemma Reset_keeps_short:
  assumes "\<And>k tline. buckets db k = Some tline \<Longrightarrow>
      \<exists>lt \<in> limit_types. (\<exists>id. k = bucket_key lt id) \<and> int (length (times tline)) \<le> attempts cfg lt"
    and "buckets (snd (BucketsDB_Reset key db)) k = Some tline"
  shows "\<exists>lt \<in> limit_types. (\<exists>id. k = bucket_key lt id) \<and> int (length (times tline)) \<le> attempts cfg lt"
proof -
  from assms(2) obtain old where "buckets db k = Some old" "length (times tline) \<le> length (times old)"
    by (auto simp: BucketsDB_Reset_def split: option.splits if_splits)
  with assms(1) [of k old] show ?thesis by force
qed

lemma counter_event_cases:
  assumes "e \<in> set (counter_event cfg r s)"
  obtains m lt id win where "lt \<in> limit_types" "e = AllowAt m (bucket_key lt id) (attempts cfg lt) win"
    | k where "e = ResetKey k"
proof -
  have key: "\<exists>id. attempt_key lt l p ip = bucket_key lt id" if "lt \<in> limit_types" for lt l p ip
    using that by (auto simp: limit_types_def attempt_key_def)
  have "(\<exists>m l p ip lt. lt \<in> limit_types \<and> e = attempt_event cfg m l p ip lt) \<or> (\<exists>k. e = ResetKey k)"
    using assms by (cases "(cfg, r, s)" rule: counter_event.cases) (auto simp: limit_types_def, blast+)
  then show ?thesis
  proof (elim disjE exE conjE)
    fix m l p ip lt
    assume lt: "lt \<in> limit_types" "e = attempt_event cfg m l p ip lt"
    from key [OF lt(1), of l p ip] obtain id where "attempt_key lt l p ip = bucket_key lt id" ..
    with lt show ?thesis by (intro that(1) [OF lt(1)]) (simp add: attempt_event_def)
  qed (rule that(2))
qed

lemma world_ok_step:
  assumes "request_step cfg r s w = Some (s', w')" "world_ok cfg w"
  shows "world_ok cfg w'"
proof -
  let ?short = "\<lambda>db. \<forall>k tline. buckets db k = Some tline \<longrightarrow>
    (\<exists>lt \<in> limit_types. (\<exists>id. k = bucket_key lt id) \<and> int (length (times tline)) \<le> attempts cfg lt)"
  have short: "?short (limit_db w)" using assms(2) by (simp add: world_ok_def)
  have "?short (bucket_step e (limit_db w))" if "e \<in> set (counter_event cfg r s)" for e
    using that
  proof (cases rule: counter_event_cases)
    case (1 m lt id win)
    with Allow_keeps_short [of "limit_db w" cfg lt m id win] short show ?thesis by simp
  next
    case (2 k)
    with Reset_keeps_short [of "limit_db w" cfg k] short show ?thesis by simp
  qed
  with short counter_event_single [of cfg r s] have "?short (bucket_run (counter_event cfg r s) (limit_db w))"
    by (elim disjE exE) simp_all
  with request_step_ok [OF assms(1)] request_step_limit_db [OF assms(1)] assms(2) show ?thesis
    by (simp add: world_ok_def)
qed

lemma check_answer:
  assumes "check_step cfg m req s w = Some (Answered a, w')" "parsed (CheckAttempt m req) s"
  shows "answer_ok (CheckAttempt m req) a"
proof -
  note ask = ask_counter(1) [where password = "req_Password req"] ask_counter(2) [where login = "req_Login req"]
    ask_counter(3) [where login = "req_Login req" and password = "req_Password req"]
  from assms show ?thesis
  proof (cases s)
    case (AskLogin ip)
    with assms show ?thesis by (auto simp: ask(1) [where ip = ip] split: if_splits)
  next
    case (AskPassword ip)
    with assms show ?thesis by (auto simp: ask(2) [where ip = ip] split: if_splits)
  next
    case (AskAddress ip)
    with assms show ?thesis by (auto simp: ask(3) split: if_splits)
  qed (auto split: option.splits if_splits)
qed

lemma reset_answer:
  assumes "reset_step cfg req s w = Some (Answered a, w')" "parsed (ResetBucket req) s"
  shows "answer_ok (ResetBucket req) a"
proof -
  note empty = empty_counter(1) [where password = "reset_Password req"] empty_counter(2) [where login = "reset_Login req"]
    empty_counter(3) [where login = "reset_Login req" and password = "reset_Password req"]
  from assms show ?thesis
  proof (cases s)
    case (EmptyLogin ip)
    with assms show ?thesis by (auto simp: empty(1) [where ip = ip])
  next
    case (EmptyPassword ip)
    with assms show ?thesis by (auto simp: empty(2) [where ip = ip])
  next
    case (EmptyAddress ip)
    with assms show ?thesis by (auto simp: empty(3))
  qed (auto split: option.splits)
qed

lemma edit_answer:
  assumes "edit_step e r1 r2 s w = Some (Answered a, w')"
  shows "answer_ok (ManageCIDR e r1 r2) a"
proof (cases "s = Arrived")
  case True
  with assms show ?thesis by (auto simp: write_list)
next
  case False
  with assms have step: "reload_step r1 r2 s w = Some (Answered a, w')"
    by (simp add: edit_step_reload)
  then show ?thesis
  proof (cases "(r1, r2, s, w)" rule: reload_step.cases)
    case (4 _ _ lt c cs v)
    then obtain nl where nl: "pol_list lt (policer w) = Some nl" using step by auto
    obtain err nl' where "SubnetList_Add c nl = (err, nl')" by (rule prod.exhaust)
    with 4 step nl SubnetList_Add_error [of c nl] show ?thesis
      by (auto simp: load_failed_def split: option.splits)
  qed (use step in \<open>auto simp: read_list loaded_def load_failed_def split: option.splits if_splits\<close>)
qed

lemma request_answer:
  "request_step cfg r s w = Some (Answered a, w') \<Longrightarrow> parsed r s \<Longrightarrow> answer_ok r a"
  using check_answer reset_answer edit_answer by (cases r) (auto simp del: answer_ok.simps parsed.simps)

lemma answers_reach: "ireach cfg tasks st \<Longrightarrow> i_at st t = Answered a \<Longrightarrow> answer_ok (tasks t) a"
proof (induction arbitrary: t a rule: ireach.induct)
  case ireach_start
  then show ?case by (simp add: istart_def)
next
  case (ireach_step st u st')
  from ireach_step.hyps(2) obtain s w where s: "request_step cfg (tasks u) (i_at st u) (i_world st) = Some (s, w)"
    "i_at st' = (i_at st)(u := s)" by (rule istep_cases)
  have "parsed (tasks u) (i_at st u)"
    using recorded_ok_reach [OF ireach_step.hyps(1)] unfolding recorded_ok_def by blast
  with request_answer s ireach_step.IH [of t a] ireach_step.prems show ?case by (cases "t = u") auto
qed

lemma world_ok_reach: "ireach cfg tasks st \<Longrightarrow> world_ok cfg (i_world st)"
proof (induction rule: ireach.induct)
  case ireach_start
  show ?case using local_init_ok by (simp add: world_ok_def istart_def NewBucketsDB_def)
next
  case (ireach_step st u st')
  then show ?case using world_ok_step by (auto elim!: istep_cases)
qed

text \<open>
  C5. Every reachable state is well typed, however calls overlap: the lists are well formed, the map of
  attempts has a timeline only under a key of one of the three kinds and none longer than its limit;
  every call is at a stage of its kind and, until it is answered, can go on; and it is only ever
  answered what its request can be answered: an attempt with a verdict, a reset with success, both with
  the error for an address that does not parse, and an edit with success or \<open>ErrInvalidCIDR\<close>.
\<close>

theorem reachable_well_typed:
  assumes "ireach cfg tasks st"
  shows "world_ok cfg (i_world st) \<and> of_kind (tasks t) (i_at st t) \<and>
    ((\<exists>st'. istep cfg tasks t st = Some st') \<or> (\<exists>a. i_at st t = Answered a \<and> answer_ok (tasks t) a))"
proof (cases "\<exists>a. i_at st t = Answered a")
  case True
  with ireach_ok [OF assms] world_ok_reach [OF assms] answers_reach [OF assms] show ?thesis by auto
next
  case False
  with ireach_ok [OF assms] world_ok_reach [OF assms] request_progress [of "tasks t" "i_at st t" "i_world st" cfg] local_ok_both
  show ?thesis by (fastforce simp: istep_def)
qed

theorem reachable_well_typed_witness:
  "\<exists>st st'. istep witness_limits (\<lambda>_. ManageCIDR (AddB ''x'') rev rev) 0 (istart local_init) = Some st \<and>
    world_ok witness_limits (i_world st) \<and> istep witness_limits (\<lambda>_. ManageCIDR (AddB ''x'') rev rev) 0 st = Some st'"
proof -
  let ?tasks = "\<lambda>_ :: nat. ManageCIDR (AddB ''x'') rev rev"
  obtain st where st: "istep witness_limits ?tasks 0 (istart local_init) = Some st" "i_at st 0 = ReadList Whitelist"
    by (simp add: istep_def istart_def write_list)
  from reachable_well_typed [OF ireach_step [OF ireach_start st(1)], of 0] st show ?thesis by auto
qed

end
