(* ===== verification/Spec2Isabelle.thy ===== *)
theory Spec2Isabelle
  imports Service_Spec External_System Buckets_Concurrent Migrator Grpc_Middleware Client_Cli Server_Stop Reload_Race
    Interleaved_Lists Interleaved_Counting
begin

text \<open>
  The anti-bruteforce service: a gRPC server that decides whether an attempt to log in is let
  through, by a white and a black list of subnets and by three sliding-window counters (of the login,
  of the password's hash and of the address); the command line over it; and the tool that migrates its
  database. The development models the program's own Go code, proves what it promises, and where it
  does not keep a promise proves that.

  \<^bold>\<open>The parts and how they call each other.\<close> A handler of \<open>delivery/grpc/server.go\<close> parses the address and
  calls a use case of \<open>app/\<close>. \<open>RateLimiterService.Check\<close> asks the policer (\<open>domain/subnetlist\<close>), then
  up to three limiters (\<open>domain/ratelimit\<close>), which ask the store of attempts. The list use case writes
  to the store of lists and announces the change through a publisher; the reload that follows, directly
  in local mode and through Redis and the subscriber in external mode, copies the stored lists into the
  policer. The interceptors stand before every handler. \<open>cmd/anti-bruteforce/main.go\<close> assembles this in
  two modes, with both stores in memory or with the lists in PostgreSQL and the counters in Redis.

  \<^bold>\<open>Theories and sources.\<close>
  \<^item> \<open>Abf_Prelude\<close>: fact collections, generic lemmas, Go's integer arithmetic;
    \<open>Go_Errors\<close>: error values, sentinels, wrapping, \<open>errors.Is\<close>.
  \<^item> The standard library's part: \<open>Go_Net\<close>, \<open>Go_Net_Facts\<close> (\<open>net.ParseIP\<close>, \<open>ParseCIDR\<close>, \<open>Contains\<close>,
    \<open>IP.String\<close>), \<open>Go_Fmt\<close>, \<open>Go_Scan\<close> (decimal printing, \<open>fmt.Sscan\<close>, trimming, lower case),
    \<open>Go_Sha256\<close>.
  \<^item> \<open>Abf_Domain\<close>: \<open>domain/types.go\<close> and the interfaces of \<open>ports/\<close> as records of functions over a world
    \<open>'w\<close>, moments and \<open>UnixMilli\<close>; \<open>Abf_Contracts\<close>: what the users of the two stores rely on, as the locales \<open>limiter_repo\<close> and
    \<open>subnet_repo\<close>, with the lemmas of the users proved inside them.
  \<^item> The stores: \<open>Memory_Buckets\<close> and \<open>Memory_Subnets\<close> (\<open>storage/memory\<close>, where the locales are
    interpreted), \<open>Buckets_Concurrent\<close> (the same store lock by lock), \<open>Redis_Buckets\<close>
    (\<open>storage/redisdb\<close>), \<open>Postgres_Subnets\<close> (\<open>storage/postgresdb\<close>).
  \<^item> \<open>Ratelimit\<close> and \<open>Subnetlist\<close> (\<open>domain/\<close>), \<open>Reload_Race\<close> (a reload statement by statement), \<open>Rate_Service\<close> and \<open>Subnet_Service\<close> (\<open>app/\<close>), \<open>Adapters\<close>
    (publishers and subscriber), \<open>Grpc_Server\<close> (handlers and messages), \<open>Ctx_Logger\<close> and
    \<open>Grpc_Middleware\<close> (\<open>ctxmeta\<close>, \<open>logger\<close>, interceptors).
  \<^item> \<open>Config\<close>, \<open>Redis_Factory\<close>, \<open>Server_Run\<close> (\<open>main\<close> and \<open>run\<close> up to the goroutines), \<open>Server_Stop\<close> (the
    goroutines and the end of \<open>run\<close>), \<open>Version\<close> (\<open>version\<close>, with the strings of \<open>encoding/json\<close>).
  \<^item> The assembled server: \<open>Local_System\<close>, \<open>Local_Behaviour\<close>, \<open>Local_Counting\<close> for the local mode,
    \<open>Service_Spec\<close> for what it promises as a specification of its own, which \<open>run\<close> in local mode meets, and
    this theory for its end-to-end properties, requests served one at a time; \<open>Interleaved_Requests\<close>,
    \<open>Interleaved_Counting\<close> and \<open>Interleaved_Lists\<close> for the same server when its calls overlap;
    \<open>External_System\<close> for the external mode.
  \<^item> \<open>Client_Cli\<close> (\<open>abfclient\<close>, \<open>cmd/abfctl\<close>) and \<open>Migrator\<close> (\<open>cmd/migrator\<close>).

  \<^bold>\<open>How code is modelled.\<close> A struct is a record, a method a function from the state and a world to a
  result and the changed ones. \<open>(T, error)\<close> is \<open>go_error + T\<close>, \<open>error\<close> is \<open>go_error option\<close>, a nil pointer
  or interface is \<open>None\<close>, and a panic of a handler is the missing result of \<open>Grpc_Middleware\<close>. What the
  host answers is an argument: the times a call samples (\<open>moment\<close>, \<open>moments\<close>), the order in which a map
  is walked (\<open>range_order\<close>, any permutation), and the answers of third parties, which are fields of
  records over the world. What is relied on of them is named where it is used: \<open>lawful_redis\<close>,
  \<open>lawful_sql\<close>, \<open>lawful_sqlx\<close>, \<open>lawful_host\<close>, \<open>known_keys_only\<close>, \<open>lawful_chain\<close>, \<open>lawful_grpc\<close>,
  \<open>lawful_cobra\<close>, \<open>lawful_net\<close>, \<open>lawful_wait\<close>; each has an instance in its theory, which the witnesses
  use. Times and limits are mathematical integers: a Go \<open>time.Time\<close> has no overflow in the range of the
  clock, and the code's arithmetic on them does not wrap there; addresses, hashes and masks are words.
  No definition needs fuel: loops over slices and texts are structural or have a measure, and the loop
  of the subscriber runs over the finite list of what its \<open>select\<close> has picked so far.

  \<^bold>\<open>What is shown.\<close>
  \<^item> Counting: the store in memory decides like the unbounded log of a sliding window
    (\<open>bucket_refines_log\<close>), which bounds the attempts let through on a key and, through all layers of
    the assembled server, on a login, a password and an address (\<open>attempts_bounded\<close>), in intervals a
    millisecond shorter than the window, for attempts counted in the order of their times and without a
    reset; what an attempt costs, whom it does not affect, and that a reset opens. Redis keeps the same
    contract and is the stricter of the two. In intervals shorter than the window by less than the
    millisecond of the rounding, up to twice the limit is let through (\<open>window_bound_rounding\<close>), and
    nearly as much when attempts are overtaken between sampling their time and taking the lock
    (\<open>late_lock_exceeds\<close>).
  \<^item> Concurrency: interleaved lock by lock, the calls on the store in memory are free of data races,
    linearizable to the atomic methods, and always return. On the assembled local server, calls that
    overlap keep the bound on attempts as long as none is overtaken there (\<open>overlapping_attempts_bounded\<close>),
    every state is well typed, and a call left alone is answered as the handler does in one go. An edit
    that overlaps no other edit is stored, and in effect when it is answered without error; of two that
    overlap, one can be lost (\<open>overlapping_edit_lost\<close>).
  \<^item> Lists: a list holds exactly what its valid texts cover; an edit is in effect at once in local mode
    and with the subscriber's next message in external mode; an invalid text, once stored, makes every
    edit fail and, in external mode, ends the process (\<open>invalid_text_poisons\<close>, \<open>external_poison\<close>). A
    check made during a reload can miss either list (\<open>check_during_reload\<close>).
  \<^item> The process: what \<open>run\<close> starts in local mode answers every sequence of requests as the specification
    does (\<open>local_mode_start\<close>); opening the database leaks nothing; the Redis defaults never take effect;
    once asked to, the process ends, with calls still running if the stop was forced, and with an error
    if it was asked before it began to serve (\<open>server_stops\<close>).
  \<^item> The edges: the interceptors are transparent and log each call once; each command of \<open>abfctl\<close> is one
    request; the migrator goes to the version printed, and to another one for a version written with
    leading zeros.

  \<^bold>\<open>Not modelled.\<close> The generated gRPC code but for the fields of the messages, and the transport, which
  the client's theory takes as delivering a call at most once; the deadlines of contexts, since the code
  only hands contexts on; the text format of the log and the messages \<open>run\<close> itself logs; calls
  that overlap in external mode, where the counters are one transaction of Redis each and a single
  goroutine reloads. Where the code writes and reads a map of the policer without a lock
  (\<open>Reload_Race\<close>, \<open>Interleaved_Requests\<close>), each access is one step: what Go's runtime may do beyond that,
  up to ending the process, is left out.
\<close>

section \<open>Counting, end to end\<close>

text \<open>
  C1. The local server bounds guessing: in an interval at least a millisecond shorter than the window,
  at most the configured number of attempts with one login, with one password (hash) or from one
  address are let through by the counters, whatever other requests are served, as long as no request
  resets that counter and the clock does not go back; requests are served one at a time.
\<close>

theorem attempts_bounded:
  assumes "sorted (concat (map request_times rs))" and "lt \<in> limit_types"
    and "\<forall>req. ResetBucket req \<in> set rs \<longrightarrow>
      request_key lt (ResetBucket req) \<noteq> Some (attempt_key lt login password ip)"
    and "b - a \<le> config_Window cfg - 1000000"
  shows "int (length (filter (\<lambda>t. a \<le> t \<and> t \<le> b)
    (granted cfg lt (attempt_key lt login password ip) rs local_init))) \<le> max 0 (attempts cfg lt)"
proof -
  let ?k = "attempt_key lt login password ip" and ?es = "run_events cfg rs local_init"
  have "sorted (event_times ?es)"
    by (rule sorted_subseq [OF run_event_times assms(1)])
  from accepted_window [OF sorted_calls_on [OF this] run_ruled [OF assms(2) refl assms(3)] assms(4)]
    filter_length_subseq [OF granted_accepted [OF assms(2), of cfg ?k rs local_init], of "\<lambda>t. a \<le> t \<and> t \<le> b"]
  show ?thesis by (simp add: local_init_ok)
qed

theorem attempts_bounded_witness:
  "fst (serve_all (local_server witness_limits)
      [CheckAttempt (witness_at 0) witness_req, CheckAttempt (witness_at 500000000) witness_req] local_init)
    \<noteq> [] \<and>
   int (length (filter (\<lambda>t. 0 \<le> t \<and> t \<le> 999000000)
     (granted witness_limits LoginLimit (attempt_key LoginLimit ''u'' ''p'' (v4InV6Prefix @ [1, 2, 3, 4]))
       [CheckAttempt (witness_at 0) witness_req, CheckAttempt (witness_at 500000000) witness_req] local_init)))
    \<le> max 0 1"
proof -
  have "int (length (filter (\<lambda>t. 0 \<le> t \<and> t \<le> 999000000)
     (granted witness_limits LoginLimit (attempt_key LoginLimit ''u'' ''p'' (v4InV6Prefix @ [1, 2, 3, 4]))
       [CheckAttempt (witness_at 0) witness_req, CheckAttempt (witness_at 500000000) witness_req] local_init)))
    \<le> max 0 (attempts witness_limits LoginLimit)"
    by (rule attempts_bounded) (simp_all add: limit_types_def)
  then show ?thesis
    by (simp add: attempts_def serve_all.simps split: prod.split)
qed

text \<open>
  C9. What an unlisted attempt costs: the counters are asked in the order login, password, address;
  each that has room records the attempt, the first that has none refuses it and the later ones are
  left as they are. So an attempt refused for its password or address still uses up its login.
\<close>

theorem attempt_cost:
  assumes "0 < config_Window cfg" "\<forall>lt \<in> limit_types. 0 < attempts cfg lt"
    and "ParseIP (req_Ip req) = Some ip" "SubnetPolicer_Check (policer w) ip = DecisionContinue"
    and "kl = attempt_key LoginLimit (req_Login req) (req_Password req) ip"
      "kp = attempt_key PasswordLimit (req_Login req) (req_Password req) ip"
      "ki = attempt_key IPLimit (req_Login req) (req_Password req) ip"
    and "serve (local_server cfg) (CheckAttempt m req) w = (a, w')"
  shows "if \<not> has_room cfg LoginLimit (at_login m) w kl then
      a = Checked False \<and> counter w' kl = live_stamps cfg (at_login m) w kl \<and>
      counter w' kp = counter w kp \<and> counter w' ki = counter w ki
    else if \<not> has_room cfg PasswordLimit (at_password m) w kp then
      a = Checked False \<and> counter w' kl = recorded cfg (at_login m) w kl \<and>
      counter w' kp = live_stamps cfg (at_password m) w kp \<and> counter w' ki = counter w ki
    else if \<not> has_room cfg IPLimit (at_ip m) w ki then
      a = Checked False \<and> counter w' kl = recorded cfg (at_login m) w kl \<and>
      counter w' kp = recorded cfg (at_password m) w kp \<and> counter w' ki = live_stamps cfg (at_ip m) w ki
    else
      a = Checked True \<and> counter w' kl = recorded cfg (at_login m) w kl \<and>
      counter w' kp = recorded cfg (at_password m) w kp \<and> counter w' ki = recorded cfg (at_ip m) w ki"
proof -
  let ?es = "three_events cfg m (req_Login req) (req_Password req) ip"
  have "a = Checked (all_ok ?es (limit_db w))"
    "w' = put_limit_db (bucket_run (made ?es (limit_db w)) (limit_db w)) w"
    using assms(8) by (simp_all add: serve_check [OF assms(3)] assms(4) Let_def del: all_ok.simps made.simps list.map)
  with three_counters [OF assms(1,2,5-7) this(2) refl] show ?thesis
    by (simp split: if_splits del: all_ok.simps made.simps list.map)
qed

theorem attempt_cost_witness:
  "\<exists>a w'. serve (local_server witness_limits) (CheckAttempt (witness_at 0) witness_req) local_init = (a, w') \<and>
    a = Checked True \<and>
    counter w' (attempt_key IPLimit ''u'' ''p'' (v4InV6Prefix @ [1, 2, 3, 4])) = [0]"
proof -
  obtain a w' where s:
    "serve (local_server witness_limits) (CheckAttempt (witness_at 0) witness_req) local_init = (a, w')"
    by fastforce
  have "0 < config_Window witness_limits" "\<forall>lt \<in> limit_types. 0 < attempts witness_limits lt"
    by (simp_all add: attempts_def)
  from attempt_cost [OF this _ init_continue refl refl refl s] s show ?thesis
    by (auto simp: witness_address has_room_def live_stamps_def recorded_def attempts_def UnixMilli_def)
qed

text \<open>
  C17. An attempt touches no counter but its own three: another login, another password whose hash
  differs and another IPv4 address keep their counters, even when a login is chosen to look like a
  key of another kind.
\<close>

theorem others_unaffected:
  assumes "serve (local_server cfg) (CheckAttempt m req) w = (a, w')"
  shows "(login' \<noteq> req_Login req \<longrightarrow>
      counter w' (attempt_key LoginLimit login' p ip) = counter w (attempt_key LoginLimit login' p ip)) \<and>
    (hashPassword password' \<noteq> hashPassword (req_Password req) \<longrightarrow>
      counter w' (attempt_key PasswordLimit l password' ip) = counter w (attempt_key PasswordLimit l password' ip)) \<and>
    (To4 ip' = Some y' \<longrightarrow> ParseIP (req_Ip req) = Some ip0 \<longrightarrow> To4 ip0 = Some y \<longrightarrow> y' \<noteq> y \<longrightarrow>
      counter w' (attempt_key IPLimit l p ip') = counter w (attempt_key IPLimit l p ip'))"
proof (cases "ParseIP (req_Ip req)")
  case None
  with assms show ?thesis by (simp add: serve_check_bad_ip)
next
  case (Some ip1)
  have other: "counter w' k = counter w k"
    if "\<forall>lt \<in> limit_types. k \<noteq> attempt_key lt (req_Login req) (req_Password req) ip1" for k
    using made_other_key [OF that, of cfg m "limit_db w"] assms
    by (auto simp: serve_check [OF Some] counter_def Let_def simp del: made.simps list.map all_ok.simps
        split: PolicyDecision.splits)
  have types: "LoginLimit \<in> limit_types" "PasswordLimit \<in> limit_types" "IPLimit \<in> limit_types"
    by (simp_all add: limit_types_def)
  have v4: "IP_String ip' \<noteq> IP_String ip1"
    if "To4 ip' = Some y'" "To4 ip1 = Some y" "y' \<noteq> y" for ip' y'
    using that string4_inject [OF To4_length To4_length] by (simp add: IP_String_v4)
  show ?thesis
    using distinct_attempt_keys distinct_attempt_keys [THEN not_sym] v4 [of ip' y'] Some
    by (auto intro!: other simp: limit_types_def) (auto simp: attempt_key_def bucket_key_inject types)
qed

theorem others_unaffected_witness:
  "counter (snd (serve (local_server witness_limits) (CheckAttempt (witness_at 0) witness_req) local_init))
    (attempt_key LoginLimit ''u2'' ''p'' []) = []"
  using others_unaffected [of witness_limits "witness_at 0" witness_req local_init _ _ "''u2''" "''p''" "[]",
      OF surjective_pairing] by simp

text \<open>
  C16. A reset unblocks: \<open>ResetBucket\<close> with a login, a password and an address answers without error,
  and whatever was counted before and whatever is configured, the next attempt with these three is
  answered as if nothing had ever been counted: let through when the white list covers the address,
  refused when only the black list does, and otherwise let through exactly when all three limits are
  positive.
\<close>

theorem reset_opens:
  assumes "ParseIP (req_Ip req) = Some ip" "ParseIP (reset_Ip rq) = Some ip"
    and "reset_Login rq = req_Login req" "reset_Password rq = req_Password req"
    and "serve (local_server cfg) (ResetBucket rq) w = (a, w')"
  shows "a = Done \<and>
    fst (serve (local_server cfg) (CheckAttempt m req) w') = Checked
      (case SubnetPolicer_Check (policer w) ip of
         DecisionAllow \<Rightarrow> True
       | DecisionDeny \<Rightarrow> False
       | DecisionContinue \<Rightarrow> (\<forall>lt \<in> limit_types. 0 < attempts cfg lt))"
proof -
  have reset: "a = Done" "w' = put_limit_db (bucket_run (map (\<lambda>lt. ResetKey
      (attempt_key lt (req_Login req) (req_Password req) ip)) [LoginLimit, PasswordLimit, IPLimit]) (limit_db w)) w"
    using assms(5) by (simp_all add: serve_reset assms(2-4))
  then have "\<forall>lt \<in> limit_types. stamps (limit_db w') (attempt_key lt (req_Login req) (req_Password req) ip) = []"
    using distinct_attempt_keys distinct_attempt_keys [THEN not_sym] by (simp add: limit_types_def bucket_frame)
  from fresh_three [OF this] have "all_ok (three_events cfg m (req_Login req) (req_Password req) ip) (limit_db w')
      \<longleftrightarrow> (\<forall>lt \<in> limit_types. 0 < attempts cfg lt)" .
  with reset show ?thesis
    by (simp add: serve_check [OF assms(1)] Let_def del: all_ok.simps made.simps list.map split: PolicyDecision.split)
qed

theorem reset_opens_witness:
  "fst (serve (local_server witness_limits) (CheckAttempt (witness_at 5) witness_req)
    (snd (serve (local_server witness_limits)
      (ResetBucket \<lparr>reset_Login = ''u'', reset_Password = ''p'', reset_Ip = ''1.2.3.4''\<rparr>)
      (snd (serve (local_server witness_limits) (CheckAttempt (witness_at 0) witness_req) local_init)))))
   = Checked True"
proof -
  have "policer (snd (serve (local_server witness_limits) (CheckAttempt (witness_at 0) witness_req) local_init))
      = policer local_init"
    using serve_check_lists by blast
  with reset_opens [of witness_req _ "\<lparr>reset_Login = ''u'', reset_Password = ''p'', reset_Ip = ''1.2.3.4''\<rparr>"
      witness_limits _ _ _ "witness_at 5", OF _ _ _ _ surjective_pairing]
  show ?thesis
    by (simp add: attempts_def limit_types_def witness_address init_continue)
qed

text \<open>
  Spellings of one address share a bucket: two texts that parse to IPv4 addresses, dotted or
  IPv4-mapped, are counted under the same address key exactly when the addresses are the same.
\<close>

theorem one_bucket_per_ipv4:
  assumes "ParseIP s = Some ip" "ParseIP s' = Some ip'" "To4 ip = Some y" "To4 ip' = Some y'"
  shows "attempt_key IPLimit l p ip = attempt_key IPLimit l' p' ip' \<longleftrightarrow> y = y'"
proof -
  have "IP_String ip = IP_String ip' \<longleftrightarrow> y = y'"
    using assms(3,4) string4_inject [OF To4_length To4_length, of ip y ip' y'] by (simp add: IP_String_v4)
  then show ?thesis
    by (simp add: attempt_key_def bucket_key_inject limit_types_def)
qed

theorem one_bucket_per_ipv4_witness:
  "attempt_key IPLimit ''a'' ''x'' (the (ParseIP ''1.2.3.4'')) =
    attempt_key IPLimit ''b'' ''y'' (the (ParseIP ''::ffff:1.2.3.4''))"
proof -
  have mapped: "ParseIP ''::ffff:1.2.3.4'' = Some (v4InV6Prefix @ [1, 2, 3, 4])"
    by (simp add: ParseIP_def ParseAddr_def parseIPv6_def parseIPv6_loop.simps parseIPv6_finish_def
        parseIPv4_def digit_val_def hex_val_def v4InV6Prefix_def Let_def)
  from one_bucket_per_ipv4 [OF witness_address this, of "[1, 2, 3, 4]" "[1, 2, 3, 4]"]
  show ?thesis by (simp add: witness_address mapped)
qed

section \<open>The lists, end to end\<close>

text \<open>The texts the lists hold after a run of edits.\<close>

definition edited :: "edit list \<Rightarrow> ListType \<Rightarrow> string set" where
  "edited es = fold edit_sets es (\<lambda>_. {})"

lemma after_facts:
  assumes "\<forall>r \<in> set rs. fair_request r"
  shows "local_ok (after cfg rs)" "stored (subnet_db (after cfg rs)) = edited (edits_of rs)"
proof -
  have "stored (subnet_db local_init) = (\<lambda>_. {})"
    using local_init_ok by blast
  then show "local_ok (after cfg rs)" "stored (subnet_db (after cfg rs)) = edited (edits_of rs)"
    using run_facts [OF local_init_ok(1) assms, of cfg] by (simp_all add: edited_def)
qed

lemma edited_snoc: "edited (es @ [e]) = edit_sets e (edited es)"
  by (simp add: edited_def)

text \<open>
  C11. In local mode, requests served one at a time, the store follows the edits: whatever else was served, and even where an edit was answered
  with an error, the stored lists are what the edits, in order, make of empty lists, and an edit is
  answered without error exactly when every text stored after it is a valid network; otherwise the
  error is \<open>ErrInvalidCIDR\<close>.
\<close>

theorem edits_stored_and_answered:
  assumes "\<forall>r \<in> set rs. fair_request r" "fair_order r1" "fair_order r2"
    and "serve (local_server cfg) (ManageCIDR e r1 r2) (after cfg rs) = (a, w)"
  shows "stored (subnet_db w) = edited (edits_of rs @ [e]) \<and>
    (a = Done \<longleftrightarrow>
      (\<forall>c \<in> edited (edits_of rs @ [e]) Whitelist \<union> edited (edits_of rs @ [e]) Blacklist. valid_cidr c)) \<and>
    (a = Done \<or> (\<exists>err. a = Failed err \<and> errors_Is err (SubnetlistErr ErrInvalidCIDR)))"
proof -
  note ok = after_facts [OF assms(1), of cfg]
  have "fst (serve (local_server cfg) (ManageCIDR e r1 r2) (after cfg rs)) = a"
    using assms(4) by simp
  with manage_answer [OF ok(1) assms(2,3) refl, where cfg = cfg and e = e]
    serve_manage_facts(3) [OF ok(1) assms(2-4)]
  show ?thesis
    unfolding ok(2) edited_snoc by blast
qed

theorem edits_stored_and_answered_witness:
  "fst (serve (local_server witness_limits) (ManageCIDR (AddW ''10.0.0.0/8'') rev rev) local_init) = Done \<and>
   fst (serve (local_server witness_limits) (ManageCIDR (AddW ''10.0.0.0'') rev rev) local_init) \<noteq> Done"
  using edits_stored_and_answered [of "[]" rev rev witness_limits "AddW ''10.0.0.0/8''",
      OF _ _ _ surjective_pairing]
    edits_stored_and_answered [of "[]" rev rev witness_limits "AddW ''10.0.0.0''",
      OF _ _ _ surjective_pairing] witness_net_facts
  by (simp add: edited_def)

text \<open>
  C4. An edit that succeeds is in effect at once, in local mode and with requests served one at a
  time: the check decides by the lists as edited, the
  white list winning, and answers a listed address without counting it.
\<close>

theorem edit_takes_effect:
  assumes "\<forall>r \<in> set rs. fair_request r" "fair_order r1" "fair_order r2"
    and "serve (local_server cfg) (ManageCIDR e r1 r2) (after cfg rs) = (Done, w)"
    and "L = edited (edits_of rs @ [e])" "ParseIP (req_Ip req) = Some ip"
  shows "SubnetPolicer_Check (policer w) ip = decide (L Whitelist) (L Blacklist) ip \<and>
    ((\<exists>c \<in> L Whitelist. cidr_covers c ip) \<longrightarrow>
      serve (local_server cfg) (CheckAttempt m req) w = (Checked True, w)) \<and>
    ((\<forall>c \<in> L Whitelist. \<not> cidr_covers c ip) \<longrightarrow> (\<exists>c \<in> L Blacklist. cidr_covers c ip) \<longrightarrow>
      serve (local_server cfg) (CheckAttempt m req) w = (Checked False, w))"
proof -
  note f = serve_manage_facts [OF after_facts(1) [OF assms(1)] assms(2-4)]
  have "stored (subnet_db w) = L"
    using f(3) after_facts(2) [OF assms(1), of cfg] by (simp add: assms(5) edited_snoc)
  then have "white_texts (policer w) = L Whitelist" "black_texts (policer w) = L Blacklist"
    using f(4) by simp_all
  then have dec: "SubnetPolicer_Check (policer w) ip = decide (L Whitelist) (L Blacklist) ip"
    using Check_decides [of "policer w" ip] f(1) by (simp add: local_ok_def)
  then show ?thesis
    using serve_listed [OF assms(6), of w cfg m] by (simp add: decide_def)
qed

lemma witness_edit:
  "fst (serve (local_server witness_limits) (ManageCIDR (AddB ''10.0.0.0/8'') rev rev) local_init) = Done"
  using manage_answer [OF local_init_ok(1) _ _ refl, of rev rev witness_limits "AddB ''10.0.0.0/8''"]
    local_init_ok witness_net_facts by simp

theorem edit_takes_effect_witness:
  "fst (serve (local_server witness_limits)
    (CheckAttempt (witness_at 0) \<lparr>req_Login = ''u'', req_Password = ''p'', req_Ip = ''10.1.2.3''\<rparr>)
    (snd (serve (local_server witness_limits) (ManageCIDR (AddB ''10.0.0.0/8'') rev rev) local_init)))
   = Checked False"
proof -
  have "serve (local_server witness_limits) (ManageCIDR (AddB ''10.0.0.0/8'') rev rev) (after witness_limits []) =
      (Done, snd (serve (local_server witness_limits) (ManageCIDR (AddB ''10.0.0.0/8'') rev rev) local_init))"
    using witness_edit by (simp add: prod_eq_iff)
  from edit_takes_effect [OF _ _ _ this refl, of _ "v4InV6Prefix @ [10, 1, 2, 3]" "witness_at 0"]
  show ?thesis
    using witness_net_facts by (simp add: edited_def)
qed

text \<open>
  C12. In local mode an invalid text poisons the lists: it is stored although its addition is answered with an
  error, and until that very text is removed no edit succeeds and the black list in effect stays
  what it was, whatever is added to or removed from the stored one.
\<close>

theorem invalid_text_poisons:
  assumes "\<forall>r \<in> set rs. fair_request r" "fair_order r1" "fair_order r2"
    and "\<forall>r \<in> set rs'. fair_request r" "\<not> valid_cidr c"
    and "\<forall>r1 r2. ManageCIDR (RemoveW c) r1 r2 \<notin> set rs'"
    and "w = after cfg (rs @ ManageCIDR (AddW c) r1 r2 # rs')"
    and "e \<noteq> RemoveW c" "fair_order r3" "fair_order r4"
  shows "c \<in> stored (subnet_db w) Whitelist \<and>
    fst (serve (local_server cfg) (ManageCIDR e r3 r4) w) \<noteq> Done \<and>
    black_texts (policer w) = black_texts (policer (after cfg rs))"
proof -
  let ?w0 = "snd (serve (local_server cfg) (ManageCIDR (AddW c) r1 r2) (after cfg rs))"
  note ok = after_facts(1) [OF assms(1), of cfg]
  note add = serve_manage_facts [OF ok assms(2,3) prod.collapse [symmetric], of cfg "AddW c"]
  have start: "local_ok ?w0 \<and> c \<in> stored (subnet_db ?w0) Whitelist \<and>
      black_texts (policer ?w0) = black_texts (policer (after cfg rs))"
    using add manage_poisoned [OF ok assms(2,3) _ assms(5), of "AddW c" cfg] by simp
  have keep: "c \<in> edit_sets e' S Whitelist" if "c \<in> S Whitelist" "e' \<noteq> RemoveW c" for e' and S :: "ListType \<Rightarrow> string set"
    using that by (cases e') auto
  have run: "local_ok (snd (serve_all (local_server cfg) rs' v)) \<and>
      c \<in> stored (subnet_db (snd (serve_all (local_server cfg) rs' v))) Whitelist \<and>
      black_texts (policer (snd (serve_all (local_server cfg) rs' v))) = B"
    if "local_ok v \<and> c \<in> stored (subnet_db v) Whitelist \<and> black_texts (policer v) = B" for v B
    using assms(4,6) that
  proof (induction rs' arbitrary: v)
    case (Cons r rs')
    let ?v = "snd (serve (local_server cfg) r v)"
    have "local_ok ?v \<and> c \<in> stored (subnet_db ?v) Whitelist \<and> black_texts (policer ?v) = B"
    proof (cases r)
      case (ManageCIDR e' r5 r6)
      with Cons.prems have fair: "fair_order r5" "fair_order r6" and e': "e' \<noteq> RemoveW c" by auto
      from Cons.prems(3) have v: "local_ok v" "c \<in> stored (subnet_db v) Whitelist" by auto
      show ?thesis
        using serve_manage_facts [OF v(1) fair prod.collapse [symmetric], of cfg e'] keep [of "stored (subnet_db v)" e', OF v(2) e']
          manage_poisoned [OF v(1) fair keep [of "stored (subnet_db v)" e', OF v(2) e'] assms(5), of cfg] Cons.prems(3)
        by (simp add: ManageCIDR)
    next
      case (CheckAttempt m req)
      with Cons.prems(3) serve_check_lists [of cfg m req v] show ?thesis by (simp add: local_ok_def)
    next
      case (ResetBucket req)
      with Cons.prems(3) serve_reset_lists [of cfg req v] show ?thesis by (simp add: local_ok_def)
    qed
    with Cons show ?case by (simp add: serve_all_Cons_snd)
  qed simp
  have w: "w = snd (serve_all (local_server cfg) rs' ?w0)"
    by (simp add: assms(7) serve_all_append serve_all_Cons_snd)
  from run [OF start] have "local_ok w" "c \<in> stored (subnet_db w) Whitelist"
    "black_texts (policer w) = black_texts (policer (after cfg rs))" by (simp_all add: w)
  moreover from this have "fst (serve (local_server cfg) (ManageCIDR e r3 r4) w) \<noteq> Done"
    using manage_answer [OF _ assms(9,10) refl, where w = w and cfg = cfg and e = e]
      keep [of "stored (subnet_db w)" e, OF _ assms(8)] assms(5)
    by blast
  ultimately show ?thesis by blast
qed

theorem invalid_text_poisons_witness:
  "fst (serve (local_server witness_limits) (ManageCIDR (AddB ''10.0.0.0/8'') rev rev)
    (after witness_limits [ManageCIDR (AddW ''10.0.0.0'') rev rev])) \<noteq> Done"
  using invalid_text_poisons [of "[]" rev rev "[]" "''10.0.0.0''" _ witness_limits "AddB ''10.0.0.0/8''" rev rev,
      OF _ _ _ _ _ _ refl] witness_net_facts
  by simp

end
